(* ===== verification/Proxy_Prelude.thy ===== *)
theory Proxy_Prelude
  imports Main "HOL-Library.Monad_Syntax"
begin

section \<open>Prelude: memory, undefined behaviour, proof collections\<close>

text \<open>
  What every component of the proxy shares.

  A C pointer to a heap object is a \<open>ptr\<close>: \<open>None\<close> is NULL and \<open>Some a\<close> is the
  address \<open>a\<close>. A heap maps the allocated addresses to the structs stored there.
  An operation that may go wrong in memory (a NULL or dangling dereference, an index outside
  an array, a second \<open>free\<close>, a loop that never ends) has an \<open>option\<close> type, and
  \<open>None\<close> means that the C program has left defined behaviour or does not return. So a
  theorem that an operation yields \<open>Some\<close> states its memory safety and its termination.

  The last section has the facts on \<open>filter\<close> and on pointwise updated tables that the
  cache and the pools share.
\<close>

named_theorems mem_simps \<open>evaluation of loads, stores and frees\<close>
named_theorems consts_defs \<open>the numeric constants of the headers\<close>

type_synonym addr = nat
type_synonym ptr = "addr option"
type_synonym 'n heap = "addr \<Rightarrow> 'n option"

subsection \<open>Loads, stores, frees\<close>

definition deref :: "'n heap \<Rightarrow> ptr \<Rightarrow> 'n option" where
  "deref h p = (case p of None \<Rightarrow> None | Some a \<Rightarrow> h a)"

definition poke :: "ptr \<Rightarrow> ('n \<Rightarrow> 'n) \<Rightarrow> 'n heap \<Rightarrow> 'n heap option" where
  "poke p f h = (case p of None \<Rightarrow> None
     | Some a \<Rightarrow> (case h a of None \<Rightarrow> None | Some n \<Rightarrow> Some (h(a \<mapsto> f n))))"

text \<open>\<open>free(NULL)\<close> does nothing; freeing what is not allocated is undefined.\<close>

definition release :: "ptr \<Rightarrow> 'n heap \<Rightarrow> 'n heap option" where
  "release p h = (case p of None \<Rightarrow> Some h
     | Some a \<Rightarrow> (case h a of None \<Rightarrow> None | Some n \<Rightarrow> Some (h(a := None))))"

lemma deref_simps [simp, mem_simps]:
  "deref h None = None" "deref h (Some a) = h a"
  by (simp_all add: deref_def)

lemma poke_None [simp, mem_simps]: "poke None f h = None"
  by (simp add: poke_def)

lemma poke_Some [mem_simps]: "h a = Some n \<Longrightarrow> poke (Some a) f h = Some (h(a \<mapsto> f n))"
  by (simp add: poke_def)

lemma release_None [simp, mem_simps]: "release None h = Some h"
  by (simp add: release_def)

lemma release_Some [mem_simps]: "h a = Some n \<Longrightarrow> release (Some a) h = Some (h(a := None))"
  by (simp add: release_def)

lemma double_free_undefined: "release (Some a) h = Some h' \<Longrightarrow> release (Some a) h' = None"
  by (auto simp: release_def split: option.splits)

lemma map_option_bind_out: "map_option f (m \<bind> g) = m \<bind> (\<lambda>x. map_option f (g x))"
  by (cases m) simp_all

subsection \<open>Allocators\<close>

text \<open>
  The value of one \<open>malloc\<close> call as a function of the heap it is called on: NULL, or an
  address. What the code relies on is that the address is not in use.
\<close>

type_synonym 'n allocator = "'n heap \<Rightarrow> ptr"

definition alloc_fresh :: "'n allocator \<Rightarrow> bool" where
  "alloc_fresh al \<longleftrightarrow> (\<forall>h a. al h = Some a \<longrightarrow> h a = None)"

definition first_fit :: "nat \<Rightarrow> 'n allocator" where
  "first_fit n h = find (\<lambda>a. h a = None) [0..<n]"

lemma alloc_freshD: "alloc_fresh al \<Longrightarrow> al h = Some a \<Longrightarrow> h a = None"
  by (simp add: alloc_fresh_def)

lemma alloc_fresh_first_fit [simp]: "alloc_fresh (first_fit n)"
  by (auto simp: alloc_fresh_def first_fit_def find_Some_iff)

lemma alloc_fresh_fail [simp]: "alloc_fresh (\<lambda>h. None)"
  by (simp add: alloc_fresh_def)

subsection \<open>Array accesses\<close>

definition array_read :: "'a list \<Rightarrow> nat \<Rightarrow> 'a option" where
  "array_read xs i = (if i < length xs then Some (xs ! i) else None)"

definition array_write :: "'a list \<Rightarrow> nat \<Rightarrow> 'a \<Rightarrow> 'a list option" where
  "array_write xs i x = (if i < length xs then Some (xs[i := x]) else None)"

lemma array_read_in [simp, mem_simps]: "i < length xs \<Longrightarrow> array_read xs i = Some (xs ! i)"
  by (simp add: array_read_def)

lemma array_write_in [simp, mem_simps]: "i < length xs \<Longrightarrow> array_write xs i x = Some (xs[i := x])"
  by (simp add: array_write_def)

lemma array_read_out [simp]: "length xs \<le> i \<Longrightarrow> array_read xs i = None"
  by (simp add: array_read_def)

subsection \<open>Lists\<close>

lemma filter_split_hd:
  assumes "filter P xs = a # as"
  obtains ys zs where "xs = ys @ a # zs" "\<forall>y \<in> set ys. \<not> P y" "P a" "filter P zs = as"
  using assms by (auto simp: filter_eq_Cons_iff)

lemma filter_remove_distinct:
  "distinct (ys @ a # zs) \<Longrightarrow>
    filter P (ys @ zs) = filter (\<lambda>x. x \<noteq> a) (filter P (ys @ a # zs))"
  by (auto intro!: arg_cong2 [of _ _ _ _ append] filter_cong)

lemma filter_neq_id: "a \<notin> set xs \<Longrightarrow> filter (\<lambda>x. x \<noteq> a) xs = xs"
  by (induction xs) auto

lemma find_conv_filter: "find P xs = (case filter P xs of [] \<Rightarrow> None | x # _ \<Rightarrow> Some x)"
  by (induction xs) auto

lemma snoc_cases: "xs \<noteq> [] \<Longrightarrow> \<exists>ys y. xs = ys @ [y]"
  by (metis append_butlast_last_id)

subsection \<open>Sequences of operations\<close>

fun run_ops :: "('op \<Rightarrow> 'c \<Rightarrow> 'c option) \<Rightarrow> 'op list \<Rightarrow> 'c \<Rightarrow> 'c option" where
  "run_ops f [] c = Some c"
| "run_ops f (x # xs) c = do { c \<leftarrow> f x c; run_ops f xs c }"

lemma run_ops_append: "run_ops f (xs @ ys) c = do { c \<leftarrow> run_ops f xs c; run_ops f ys c }"
proof (induction xs arbitrary: c)
  case Nil
  then show ?case by simp
next
  case (Cons x xs)
  then show ?case by (cases "f x c") simp_all
qed

lemma run_ops_invariant:
  "(\<And>x c. I c \<Longrightarrow> ok x \<Longrightarrow> \<exists>c'. f x c = Some c' \<and> I c') \<Longrightarrow> I c \<Longrightarrow> \<forall>x \<in> set xs. ok x \<Longrightarrow>
    \<exists>c'. run_ops f xs c = Some c' \<and> I c'"
proof (induction xs arbitrary: c)
  case Nil
  then show ?case by simp
next
  case (Cons x xs)
  from Cons.prems(1) [OF Cons.prems(2), of x] Cons.prems(3) obtain c1
    where "f x c = Some c1" "I c1" by auto
  with Cons.IH [OF Cons.prems(1)] Cons.prems(3) show ?case by auto
qed

end
