(* ===== verification/Linked_Lists.thy ===== *)
theory Linked_Lists
  imports Proxy_Prelude
begin

section \<open>Linked lists in a heap\<close>

text \<open>
  \<open>lseg h nx p xs q\<close>: following the pointer field \<open>nx\<close> from \<open>p\<close> visits the nodes at the
  addresses \<open>xs\<close>, in that order, and arrives at \<open>q\<close>. The heap and the field are
  parameters, so the same facts serve the hash chains and the recency list of the cache
  (the fields \<open>hnext\<close>, \<open>lru_next\<close> and \<open>lru_prev\<close> of a \<open>cache_node\<close>) and the task queue of
  the thread pool.
\<close>

fun lseg :: "'n heap \<Rightarrow> ('n \<Rightarrow> ptr) \<Rightarrow> ptr \<Rightarrow> addr list \<Rightarrow> ptr \<Rightarrow> bool" where
  "lseg h nx p [] q \<longleftrightarrow> p = q"
| "lseg h nx p (a # as) q \<longleftrightarrow> p = Some a \<and> (\<exists>n. h a = Some n \<and> lseg h nx (nx n) as q)"

lemma lseg_append [simp]:
  "lseg h nx p (xs @ ys) q \<longleftrightarrow> (\<exists>r. lseg h nx p xs r \<and> lseg h nx r ys q)"
  by (induction xs arbitrary: p) auto

lemma lseg_allocated: "lseg h nx p xs q \<Longrightarrow> a \<in> set xs \<Longrightarrow> \<exists>n. h a = Some n"
  by (induction xs arbitrary: p) auto

lemma lseg_subset_dom: "lseg h nx p xs q \<Longrightarrow> set xs \<subseteq> dom h"
  by (auto dest: lseg_allocated)

lemma lseg_upd_notin [simp]:
  "a \<notin> set xs \<Longrightarrow> lseg (h(a := v)) nx p xs q = lseg h nx p xs q"
  by (induction xs arbitrary: p) auto

text \<open>A store that keeps the field \<open>nx\<close> keeps every list along \<open>nx\<close>.\<close>

lemma lseg_upd_same:
  "h a = Some n \<Longrightarrow> nx n' = nx n \<Longrightarrow> lseg (h(a \<mapsto> n')) nx p xs q = lseg h nx p xs q"
  by (induction xs arbitrary: p) auto

text \<open>A store into the last node of a segment redirects where the segment arrives.\<close>

lemma lseg_upd_last:
  "lseg h nx p (xs @ [a]) q \<Longrightarrow> a \<notin> set xs \<Longrightarrow>
    lseg (h(a \<mapsto> n')) nx p (xs @ [a]) (nx n')"
  by auto

lemma lseg_unique:
  "lseg h nx p xs None \<Longrightarrow> lseg h nx p ys None \<Longrightarrow> xs = ys"
proof (induction xs arbitrary: p ys)
  case Nil
  then show ?case by (cases ys) auto
next
  case (Cons a as)
  then show ?case by (cases ys) auto
qed

lemma lseg_tail_notin: "h a = Some n \<Longrightarrow> lseg h nx (nx n) as None \<Longrightarrow> a \<notin> set as"
proof
  assume n: "h a = Some n" and l: "lseg h nx (nx n) as None" and "a \<in> set as"
  then obtain ys zs where as: "as = ys @ a # zs" by (meson split_list)
  with l n have "lseg h nx (nx n) zs None" by auto
  with l have "as = zs" by (rule lseg_unique)
  with as show False by simp
qed

lemma lseg_distinct: "lseg h nx p xs None \<Longrightarrow> distinct xs"
  by (induction xs arbitrary: p) (auto dest: lseg_tail_notin)

lemma lseg_None_Nil [simp]: "lseg h nx None xs q \<longleftrightarrow> xs = [] \<and> q = None"
  by (cases xs) auto

lemma lseg_start_Some:
  "lseg h nx (Some a) xs None \<longleftrightarrow>
    (\<exists>n ys. xs = a # ys \<and> h a = Some n \<and> lseg h nx (nx n) ys None)"
  by (cases xs) auto

lemma lseg_hd: "lseg h nx p xs None \<Longrightarrow> p = (case xs of [] \<Rightarrow> None | x # _ \<Rightarrow> Some x)"
  by (cases xs) auto

lemma lseg_last: "lseg h nx p (xs @ [a]) None \<Longrightarrow> \<exists>n. h a = Some n \<and> nx n = None"
  by auto

text \<open>The addresses of a list, read off with a bound on their number.\<close>

fun walk :: "nat \<Rightarrow> 'n heap \<Rightarrow> ('n \<Rightarrow> ptr) \<Rightarrow> ptr \<Rightarrow> addr list" where
  "walk 0 h nx p = []"
| "walk (Suc k) h nx p = (case p of None \<Rightarrow> []
     | Some a \<Rightarrow> (case h a of None \<Rightarrow> [] | Some n \<Rightarrow> a # walk k h nx (nx n)))"

lemma walk_lseg: "lseg h nx p xs None \<Longrightarrow> length xs \<le> k \<Longrightarrow> walk k h nx p = xs"
proof (induction xs arbitrary: p k)
  case Nil
  then show ?case by (cases k) auto
next
  case (Cons a as)
  then show ?case by (cases k) auto
qed

end
