(* ===== verification/Cache.thy ===== *)
theory Cache
  imports Linked_Lists "HOL-Library.Word"
begin

section \<open>The response cache: data and operations\<close>

text \<open>
  Models \<^verbatim>\<open>include/proxy/cache.h\<close> and \<^verbatim>\<open>src/components/cache.c\<close>: a hash table of
  chains (field \<open>hnext\<close>, the source's \<open>next\<close>) whose nodes are also linked into one doubly
  linked recency list (\<open>lru_prev\<close>, \<open>lru_next\<close>). The nodes live in the field \<open>heap\<close>; a node's
  \<open>url\<close> and \<open>data\<close> buffers are allocated and freed with it and are kept in the node.
  Strings are the bytes before the terminating NUL. Every operation runs from its first to its
  last access under \<open>cache_mutex\<close>, so one call is one atomic step; log lines are left out.
  \<open>time(NULL)\<close> is the argument \<open>now\<close>.
\<close>

definition CACHE_SIZE :: int where
  [consts_defs]: "CACHE_SIZE = 1024"

definition HASH_TABLE_SIZE :: nat where
  [consts_defs]: "HASH_TABLE_SIZE = 1024"

definition CACHE_EXPIRY_TIME :: int where
  [consts_defs]: "CACHE_EXPIRY_TIME = 300"

record cache_node =
  url :: string
  data :: string
  data_size :: int
  timestamp :: int
  access_count :: "32 word"
  hnext :: ptr
  lru_prev :: ptr
  lru_next :: ptr

record optimized_cache =
  hash_table :: "ptr list"
  lru_head :: ptr
  lru_tail :: ptr
  current_size :: int
  max_size :: int
  heap :: "cache_node heap"

subsection \<open>Stores through a cache\<close>

definition mod_node :: "ptr \<Rightarrow> (cache_node \<Rightarrow> cache_node) \<Rightarrow> optimized_cache \<Rightarrow> optimized_cache option" where
  "mod_node p f c = map_option (\<lambda>h. c\<lparr>heap := h\<rparr>) (poke p f (heap c))"

definition set_slot :: "nat \<Rightarrow> ptr \<Rightarrow> optimized_cache \<Rightarrow> optimized_cache option" where
  "set_slot i p c = map_option (\<lambda>t. c\<lparr>hash_table := t\<rparr>) (array_write (hash_table c) i p)"

definition free_node :: "ptr \<Rightarrow> optimized_cache \<Rightarrow> optimized_cache option" where
  "free_node p c = map_option (\<lambda>h. c\<lparr>heap := h\<rparr>) (release p (heap c))"

subsection \<open>The hash function\<close>

text \<open>
  \<open>int c = *url++\<close> reads a \<open>char\<close>, which is signed on the targets of the Makefile and of
  \<^verbatim>\<open>build.ps1\<close> (gcc on x86), and adds it to an \<open>unsigned int\<close>.
\<close>

definition char_to_u32 :: "char \<Rightarrow> 32 word" where
  "char_to_u32 c = scast (of_char c :: 8 word)"

fun cache_hash_loop :: "32 word \<Rightarrow> string \<Rightarrow> 32 word" where
  "cache_hash_loop hash [] = hash"
| "cache_hash_loop hash (c # cs) = cache_hash_loop ((push_bit 5 hash + hash) + char_to_u32 c) cs"

definition cache_hash :: "string \<Rightarrow> nat" where
  "cache_hash u = unat (cache_hash_loop 5381 u mod word_of_nat HASH_TABLE_SIZE)"

subsection \<open>Creation\<close>

text \<open>The three calls that can fail: the two \<open>malloc\<close>s and the mutex initialisation.\<close>

definition cache_create :: "bool \<Rightarrow> bool \<Rightarrow> bool \<Rightarrow> optimized_cache option" where
  "cache_create malloc_cache malloc_table mutex_init =
     (if \<not> malloc_cache then None
      else if \<not> malloc_table then None
      else if \<not> mutex_init then None
      else Some \<lparr>hash_table = replicate HASH_TABLE_SIZE None, lru_head = None, lru_tail = None,
                 current_size = 0, max_size = CACHE_SIZE, heap = Map.empty\<rparr>)"

subsection \<open>The recency list\<close>

definition cache_move_to_front :: "optimized_cache \<Rightarrow> ptr \<Rightarrow> optimized_cache option" where
  "cache_move_to_front c node =
     (if node = None \<or> node = lru_head c then Some c
      else do {
        n \<leftarrow> deref (heap c) node;
        c \<leftarrow> (if lru_prev n \<noteq> None
              then mod_node (lru_prev n) (\<lambda>m. m\<lparr>lru_next := lru_next n\<rparr>) c else Some c);
        n \<leftarrow> deref (heap c) node;
        c \<leftarrow> (if lru_next n \<noteq> None
              then mod_node (lru_next n) (\<lambda>m. m\<lparr>lru_prev := lru_prev n\<rparr>) c
              else Some (c\<lparr>lru_tail := lru_prev n\<rparr>));
        c \<leftarrow> mod_node node (\<lambda>m. m\<lparr>lru_prev := None, lru_next := lru_head c\<rparr>) c;
        c \<leftarrow> (if lru_head c \<noteq> None
              then mod_node (lru_head c) (\<lambda>m. m\<lparr>lru_prev := node\<rparr>) c
              else Some (c\<lparr>lru_tail := node\<rparr>));
        Some (c\<lparr>lru_head := node\<rparr>)
      })"

text \<open>
  Taking one node out of its chain, given its predecessor there, if it has one. The same
  lines stand in \<open>cache_remove_lru\<close> and in \<open>cache_remove_expired\<close>.
\<close>

definition chain_cut :: "optimized_cache \<Rightarrow> nat \<Rightarrow> ptr \<Rightarrow> ptr \<Rightarrow> optimized_cache option" where
  "chain_cut c i prev current =
     do {
       n \<leftarrow> deref (heap c) current;
       (if prev \<noteq> None then mod_node prev (\<lambda>m. m\<lparr>hnext := hnext n\<rparr>) c
        else set_slot i (hnext n) c)
     }"

text \<open>
  The loop of \<open>cache_remove_lru\<close> that unlinks the victim from its hash chain. A chain is
  followed to its end with no bound, so the loop is a partial function.
\<close>

partial_function (option) unlink_chain ::
    "optimized_cache \<Rightarrow> nat \<Rightarrow> ptr \<Rightarrow> ptr \<Rightarrow> ptr \<Rightarrow> optimized_cache option" where
  "unlink_chain c hash victim prev current =
     (if current = None then Some c
      else if current = victim then chain_cut c hash prev current
      else do {
        n \<leftarrow> deref (heap c) current;
        unlink_chain c hash victim current (hnext n)
      })"

definition cache_remove_lru :: "optimized_cache \<Rightarrow> optimized_cache option" where
  "cache_remove_lru c =
     (if lru_tail c = None then Some c
      else do {
        let victim = lru_tail c;
        n \<leftarrow> deref (heap c) victim;
        c \<leftarrow> (if lru_prev n \<noteq> None
              then do {
                c \<leftarrow> mod_node (lru_prev n) (\<lambda>m. m\<lparr>lru_next := None\<rparr>) c;
                Some (c\<lparr>lru_tail := lru_prev n\<rparr>)
              }
              else Some (c\<lparr>lru_head := None, lru_tail := None\<rparr>));
        let hash = cache_hash (url n);
        first \<leftarrow> array_read (hash_table c) hash;
        c \<leftarrow> unlink_chain c hash victim None first;
        c \<leftarrow> free_node victim c;
        Some (c\<lparr>current_size := current_size c - 1\<rparr>)
      })"

subsection \<open>Lookup\<close>

partial_function (option) cache_search ::
    "cache_node heap \<Rightarrow> int \<Rightarrow> string \<Rightarrow> ptr \<Rightarrow> ptr option" where
  "cache_search h now u node =
     (if node = None then Some None
      else do {
        n \<leftarrow> deref h node;
        (if url n = u then
           (if now - timestamp n < CACHE_EXPIRY_TIME then Some node else Some None)
         else cache_search h now u (hnext n))
      })"

definition cache_get_locked ::
    "int \<Rightarrow> optimized_cache \<Rightarrow> string \<Rightarrow> (ptr \<times> optimized_cache) option" where
  "cache_get_locked now c u =
     do {
       first \<leftarrow> array_read (hash_table c) (cache_hash u);
       node \<leftarrow> cache_search (heap c) now u first;
       (if node = None then Some (None, c)
        else do {
          c \<leftarrow> cache_move_to_front c node;
          c \<leftarrow> mod_node node (\<lambda>m. m\<lparr>access_count := access_count m + 1\<rparr>) c;
          Some (node, c)
        })
     }"

text \<open>The guard on NULL arguments; the globals and arguments of the caller are pointers.\<close>

definition cache_get ::
    "int \<Rightarrow> optimized_cache option \<Rightarrow> string option \<Rightarrow> (ptr \<times> optimized_cache option) option" where
  "cache_get now cache u =
     (case cache of None \<Rightarrow> Some (None, cache)
      | Some c \<Rightarrow> (case u of None \<Rightarrow> Some (None, cache)
        | Some u \<Rightarrow> map_option (\<lambda>(p, c'). (p, Some c')) (cache_get_locked now c u)))"

subsection \<open>Insertion\<close>

text \<open>The outcomes of the three \<open>malloc\<close> calls of \<open>cache_add\<close>.\<close>

record cache_mallocs =
  malloc_node :: "cache_node allocator"
  malloc_url :: bool
  malloc_data :: bool

definition link_front :: "optimized_cache \<Rightarrow> ptr \<Rightarrow> optimized_cache option" where
  "link_front c node =
     do {
       c \<leftarrow> mod_node node (\<lambda>m. m\<lparr>lru_prev := None, lru_next := lru_head c\<rparr>) c;
       c \<leftarrow> (if lru_head c \<noteq> None
             then mod_node (lru_head c) (\<lambda>m. m\<lparr>lru_prev := node\<rparr>) c
             else Some (c\<lparr>lru_tail := node\<rparr>));
       Some (c\<lparr>lru_head := node\<rparr>)
     }"

definition cache_add_locked ::
    "cache_mallocs \<Rightarrow> int \<Rightarrow> optimized_cache \<Rightarrow> string \<Rightarrow> string \<Rightarrow> int \<Rightarrow> (int \<times> optimized_cache) option" where
  "cache_add_locked ms now c u d sz =
     do {
       c \<leftarrow> (if current_size c \<ge> max_size c then cache_remove_lru c else Some c);
       (case malloc_node ms (heap c) of
          None \<Rightarrow> Some (- 1, c)
        | Some a \<Rightarrow>
            if \<not> malloc_url ms then Some (- 1, c)
            else if \<not> malloc_data ms then Some (- 1, c)
            else if length d < nat sz then None
            else do {
              let hash = cache_hash u;
              first \<leftarrow> array_read (hash_table c) hash;
              let c = c\<lparr>heap := (heap c)(a \<mapsto>
                \<lparr>url = u, data = take (nat sz) d, data_size = sz, timestamp = now,
                 access_count = 1, hnext = first, lru_prev = None, lru_next = None\<rparr>)\<rparr>;
              c \<leftarrow> set_slot hash (Some a) c;
              c \<leftarrow> link_front c (Some a);
              Some (0, c\<lparr>current_size := current_size c + 1\<rparr>)
            })
     }"

definition cache_add ::
    "cache_mallocs \<Rightarrow> int \<Rightarrow> optimized_cache option \<Rightarrow> string option \<Rightarrow> string option \<Rightarrow> int
      \<Rightarrow> (int \<times> optimized_cache option) option" where
  "cache_add ms now cache u d sz =
     (case (cache, u, d) of
        (Some c, Some u, Some d) \<Rightarrow>
          if sz \<le> 0 then Some (- 1, cache)
          else map_option (\<lambda>(r, c'). (r, Some c')) (cache_add_locked ms now c u d sz)
      | _ \<Rightarrow> Some (- 1, cache))"

subsection \<open>Expiry\<close>

text \<open>Unlinking one expired node, its chain first, then the recency list, then its memory.\<close>

definition expire_node :: "optimized_cache \<Rightarrow> nat \<Rightarrow> ptr \<Rightarrow> ptr \<Rightarrow> optimized_cache option" where
  "expire_node c i prev expired =
     do {
       c \<leftarrow> chain_cut c i prev expired;
       n \<leftarrow> deref (heap c) expired;
       c \<leftarrow> (if lru_prev n \<noteq> None
             then mod_node (lru_prev n) (\<lambda>m. m\<lparr>lru_next := lru_next n\<rparr>) c
             else Some (c\<lparr>lru_head := lru_next n\<rparr>));
       n \<leftarrow> deref (heap c) expired;
       c \<leftarrow> (if lru_next n \<noteq> None
             then mod_node (lru_next n) (\<lambda>m. m\<lparr>lru_prev := lru_prev n\<rparr>) c
             else Some (c\<lparr>lru_tail := lru_prev n\<rparr>));
       c \<leftarrow> free_node expired c;
       Some (c\<lparr>current_size := current_size c - 1\<rparr>)
     }"

partial_function (option) expire_chain ::
    "int \<Rightarrow> nat \<Rightarrow> optimized_cache \<Rightarrow> ptr \<Rightarrow> ptr \<Rightarrow> int \<Rightarrow> (optimized_cache \<times> int) option" where
  "expire_chain now i c prev current removed =
     (if current = None then Some (c, removed)
      else do {
        n \<leftarrow> deref (heap c) current;
        (if now - timestamp n \<ge> CACHE_EXPIRY_TIME then
           do {
             c \<leftarrow> expire_node c i prev current;
             next_node \<leftarrow> (if prev \<noteq> None then map_option hnext (deref (heap c) prev)
                           else array_read (hash_table c) i);
             expire_chain now i c prev next_node (removed + 1)
           }
         else expire_chain now i c current (hnext n) removed)
      })"

fun expire_slots :: "int \<Rightarrow> nat list \<Rightarrow> optimized_cache \<Rightarrow> int \<Rightarrow> (optimized_cache \<times> int) option" where
  "expire_slots now [] c removed = Some (c, removed)"
| "expire_slots now (i # is) c removed =
     do {
       first \<leftarrow> array_read (hash_table c) i;
       (c, removed) \<leftarrow> expire_chain now i c None first removed;
       expire_slots now is c removed
     }"

definition cache_remove_expired :: "int \<Rightarrow> optimized_cache option \<Rightarrow> optimized_cache option option" where
  "cache_remove_expired now cache =
     (case cache of None \<Rightarrow> Some None
      | Some c \<Rightarrow> do {
          (c, removed) \<leftarrow> expire_slots now [0..<HASH_TABLE_SIZE] c 0;
          Some (Some c)
        })"

subsection \<open>Destruction\<close>

partial_function (option) free_chain :: "cache_node heap \<Rightarrow> ptr \<Rightarrow> cache_node heap option" where
  "free_chain h current =
     (if current = None then Some h
      else do {
        n \<leftarrow> deref h current;
        h \<leftarrow> release current h;
        free_chain h (hnext n)
      })"

fun free_slots :: "ptr list \<Rightarrow> nat list \<Rightarrow> cache_node heap \<Rightarrow> cache_node heap option" where
  "free_slots t [] h = Some h"
| "free_slots t (i # is) h =
     do {
       first \<leftarrow> array_read t i;
       h \<leftarrow> free_chain h first;
       free_slots t is h
     }"

text \<open>
  The nodes that are left allocated; the table and the cache struct are freed after them.
  For a NULL cache nothing is done.
\<close>

definition cache_destroy :: "optimized_cache option \<Rightarrow> cache_node heap option" where
  "cache_destroy cache =
     (case cache of None \<Rightarrow> Some Map.empty
      | Some c \<Rightarrow> free_slots (hash_table c) [0..<HASH_TABLE_SIZE] (heap c))"

end
