(* ===== verification/Cache_Lists.thy ===== *)
theory Cache_Lists
  imports Cache
begin

section \<open>The two linked structures of the cache\<close>

text \<open>
  One lemma for each change the cache makes to a pointer structure: taking a node out of the
  recency list, putting a node at its front, taking a node out of a hash chain. Each says that
  the step is defined, what list results, and what the step leaves alone: \<open>same_chains\<close> for
  the steps on the recency list, \<open>same_lru\<close> for the steps on a chain.
\<close>

subsection \<open>Evaluating stores\<close>

lemma mod_node_Some [mem_simps]:
  "heap c a = Some n \<Longrightarrow> mod_node (Some a) f c = Some (c\<lparr>heap := (heap c)(a \<mapsto> f n)\<rparr>)"
  by (simp add: mod_node_def mem_simps)

lemma set_slot_in [mem_simps]:
  "i < length (hash_table c) \<Longrightarrow> set_slot i p c = Some (c\<lparr>hash_table := (hash_table c)[i := p]\<rparr>)"
  by (simp add: set_slot_def)

lemma free_node_Some [mem_simps]:
  "heap c a = Some n \<Longrightarrow> free_node (Some a) c = Some (c\<lparr>heap := (heap c)(a := None)\<rparr>)"
  by (simp add: free_node_def mem_simps)

subsection \<open>Frames\<close>

definition no_lru :: "cache_node \<Rightarrow> cache_node" where
  "no_lru n = n\<lparr>lru_prev := None, lru_next := None\<rparr>"

definition no_chain :: "cache_node \<Rightarrow> cache_node" where
  "no_chain n = n\<lparr>hnext := None\<rparr>"

definition same_chains :: "optimized_cache \<Rightarrow> optimized_cache \<Rightarrow> bool" where
  "same_chains c c' \<longleftrightarrow> hash_table c' = hash_table c \<and> current_size c' = current_size c
     \<and> max_size c' = max_size c
     \<and> (\<forall>a. map_option no_lru (heap c' a) = map_option no_lru (heap c a))"

definition same_lru :: "optimized_cache \<Rightarrow> optimized_cache \<Rightarrow> bool" where
  "same_lru c c' \<longleftrightarrow> lru_head c' = lru_head c \<and> lru_tail c' = lru_tail c
     \<and> current_size c' = current_size c \<and> max_size c' = max_size c
     \<and> length (hash_table c') = length (hash_table c)
     \<and> (\<forall>a. map_option no_chain (heap c' a) = map_option no_chain (heap c a))"

lemma same_chains_trans: "same_chains c d \<Longrightarrow> same_chains d e \<Longrightarrow> same_chains c e"
  by (simp add: same_chains_def)

lemma no_lru_sel [simp]:
  "url (no_lru n) = url n" "data (no_lru n) = data n" "data_size (no_lru n) = data_size n"
  "timestamp (no_lru n) = timestamp n" "access_count (no_lru n) = access_count n"
  "hnext (no_lru n) = hnext n"
  by (simp_all add: no_lru_def)

lemma no_lru_upd [simp]:
  "no_lru (n\<lparr>lru_prev := p\<rparr>) = no_lru n" "no_lru (n\<lparr>lru_next := p\<rparr>) = no_lru n"
  by (simp_all add: no_lru_def)

lemma no_chain_sel [simp]:
  "url (no_chain n) = url n" "data (no_chain n) = data n" "data_size (no_chain n) = data_size n"
  "timestamp (no_chain n) = timestamp n" "access_count (no_chain n) = access_count n"
  "lru_prev (no_chain n) = lru_prev n" "lru_next (no_chain n) = lru_next n"
  by (simp_all add: no_chain_def)

lemma no_chain_upd [simp]: "no_chain (n\<lparr>hnext := p\<rparr>) = no_chain n"
  by (simp add: no_chain_def)

lemma no_lru_fields:
  "no_lru m = no_lru n \<Longrightarrow> url m = url n"
  "no_lru m = no_lru n \<Longrightarrow> data m = data n"
  "no_lru m = no_lru n \<Longrightarrow> data_size m = data_size n"
  "no_lru m = no_lru n \<Longrightarrow> timestamp m = timestamp n"
  "no_lru m = no_lru n \<Longrightarrow> access_count m = access_count n"
  "no_lru m = no_lru n \<Longrightarrow> hnext m = hnext n"
  by (metis no_lru_sel(1), metis no_lru_sel(2), metis no_lru_sel(3), metis no_lru_sel(4),
      metis no_lru_sel(5), metis no_lru_sel(6))

lemma no_chain_fields:
  "no_chain m = no_chain n \<Longrightarrow> url m = url n"
  "no_chain m = no_chain n \<Longrightarrow> data m = data n"
  "no_chain m = no_chain n \<Longrightarrow> data_size m = data_size n"
  "no_chain m = no_chain n \<Longrightarrow> timestamp m = timestamp n"
  "no_chain m = no_chain n \<Longrightarrow> access_count m = access_count n"
  "no_chain m = no_chain n \<Longrightarrow> lru_prev m = lru_prev n"
  "no_chain m = no_chain n \<Longrightarrow> lru_next m = lru_next n"
  by (metis no_chain_sel(1), metis no_chain_sel(2), metis no_chain_sel(3), metis no_chain_sel(4),
      metis no_chain_sel(5), metis no_chain_sel(6), metis no_chain_sel(7))

text \<open>A list along a field that two heaps agree on is a list of both.\<close>

lemma lseg_cong_heap:
  "(\<And>a. map_option k (h' a) = map_option k (h a)) \<Longrightarrow>
    (\<And>m n. k m = k n \<Longrightarrow> nx m = nx n) \<Longrightarrow> lseg h nx p xs q \<Longrightarrow> lseg h' nx p xs q"
proof (induction xs arbitrary: p)
  case Nil
  from Nil(3) show ?case by simp
next
  case (Cons a as)
  from Cons.prems(3) obtain n where n: "h a = Some n" and p: "p = Some a"
    and l: "lseg h nx (nx n) as q" by auto
  from n Cons.prems(1) [of a] obtain n' where n': "h' a = Some n'" "k n' = k n" by auto
  from Cons.prems(2) [OF n'(2)] have "nx n' = nx n" .
  with Cons.IH [OF Cons.prems(1,2) l] n' p show ?case by simp
qed

subsection \<open>The recency list\<close>

definition dll :: "optimized_cache \<Rightarrow> addr list \<Rightarrow> bool" where
  "dll c xs \<longleftrightarrow> lseg (heap c) lru_next (lru_head c) xs None
     \<and> lseg (heap c) lru_prev (lru_tail c) (rev xs) None"

lemma dll_distinct: "dll c xs \<Longrightarrow> distinct xs"
  by (auto simp: dll_def dest: lseg_distinct)

lemma dll_same_lru: "same_lru c c' \<Longrightarrow> dll c xs \<Longrightarrow> dll c' xs"
  unfolding dll_def same_lru_def
  by (auto elim!: lseg_cong_heap [where k = no_chain, rotated 2] dest: no_chain_fields)

lemma dll_node:
  assumes "dll c (ys @ v # zs)"
  shows "\<exists>n. heap c v = Some n
     \<and> lru_prev n = (if ys = [] then None else Some (last ys))
     \<and> lru_next n = (case zs of [] \<Rightarrow> None | z # _ \<Rightarrow> Some z)"
proof -
  from assms obtain n where n: "heap c v = Some n"
    and f: "lseg (heap c) lru_next (lru_next n) zs None"
    and b: "lseg (heap c) lru_prev (lru_prev n) (rev ys) None"
    by (auto simp: dll_def)
  from lseg_hd [OF f] lseg_hd [OF b] n show ?thesis
    by (cases ys rule: rev_cases) auto
qed

lemma dll_head: "dll c xs \<Longrightarrow> lru_head c = (case xs of [] \<Rightarrow> None | x # _ \<Rightarrow> Some x)"
  by (auto simp: dll_def dest: lseg_hd)

lemma dll_tail: "dll c xs \<Longrightarrow> lru_tail c = (if xs = [] then None else Some (last xs))"
  by (cases xs rule: rev_cases) (auto simp: dll_def)

text \<open>
  The steps that take a node out of the recency list, in the form of
  \<open>cache_remove_expired\<close>; the other two functions do the same where they apply.
\<close>

definition lru_unlink :: "optimized_cache \<Rightarrow> ptr \<Rightarrow> optimized_cache option" where
  "lru_unlink c v =
     do {
       n \<leftarrow> deref (heap c) v;
       c \<leftarrow> (if lru_prev n \<noteq> None
             then mod_node (lru_prev n) (\<lambda>m. m\<lparr>lru_next := lru_next n\<rparr>) c
             else Some (c\<lparr>lru_head := lru_next n\<rparr>));
       n \<leftarrow> deref (heap c) v;
       (if lru_next n \<noteq> None
        then mod_node (lru_next n) (\<lambda>m. m\<lparr>lru_prev := lru_prev n\<rparr>) c
        else Some (c\<lparr>lru_tail := lru_prev n\<rparr>))
     }"

lemma lru_unlink_ok:
  assumes d: "dll c (ys @ v # zs)"
  shows "\<exists>c'. lru_unlink c (Some v) = Some c' \<and> dll c' (ys @ zs) \<and> same_chains c c'
     \<and> heap c' v = heap c v"
proof -
  note dist = dll_distinct [OF d]
  from dll_node [OF d] obtain n where n: "heap c v = Some n"
    and prev: "lru_prev n = (if ys = [] then None else Some (last ys))"
    and "next": "lru_next n = (case zs of [] \<Rightarrow> None | z # _ \<Rightarrow> Some z)" by blast
  show ?thesis
    using d dist n prev "next"
    by (cases ys rule: rev_cases; cases zs)
      (clarsimp simp: lru_unlink_def dll_def mem_simps same_chains_def)+
qed

lemma lru_unlink_head: "lru_unlink c v = Some c' \<Longrightarrow> dll c (y # ys @ v' # zs) \<Longrightarrow> v = Some v' \<Longrightarrow>
    lru_head c' = lru_head c"
proof -
  assume u: "lru_unlink c v = Some c'" and d: "dll c (y # ys @ v' # zs)" and v: "v = Some v'"
  from lru_unlink_ok [of c "y # ys" v' zs] d u v have "dll c' (y # ys @ zs)" by auto
  with d show ?thesis by (simp add: dll_head)
qed

lemma link_front_ok:
  assumes d: "dll c xs" and v: "heap c v = Some n" and notin: "v \<notin> set xs"
  shows "\<exists>c'. link_front c (Some v) = Some c' \<and> dll c' (v # xs) \<and> same_chains c c'"
  using dll_distinct [OF d] assms
  by (cases xs) (clarsimp simp: link_front_def dll_def mem_simps same_chains_def)+

text \<open>
  \<open>cache_move_to_front\<close> unlinks the node and links it in front; it does not touch the head
  before that, as a node that is not the head has a predecessor.
\<close>

lemma cache_move_to_front_ok:
  assumes d: "dll c (ys @ v # zs)"
  shows "\<exists>c'. cache_move_to_front c (Some v) = Some c' \<and> dll c' (v # ys @ zs) \<and> same_chains c c'"
proof (cases ys)
  case Nil
  with d show ?thesis by (simp add: cache_move_to_front_def dll_head same_chains_def)
next
  case (Cons y ys')
  with dll_distinct [OF d] dll_head [OF d] have hd: "lru_head c \<noteq> Some v" by simp
  from dll_node [OF d] Cons obtain n b where n: "heap c v = Some n" "lru_prev n = Some b" by auto
  from lru_unlink_ok [OF d] obtain c1 where c1: "lru_unlink c (Some v) = Some c1"
      "dll c1 (ys @ zs)" "same_chains c c1" "heap c1 v = heap c v" by blast
  with d Cons have "lru_head c1 = lru_head c" by (simp add: lru_unlink_head)
  moreover have "v \<notin> set (ys @ zs)" using dll_distinct [OF d] by simp
  ultimately obtain c2 where c2: "link_front c1 (Some v) = Some c2" "dll c2 (v # ys @ zs)"
      "same_chains c1 c2" using link_front_ok [OF c1(2), of v n] c1 n by auto
  have "cache_move_to_front c (Some v) = do { c \<leftarrow> lru_unlink c (Some v); link_front c (Some v) }"
    using hd n by (simp add: cache_move_to_front_def lru_unlink_def link_front_def)
  with c1 c2 same_chains_trans show ?thesis by auto
qed

subsection \<open>The hash chains\<close>

definition chain_table :: "optimized_cache \<Rightarrow> (nat \<Rightarrow> addr list) \<Rightarrow> bool" where
  "chain_table c chs \<longleftrightarrow> length (hash_table c) = HASH_TABLE_SIZE
     \<and> (\<forall>i < HASH_TABLE_SIZE. lseg (heap c) hnext (hash_table c ! i) (chs i) None
          \<and> (\<forall>a \<in> set (chs i). \<forall>n. heap c a = Some n \<longrightarrow> cache_hash (url n) = i))"

lemma chains_lseg:
  "chain_table c chs \<Longrightarrow> i < HASH_TABLE_SIZE \<Longrightarrow> lseg (heap c) hnext (hash_table c ! i) (chs i) None"
  by (simp add: chain_table_def)

lemma chains_hash:
  "chain_table c chs \<Longrightarrow> i < HASH_TABLE_SIZE \<Longrightarrow> a \<in> set (chs i) \<Longrightarrow> heap c a = Some n \<Longrightarrow>
    cache_hash (url n) = i"
  by (simp add: chain_table_def)

lemma chains_table: "chain_table c chs \<Longrightarrow> length (hash_table c) = HASH_TABLE_SIZE"
  by (simp add: chain_table_def)

lemma chains_allocated:
  "chain_table c chs \<Longrightarrow> i < HASH_TABLE_SIZE \<Longrightarrow> a \<in> set (chs i) \<Longrightarrow> \<exists>n. heap c a = Some n"
  by (blast dest: chains_lseg lseg_allocated)

lemma same_node:
  "\<forall>a. map_option k (h' a) = map_option k (h a) \<Longrightarrow> h' a = Some n' \<Longrightarrow>
    \<exists>n. h a = Some n \<and> k n' = k n"
  by (drule spec [of _ a]) (cases "h a"; simp)

lemma same_chains_node:
  "same_chains c c' \<Longrightarrow> heap c' a = Some n' \<Longrightarrow> \<exists>n. heap c a = Some n \<and> no_lru n' = no_lru n"
  unfolding same_chains_def by (blast dest: same_node)

lemma same_lru_node:
  "same_lru c c' \<Longrightarrow> heap c' a = Some n' \<Longrightarrow> \<exists>n. heap c a = Some n \<and> no_chain n' = no_chain n"
  unfolding same_lru_def by (blast dest: same_node)

lemma chains_same:
  assumes s: "same_chains c c'" and ch: "chain_table c chs"
  shows "chain_table c' chs"
proof -
  have "lseg (heap c') hnext (hash_table c' ! i) (chs i) None" if "i < HASH_TABLE_SIZE" for i
    using lseg_cong_heap [where k = no_lru, OF _ no_lru_fields(6) chains_lseg [OF ch that]] s
    by (simp add: same_chains_def)
  moreover have "cache_hash (url n) = i"
    if "i < HASH_TABLE_SIZE" "a \<in> set (chs i)" "heap c' a = Some n" for i a n
    using same_chains_node [OF s that(3)] chains_hash [OF ch that(1,2)] no_lru_fields(1) by metis
  ultimately show ?thesis using s chains_table [OF ch] by (simp add: chain_table_def same_chains_def)
qed

lemma chains_distinct: "chain_table c chs \<Longrightarrow> i < HASH_TABLE_SIZE \<Longrightarrow> distinct (chs i)"
  by (blast dest: chains_lseg lseg_distinct)

text \<open>Two chains share no node: a node's chain is given by its URL.\<close>

lemma chains_disjoint:
  "chain_table c chs \<Longrightarrow> i < HASH_TABLE_SIZE \<Longrightarrow> j < HASH_TABLE_SIZE \<Longrightarrow> a \<in> set (chs i) \<Longrightarrow>
    a \<in> set (chs j) \<Longrightarrow> i = j"
  by (metis chains_allocated chains_hash)

lemma chain_cut_ok:
  assumes ch: "chain_table c chs" and i: "i < HASH_TABLE_SIZE" and split: "chs i = ps @ v # qs"
  shows "\<exists>c'. chain_cut c i (if ps = [] then None else Some (last ps)) (Some v) = Some c'
     \<and> chain_table c' (chs(i := ps @ qs)) \<and> same_lru c c' \<and> heap c' v = heap c v"
proof (cases ps rule: rev_cases)
  case Nil
  with chains_lseg [OF ch i] split obtain n where n: "heap c v = Some n"
      "lseg (heap c) hnext (hnext n) qs None" by auto
  have "chain_table (c\<lparr>hash_table := (hash_table c)[i := hnext n]\<rparr>) (chs(i := ps @ qs))"
    using ch i split Nil n by (auto simp: chain_table_def nth_list_update)
  with n Nil i chains_table [OF ch] show ?thesis
    by (auto simp: chain_cut_def mem_simps same_lru_def)
next
  case (snoc ps' b)
  have dist: "distinct (chs i)" using ch i by (rule chains_distinct)
  have other: "b \<notin> set (chs j)" if "j < HASH_TABLE_SIZE" "j \<noteq> i" for j
    using chains_disjoint [OF ch i that(1), of b] that split snoc by auto
  from chains_lseg [OF ch i] split snoc obtain n m
    where n: "heap c v = Some n" and m: "heap c b = Some m" by auto
  have hash: "\<forall>a \<in> set ps \<union> set qs. \<forall>n. heap c a = Some n \<longrightarrow> cache_hash (url n) = i"
    using split by (auto intro: chains_hash [OF ch i])
  have "chain_table (c\<lparr>heap := (heap c)(b \<mapsto> m\<lparr>hnext := hnext n\<rparr>)\<rparr>) (chs(i := ps @ qs))"
    using ch i split snoc dist other n m hash unfolding chain_table_def by auto
  with n m snoc dist split show ?thesis
    by (auto simp: chain_cut_def mem_simps same_lru_def)
qed

text \<open>The loop of \<open>cache_remove_lru\<close> reaches the victim and cuts it out there.\<close>

lemma unlink_chain_walk:
  "lseg (heap c) hnext cur (ps @ v # qs) None \<Longrightarrow> v \<notin> set ps \<Longrightarrow>
    unlink_chain c i (Some v) prev cur
      = chain_cut c i (if ps = [] then prev else Some (last ps)) (Some v)"
proof (induction ps arbitrary: prev cur)
  case Nil
  then show ?case by (subst unlink_chain.simps) auto
next
  case (Cons p ps)
  then show ?case by (subst unlink_chain.simps) auto
qed

lemma chains_free:
  assumes "chain_table c chs" and "\<forall>i < HASH_TABLE_SIZE. v \<notin> set (chs i)" and "heap c v = Some n"
  shows "\<exists>c'. free_node (Some v) c = Some c' \<and> chain_table c' chs \<and> c' = c\<lparr>heap := (heap c)(v := None)\<rparr>"
  using assms by (auto simp: chain_table_def mem_simps)

lemma dll_free: "dll c xs \<Longrightarrow> v \<notin> set xs \<Longrightarrow> dll (c\<lparr>heap := (heap c)(v := None)\<rparr>) xs"
  by (simp add: dll_def)

text \<open>The count is read by neither structure.\<close>

lemma dll_size [simp]: "dll (c\<lparr>current_size := k\<rparr>) xs = dll c xs"
  by (simp add: dll_def)

lemma chain_table_size [simp]: "chain_table (c\<lparr>current_size := k\<rparr>) chs = chain_table c chs"
  by (simp add: chain_table_def)

text \<open>A new node at the front of its chain.\<close>

lemma chain_push:
  assumes ch: "chain_table c chs" and a: "heap c a = None" and i: "cache_hash (url n) = i" "i < HASH_TABLE_SIZE"
    and "next": "hnext n = hash_table c ! i"
  shows "chain_table (c\<lparr>heap := (heap c)(a \<mapsto> n), hash_table := (hash_table c)[i := Some a]\<rparr>)
    (chs(i := a # chs i))" (is "chain_table ?c ?chs")
proof -
  have notin: "a \<notin> set (chs k)" if "k < HASH_TABLE_SIZE" for k
    using chains_allocated [OF ch that, of a] a by auto
  have "lseg (heap ?c) hnext (hash_table ?c ! k) (?chs k) None" if k: "k < HASH_TABLE_SIZE" for k
    using chains_lseg [OF ch k] notin [OF k] "next" chains_table [OF ch] k
    by (cases "k = i") simp_all
  moreover have "cache_hash (url m) = k"
    if k: "k < HASH_TABLE_SIZE" and b: "b \<in> set (?chs k)" "heap ?c b = Some m" for k b m
    using chains_hash [OF ch k, of b m] b notin [OF k] i
    by (cases "b = a"; cases "k = i") simp_all
  ultimately show ?thesis using chains_table [OF ch] by (simp add: chain_table_def)
qed

end
