(* ===== verification/Cache_Spec.thy ===== *)
theory Cache_Spec
  imports Cache
begin

section \<open>What the cache promises\<close>

text \<open>
  The contract of the cache, without its pointers: a list of entries, most recently used
  first. A lookup takes the first entry with the URL; if that has not expired, it moves to the
  front and is returned, otherwise the lookup is a miss and nothing changes. An insertion goes
  in front, after the last entry has made room when the cache is full.
\<close>

record cache_entry =
  e_url :: string
  e_data :: string
  e_time :: int
  e_hits :: "32 word"

definition fresh :: "int \<Rightarrow> cache_entry \<Rightarrow> bool" where
  "fresh now e \<longleftrightarrow> now - e_time e < CACHE_EXPIRY_TIME"

definition touch :: "cache_entry \<Rightarrow> cache_entry" where
  "touch e = e\<lparr>e_hits := e_hits e + 1\<rparr>"

fun without_first :: "('a \<Rightarrow> bool) \<Rightarrow> 'a list \<Rightarrow> 'a list" where
  "without_first P [] = []"
| "without_first P (x # xs) = (if P x then xs else x # without_first P xs)"

definition spec_find :: "string \<Rightarrow> cache_entry list \<Rightarrow> cache_entry option" where
  "spec_find u es = find (\<lambda>e. e_url e = u) es"

definition spec_get :: "int \<Rightarrow> string \<Rightarrow> cache_entry list \<Rightarrow> cache_entry option \<times> cache_entry list" where
  "spec_get now u es =
     (case spec_find u es of
        None \<Rightarrow> (None, es)
      | Some e \<Rightarrow>
          if fresh now e
          then (Some (touch e), touch e # without_first (\<lambda>e. e_url e = u) es)
          else (None, es))"

definition spec_evict :: "int \<Rightarrow> cache_entry list \<Rightarrow> cache_entry list" where
  "spec_evict cap es = (if cap \<le> int (length es) then butlast es else es)"

definition spec_add :: "int \<Rightarrow> int \<Rightarrow> string \<Rightarrow> string \<Rightarrow> cache_entry list \<Rightarrow> cache_entry list" where
  "spec_add cap now u d es =
     \<lparr>e_url = u, e_data = d, e_time = now, e_hits = 1\<rparr> # spec_evict cap es"

definition spec_expire :: "int \<Rightarrow> cache_entry list \<Rightarrow> cache_entry list" where
  "spec_expire now es = filter (fresh now) es"

subsection \<open>Facts on the contract\<close>

lemma without_first_append:
  "\<forall>y \<in> set ys. \<not> P y \<Longrightarrow> P x \<Longrightarrow> without_first P (ys @ x # zs) = ys @ zs"
  by (induction ys) auto

lemma length_without_first:
  "find P xs = Some x \<Longrightarrow> Suc (length (without_first P xs)) = length xs"
  by (induction xs) (auto split: if_splits)

lemma without_first_mid:
  "\<not> P e \<Longrightarrow> \<exists>zs'. without_first P (ys @ e # zs) = without_first P ys @ e # zs'"
  by (induction ys) auto

lemma set_without_first: "set (without_first P xs) \<subseteq> set xs"
  by (induction xs) auto

lemma length_without_first_le: "length (without_first P xs) \<le> length xs"
  by (induction xs) auto

lemma find_append_first:
  "\<forall>y \<in> set ys. \<not> P y \<Longrightarrow> P x \<Longrightarrow> find P (ys @ x # zs) = Some x"
  by (induction ys) auto

lemma find_without_first_other:
  "(\<And>x. P x \<Longrightarrow> \<not> Q x) \<Longrightarrow> find Q (without_first P xs) = find Q xs"
  by (induction xs) auto

lemma find_without_url [simp]:
  "u \<noteq> v \<Longrightarrow>
    find (\<lambda>e. e_url e = v) (without_first (\<lambda>e. e_url e = u) es) = find (\<lambda>e. e_url e = v) es"
  by (rule find_without_first_other) auto

lemma touch_sel [simp]:
  "e_url (touch e) = e_url e" "e_data (touch e) = e_data e" "e_time (touch e) = e_time e"
  by (simp_all add: touch_def)

lemma fresh_touch [simp]: "fresh now (touch e) = fresh now e"
  by (simp add: fresh_def)

lemma spec_find_url: "spec_find u es = Some e \<Longrightarrow> e_url e = u \<and> e \<in> set es"
  by (auto simp: spec_find_def find_Some_iff)

lemma spec_get_length: "length (snd (spec_get now u es)) = length es"
  by (auto simp: spec_get_def spec_find_def length_without_first split: option.splits)

lemma spec_add_length: "0 < cap \<Longrightarrow> int (length es) \<le> cap \<Longrightarrow> int (length (spec_add cap now u d es)) \<le> cap"
  by (auto simp: spec_add_def spec_evict_def)

text \<open>A lookup never changes what another lookup finds; it keeps the URL's data and time.\<close>

lemma spec_find_get_other: "u \<noteq> v \<Longrightarrow> spec_find v (snd (spec_get now u es)) = spec_find v es"
  by (auto simp: spec_get_def spec_find_def
      dest: spec_find_url [unfolded spec_find_def] split: option.splits)

lemma spec_find_get_same:
  "spec_find u (snd (spec_get now u es))
    = (if fst (spec_get now u es) = None then spec_find u es else fst (spec_get now u es))"
  by (auto simp: spec_get_def spec_find_def
      dest: spec_find_url [unfolded spec_find_def] split: option.splits)

lemma spec_find_add_same:
  "spec_find u (spec_add cap now u d es) = Some \<lparr>e_url = u, e_data = d, e_time = now, e_hits = 1\<rparr>"
  by (simp add: spec_find_def spec_add_def)

lemma spec_get_add_same:
  "now' - now < CACHE_EXPIRY_TIME \<Longrightarrow>
    \<exists>e. fst (spec_get now' u (spec_add cap now u d es)) = Some e \<and> e_data e = d"
  by (simp add: spec_get_def spec_find_add_same fresh_def)

end
