(* ===== verification/Cache_Refinement.thy ===== *)
theory Cache_Refinement
  imports Cache_Lists Cache_Spec
begin

section \<open>The cache implements its contract\<close>

text \<open>
  \<open>cache_repr c xs chs\<close> is the representation invariant: the nodes of the heap are those of
  the recency list \<open>xs\<close>; the chain of the slot \<open>i\<close> is \<open>chs i\<close>; and for every URL the nodes
  with it stand in its chain in the order in which they stand in the recency list. The last
  part is what makes a lookup, which takes the first match of the chain, find the most
  recently used one. \<open>cache_abs\<close> reads the entries off a cache.
\<close>

definition no_ptrs :: "cache_node \<Rightarrow> cache_node" where
  "no_ptrs n = n\<lparr>hnext := None, lru_prev := None, lru_next := None\<rparr>"

definition entry_of :: "cache_node \<Rightarrow> cache_entry" where
  "entry_of n = \<lparr>e_url = url n, e_data = data n, e_time = timestamp n, e_hits = access_count n\<rparr>"

definition has_url :: "cache_node heap \<Rightarrow> string \<Rightarrow> addr \<Rightarrow> bool" where
  "has_url h u a \<longleftrightarrow> map_option url (h a) = Some u"

definition node_ok :: "cache_node \<Rightarrow> bool" where
  "node_ok n \<longleftrightarrow> data_size n = int (length (data n)) \<and> 0 < data_size n"

definition nodes_ok :: "optimized_cache \<Rightarrow> bool" where
  "nodes_ok c \<longleftrightarrow> (\<forall>a n. heap c a = Some n \<longrightarrow> node_ok n)"

definition cache_repr :: "optimized_cache \<Rightarrow> addr list \<Rightarrow> (nat \<Rightarrow> addr list) \<Rightarrow> bool" where
  "cache_repr c xs chs \<longleftrightarrow> dll c xs \<and> chain_table c chs \<and> dom (heap c) = set xs
     \<and> (\<forall>u. filter (has_url (heap c) u) (chs (cache_hash u)) = filter (has_url (heap c) u) xs)
     \<and> current_size c = int (length xs) \<and> current_size c \<le> max_size c \<and> 0 < max_size c
     \<and> nodes_ok c"

definition cache_inv :: "optimized_cache \<Rightarrow> bool" where
  "cache_inv c \<longleftrightarrow> (\<exists>xs chs. cache_repr c xs chs)"

definition cache_addrs :: "optimized_cache \<Rightarrow> addr list" where
  "cache_addrs c = walk (nat (current_size c)) (heap c) lru_next (lru_head c)"

definition entry_at :: "optimized_cache \<Rightarrow> addr \<Rightarrow> cache_entry" where
  "entry_at c a = entry_of (the (heap c a))"

definition cache_abs :: "optimized_cache \<Rightarrow> cache_entry list" where
  "cache_abs c = map (entry_at c) (cache_addrs c)"

lemma cache_invI: "cache_repr c xs chs \<Longrightarrow> cache_inv c"
  by (auto simp: cache_inv_def)

lemma cache_addrs_repr: "cache_repr c xs chs \<Longrightarrow> cache_addrs c = xs"
  by (auto simp: cache_repr_def cache_addrs_def dll_def intro: walk_lseg)

lemma cache_abs_repr: "cache_repr c xs chs \<Longrightarrow> cache_abs c = map (entry_at c) xs"
  by (simp add: cache_abs_def cache_addrs_repr)

text \<open>
  The addresses in recency order determine the chains' reading too, so the invariant can
  be opened at \<open>cache_addrs\<close>.
\<close>

lemma cache_inv_repr: "cache_inv c \<Longrightarrow> \<exists>chs. cache_repr c (cache_addrs c) chs"
  by (auto simp: cache_inv_def cache_addrs_repr)

lemma cache_hash_bound: "cache_hash u < HASH_TABLE_SIZE"
proof -
  have "unat (cache_hash_loop 5381 u mod 1024) < unat (1024 :: 32 word)"
    by (subst unat_mod) simp
  then show ?thesis by (simp add: cache_hash_def HASH_TABLE_SIZE_def)
qed

subsection \<open>What the pointer steps leave alone\<close>

lemma no_ptrs_sel [simp]:
  "url (no_ptrs n) = url n" "data (no_ptrs n) = data n" "data_size (no_ptrs n) = data_size n"
  "timestamp (no_ptrs n) = timestamp n" "access_count (no_ptrs n) = access_count n"
  by (simp_all add: no_ptrs_def)

lemma no_ptrs_no_lru: "no_ptrs n = no_chain (no_lru n)"
  by (simp add: no_ptrs_def no_chain_def no_lru_def)

lemma no_ptrs_no_chain: "no_ptrs n = no_lru (no_chain n)"
  by (simp add: no_ptrs_def no_chain_def no_lru_def)

definition same_but :: "addr set \<Rightarrow> optimized_cache \<Rightarrow> optimized_cache \<Rightarrow> bool" where
  "same_but A c c' \<longleftrightarrow>
     (\<forall>a. a \<notin> A \<longrightarrow> map_option no_ptrs (heap c' a) = map_option no_ptrs (heap c a))"

lemma map_option_compose_eq:
  "map_option f x = map_option f y \<Longrightarrow> map_option (\<lambda>z. g (f z)) x = map_option (\<lambda>z. g (f z)) y"
  by (cases x; cases y) auto

lemma same_but_chains: "same_chains c c' \<Longrightarrow> same_but A c c'"
  unfolding same_but_def same_chains_def no_ptrs_no_lru by (blast intro: map_option_compose_eq)

lemma same_but_lru: "same_lru c c' \<Longrightarrow> same_but A c c'"
  unfolding same_but_def same_lru_def no_ptrs_no_chain by (blast intro: map_option_compose_eq)

lemma same_but_trans: "same_but A c d \<Longrightarrow> same_but A d e \<Longrightarrow> same_but A c e"
  by (simp add: same_but_def)

lemma same_but_mono: "same_but A c d \<Longrightarrow> A \<subseteq> B \<Longrightarrow> same_but B c d"
  by (auto simp: same_but_def)

lemma same_but_node:
  "same_but A c c' \<Longrightarrow> a \<notin> A \<Longrightarrow> heap c' a = Some n' \<Longrightarrow> \<exists>n. heap c a = Some n \<and> no_ptrs n' = no_ptrs n"
  unfolding same_but_def by (drule spec [of _ a]) (cases "heap c a"; simp)

lemma same_but_dom: "same_but A c c' \<Longrightarrow> a \<notin> A \<Longrightarrow> heap c' a = None \<longleftrightarrow> heap c a = None"
  unfolding same_but_def by (metis map_option_is_None)

lemma same_but_url:
  "same_but A c c' \<Longrightarrow> a \<notin> A \<Longrightarrow> has_url (heap c') u a = has_url (heap c) u a"
  unfolding same_but_def has_url_def
  by (drule spec [of _ a]) (cases "heap c a"; cases "heap c' a"; auto dest: arg_cong [where f = url])

lemma same_but_entry:
  "same_but A c c' \<Longrightarrow> a \<notin> A \<Longrightarrow> heap c a = Some n \<Longrightarrow> entry_at c' a = entry_at c a"
  unfolding same_but_def entry_at_def entry_of_def
  by (drule spec [of _ a], cases "heap c' a")
     (auto dest: arg_cong [where f = url] arg_cong [where f = data] arg_cong [where f = timestamp]
        arg_cong [where f = access_count])

lemma node_ok_no_ptrs [simp]: "node_ok (no_ptrs n) = node_ok n"
  by (simp add: node_ok_def)

lemma node_ok_hnext [simp]: "node_ok (n\<lparr>hnext := p\<rparr>) = node_ok n"
  by (simp add: node_ok_def)

lemma same_but_nodes_ok:
  "same_but A c c' \<Longrightarrow> nodes_ok c \<Longrightarrow> (\<And>a n. a \<in> A \<Longrightarrow> heap c' a = Some n \<Longrightarrow> node_ok n) \<Longrightarrow> nodes_ok c'"
  unfolding nodes_ok_def by (metis same_but_node node_ok_no_ptrs)

subsection \<open>Chains and recency list agree\<close>

lemma has_url_Some: "h a = Some n \<Longrightarrow> has_url h u a \<longleftrightarrow> url n = u"
  by (simp add: has_url_def)

lemma has_url_unique: "has_url h u a \<Longrightarrow> has_url h u' a \<Longrightarrow> u = u'"
  by (auto simp: has_url_def)

lemma repr_dll: "cache_repr c xs chs \<Longrightarrow> dll c xs"
  by (simp add: cache_repr_def)

lemma repr_chains: "cache_repr c xs chs \<Longrightarrow> chain_table c chs"
  by (simp add: cache_repr_def)

lemma repr_order:
  "cache_repr c xs chs \<Longrightarrow>
    filter (has_url (heap c) u) (chs (cache_hash u)) = filter (has_url (heap c) u) xs"
  by (simp add: cache_repr_def)

lemma repr_distinct: "cache_repr c xs chs \<Longrightarrow> distinct xs"
  unfolding cache_repr_def by (blast dest: dll_distinct)

lemma repr_node: "cache_repr c xs chs \<Longrightarrow> a \<in> set xs \<Longrightarrow> \<exists>n. heap c a = Some n"
  by (auto simp: cache_repr_def)

text \<open>Every node of the recency list is in the chain of its URL, and only there.\<close>

lemma repr_in_chain:
  assumes r: "cache_repr c xs chs" and a: "a \<in> set xs" and n: "heap c a = Some n"
  shows "a \<in> set (chs (cache_hash (url n)))"
proof -
  have "a \<in> set (filter (has_url (heap c) (url n)) xs)" using a n by (simp add: has_url_def)
  then show ?thesis unfolding repr_order [OF r, symmetric] by simp
qed

lemma repr_chain_subset:
  "cache_repr c xs chs \<Longrightarrow> i < HASH_TABLE_SIZE \<Longrightarrow> set (chs i) \<subseteq> set xs"
  by (auto simp: cache_repr_def dest: chains_allocated)

text \<open>
  Taking a node out of the recency list, out of its chain and out of the heap keeps the
  representation.
\<close>

lemma repr_remove:
  assumes r: "cache_repr c (ys @ v # zs) chs"
    and i: "i < HASH_TABLE_SIZE" and split: "chs i = ps @ v # qs"
    and d: "dll c' (ys @ zs)" and ch: "chain_table c' (chs(i := ps @ qs))"
    and same: "same_but {v} c c'" and gone: "heap c' v = None"
    and size: "current_size c' = current_size c - 1" and cap: "max_size c' = max_size c"
  shows "cache_repr c' (ys @ zs) (chs(i := ps @ qs))"
proof -
  have dist: "distinct (ys @ v # zs)" using r by (rule repr_distinct)
  have dom: "dom (heap c') = set (ys @ zs)"
  proof -
    have "a \<in> dom (heap c') \<longleftrightarrow> a \<noteq> v \<and> a \<in> dom (heap c)" for a
      using same_but_dom [OF same, of a] gone by (cases "a = v") auto
    then show ?thesis using r dist by (auto simp: cache_repr_def)
  qed
  have chain: "filter P ((chs(i := ps @ qs)) k) = filter (\<lambda>x. x \<noteq> v) (filter P (chs k))"
    if "k < HASH_TABLE_SIZE" for k P
  proof (cases "k = i")
    case True
    have "distinct (ps @ v # qs)" using chains_distinct [OF repr_chains [OF r] i] split by simp
    with True split show ?thesis by (simp only: fun_upd_same filter_remove_distinct)
  next
    case False
    with chains_disjoint [OF repr_chains [OF r] i that, of v] split have "v \<notin> set (chs k)" by auto
    then have "v \<notin> set (filter P (chs k))" by simp
    then have "filter (\<lambda>x. x \<noteq> v) (filter P (chs k)) = filter P (chs k)" by (rule filter_neq_id)
    with False show ?thesis by simp
  qed
  have cong: "filter (has_url (heap c') u) ws = filter (has_url (heap c) u) ws" if "v \<notin> set ws" for u ws
    using that by (intro filter_cong refl same_but_url [OF same]) auto
  have notin: "v \<notin> set ((chs(i := ps @ qs)) k)" if "k < HASH_TABLE_SIZE" for k
    using chain [OF that, of "\<lambda>_. True"] by simp
  have order: "filter (has_url (heap c') u) ((chs(i := ps @ qs)) (cache_hash u))
      = filter (has_url (heap c') u) (ys @ zs)" (is "filter ?P' ?as = _") for u
  proof -
    let ?P = "has_url (heap c) u"
    have "filter ?P' ?as = filter ?P ?as" by (rule cong [OF notin [OF cache_hash_bound]])
    also have "\<dots> = filter (\<lambda>x. x \<noteq> v) (filter ?P (ys @ v # zs))"
      unfolding chain [OF cache_hash_bound] repr_order [OF r] ..
    also have "\<dots> = filter ?P (ys @ zs)" by (rule filter_remove_distinct [OF dist, symmetric])
    also have "\<dots> = filter ?P' (ys @ zs)" using dist by (intro cong [symmetric]) simp
    finally show ?thesis .
  qed
  have "nodes_ok c'"
    using same r gone by (intro same_but_nodes_ok [OF same]) (auto simp: cache_repr_def)
  with r d ch dom order size cap show ?thesis unfolding cache_repr_def by auto
qed

lemma abs_remove:
  assumes r: "cache_repr c (ys @ v # zs) chs" and r': "cache_repr c' (ys @ zs) chs'"
    and same: "same_but {v} c c'"
  shows "cache_abs c' = map (entry_at c) ys @ map (entry_at c) zs"
proof -
  have "entry_at c' a = entry_at c a" if "a \<in> set (ys @ zs)" for a
    using that repr_distinct [OF r] repr_node [OF r, of a] same_but_entry [OF same, of a] by auto
  then show ?thesis using cache_abs_repr [OF r'] by auto
qed

subsection \<open>Removal: expiry and eviction\<close>

text \<open>
  The end both removals share: a cache whose recency list and whose chain no longer hold
  \<open>v\<close> frees it and counts one entry less.
\<close>

definition drop_node :: "ptr \<Rightarrow> optimized_cache \<Rightarrow> optimized_cache option" where
  "drop_node v c = do { c \<leftarrow> free_node v c; Some (c\<lparr>current_size := current_size c - 1\<rparr>) }"

lemma same_chains_sizes:
  "same_chains c c' \<Longrightarrow> current_size c' = current_size c \<and> max_size c' = max_size c"
  by (simp add: same_chains_def)

lemma same_lru_sizes:
  "same_lru c c' \<Longrightarrow> current_size c' = current_size c \<and> max_size c' = max_size c"
  by (simp add: same_lru_def)

lemmas same_sizes = same_chains_sizes same_lru_sizes

lemma repr_dist_chain:
  assumes r: "cache_repr c xs chs" and i: "i < HASH_TABLE_SIZE" and "chs i = ps @ v # qs"
    and j: "j < HASH_TABLE_SIZE"
  shows "v \<notin> set ((chs(i := ps @ qs)) j)"
  using chains_distinct [OF repr_chains [OF r] i] chains_disjoint [OF repr_chains [OF r] i j, of v] assms
  by auto

lemma drop_node_ok:
  assumes r: "cache_repr c (ys @ v # zs) chs" and i: "i < HASH_TABLE_SIZE" and split: "chs i = ps @ v # qs"
    and d: "dll c2 (ys @ zs)" and ch: "chain_table c2 (chs(i := ps @ qs))"
    and same: "same_but {v} c c2" and v: "heap c2 v \<noteq> None"
    and size: "current_size c2 = current_size c" and cap: "max_size c2 = max_size c"
  shows "\<exists>c'. drop_node (Some v) c2 = Some c' \<and> cache_repr c' (ys @ zs) (chs(i := ps @ qs))
     \<and> same_but {v} c c' \<and> max_size c' = max_size c"
proof -
  from v obtain n where n: "heap c2 v = Some n" by auto
  let ?c3 = "c2\<lparr>heap := (heap c2)(v := None)\<rparr>"
  let ?c4 = "?c3\<lparr>current_size := current_size c - 1\<rparr>"
  have "dll ?c3 (ys @ zs)" using repr_distinct [OF r] by (intro dll_free [OF d]) simp
  moreover have "chain_table ?c3 (chs(i := ps @ qs))"
    using chains_free [OF ch _ n] repr_dist_chain [OF r i split] by (auto simp: mem_simps n)
  ultimately have "dll ?c4 (ys @ zs)" "chain_table ?c4 (chs(i := ps @ qs))"
    by (simp_all add: dll_def chain_table_def)
  moreover have "same_but {v} c ?c4" using same by (simp add: same_but_def)
  ultimately have "cache_repr ?c4 (ys @ zs) (chs(i := ps @ qs))"
    by (intro repr_remove [OF r i split]) (simp_all add: cap)
  with \<open>same_but {v} c ?c4\<close> n size cap show ?thesis by (auto simp: drop_node_def mem_simps)
qed

lemma expire_node_ok:
  assumes r: "cache_repr c (ys @ v # zs) chs" and i: "i < HASH_TABLE_SIZE" and split: "chs i = ps @ v # qs"
  shows "\<exists>c'. expire_node c i (if ps = [] then None else Some (last ps)) (Some v) = Some c'
     \<and> cache_repr c' (ys @ zs) (chs(i := ps @ qs)) \<and> same_but {v} c c' \<and> max_size c' = max_size c"
proof -
  from chain_cut_ok [OF repr_chains [OF r] i split] obtain c1 where c1:
      "chain_cut c i (if ps = [] then None else Some (last ps)) (Some v) = Some c1"
      "chain_table c1 (chs(i := ps @ qs))" "same_lru c c1" "heap c1 v = heap c v" by blast
  from lru_unlink_ok [OF dll_same_lru [OF c1(3) repr_dll [OF r]]] obtain c2 where c2:
      "lru_unlink c1 (Some v) = Some c2" "dll c2 (ys @ zs)" "same_chains c1 c2" "heap c2 v = heap c1 v"
    by blast
  have "heap c2 v \<noteq> None" using c2(4) c1(4) repr_node [OF r, of v] by auto
  moreover have "same_but {v} c c2"
    using same_but_trans [OF same_but_lru [OF c1(3)] same_but_chains [OF c2(3)]] .
  ultimately obtain c' where c': "drop_node (Some v) c2 = Some c'" "cache_repr c' (ys @ zs) (chs(i := ps @ qs))"
      "same_but {v} c c'" "max_size c' = max_size c"
    using drop_node_ok [OF r i split c2(2) chains_same [OF c2(3) c1(2)]]
      same_sizes(1) [OF c2(3)] same_sizes(2) [OF c1(3)] by auto
  have "expire_node c i prev (Some v)
      = do { c \<leftarrow> chain_cut c i prev (Some v); c \<leftarrow> lru_unlink c (Some v); drop_node (Some v) c }" for prev
    by (simp add: expire_node_def lru_unlink_def drop_node_def)
  with c1(1) c2(1) c' show ?thesis by auto
qed

lemma cache_remove_lru_unlink:
  assumes d: "dll c (ys @ [v])" and n: "heap c v = Some n"
  shows "cache_remove_lru c = do {
      c \<leftarrow> lru_unlink c (Some v);
      first \<leftarrow> array_read (hash_table c) (cache_hash (url n));
      c \<leftarrow> unlink_chain c (cache_hash (url n)) (Some v) None first;
      drop_node (Some v) c }"
proof (cases ys rule: rev_cases)
  case Nil
  with dll_node [of c ys v "[]"] dll_tail [OF d] d n show ?thesis
    by (simp add: cache_remove_lru_def lru_unlink_def drop_node_def Let_def)
next
  case (snoc ys' y)
  with dll_node [of c ys v "[]"] d n have "lru_prev n = Some y" "lru_next n = None" by auto
  moreover from dll_node [of c ys' y "[v]"] d snoc obtain m where "heap c y = Some m" by auto
  moreover have "y \<noteq> v" using dll_distinct [OF d] snoc by auto
  ultimately show ?thesis using dll_tail [OF d] n
    by (simp add: cache_remove_lru_def lru_unlink_def drop_node_def Let_def mem_simps)
qed

lemma cache_remove_lru_ok:
  assumes r: "cache_repr c (ys @ [v]) chs"
  shows "\<exists>c' chs'. cache_remove_lru c = Some c' \<and> cache_repr c' ys chs'
     \<and> same_but {v} c c' \<and> max_size c' = max_size c"
proof -
  note d = repr_dll [OF r]
  from dll_node [of c ys v "[]"] d obtain n where n: "heap c v = Some n"
      "lru_prev n = (if ys = [] then None else Some (last ys))" "lru_next n = None" by auto
  let ?i = "cache_hash (url n)"
  from repr_in_chain [OF r _ n(1)] obtain ps qs where split: "chs ?i = ps @ v # qs"
    by (auto dest: split_list)
  from lru_unlink_ok [of c ys v "[]"] d obtain c1 where c1:
      "lru_unlink c (Some v) = Some c1" "dll c1 ys" "same_chains c c1" "heap c1 v = heap c v" by auto
  have ch1: "chain_table c1 chs" by (rule chains_same [OF c1(3) repr_chains [OF r]])
  have vps: "v \<notin> set ps"
    using chains_distinct [OF repr_chains [OF r] cache_hash_bound, of "url n"] split by simp
  from chain_cut_ok [OF ch1 cache_hash_bound split] obtain c2 where c2:
      "chain_cut c1 ?i (if ps = [] then None else Some (last ps)) (Some v) = Some c2"
      "chain_table c2 (chs(?i := ps @ qs))" "same_lru c1 c2" "heap c2 v = heap c1 v" by blast
  have walk: "unlink_chain c1 ?i (Some v) None (hash_table c1 ! ?i) = Some c2"
    using unlink_chain_walk [OF _ vps] chains_lseg [OF ch1 cache_hash_bound, of "url n"] split c2(1)
    by (metis)
  have "same_but {v} c c2"
    using same_but_trans [OF same_but_chains [OF c1(3)] same_but_lru [OF c2(3)]] .
  moreover have "dll c2 (ys @ [])" using dll_same_lru [OF c2(3) c1(2)] by simp
  ultimately obtain c' where c': "drop_node (Some v) c2 = Some c'"
      "cache_repr c' (ys @ []) (chs(?i := ps @ qs))" "same_but {v} c c'" "max_size c' = max_size c"
    using drop_node_ok [OF r cache_hash_bound split _ c2(2)] c2(4) c1(4) n
      same_sizes(1) [OF c1(3)] same_sizes(2) [OF c2(3)] by auto
  note cache_remove_lru_unlink [OF d n(1)]
  with c1(1) walk c' chains_table [OF ch1] cache_hash_bound show ?thesis by auto
qed

subsection \<open>Lookup\<close>

lemma cache_search_ok:
  "lseg h hnext p as None \<Longrightarrow>
    cache_search h now u p = Some (case filter (has_url h u) as of [] \<Rightarrow> None
      | a # _ \<Rightarrow> if now - timestamp (the (h a)) < CACHE_EXPIRY_TIME then Some a else None)"
proof (induction as arbitrary: p)
  case Nil
  then show ?case by (subst cache_search.simps) simp
next
  case (Cons a as)
  then show ?case by (subst cache_search.simps) (auto simp: has_url_Some)
qed

lemma entry_fresh: "fresh now (entry_at c a) \<longleftrightarrow> now - timestamp (the (heap c a)) < CACHE_EXPIRY_TIME"
  by (simp add: fresh_def entry_at_def entry_of_def)

lemma entry_url: "a \<in> dom (heap c) \<Longrightarrow> e_url (entry_at c a) = u \<longleftrightarrow> has_url (heap c) u a"
  by (auto simp: entry_at_def entry_of_def has_url_def)

text \<open>A step that keeps the payloads and reorders the recency list keeps the representation.\<close>

lemma repr_reorder:
  assumes r: "cache_repr c (ys @ v # zs) chs" and d: "dll c' (v # ys @ zs)" and ch: "same_chains c c'"
    and first: "\<And>u. has_url (heap c) u v \<Longrightarrow> \<forall>y \<in> set ys. \<not> has_url (heap c) u y"
  shows "cache_repr c' (v # ys @ zs) chs"
proof -
  note same = same_but_chains [OF ch, of "{}"]
  have url: "has_url (heap c') = has_url (heap c)"
    using same_but_url [OF same] by (intro ext) simp
  have "dom (heap c') = dom (heap c)" using same_but_dom [OF same] by (auto simp: dom_def)
  moreover have "filter (has_url (heap c) u) (v # ys @ zs) = filter (has_url (heap c) u) (ys @ v # zs)" for u
    using first [of u] by (auto simp: filter_empty_conv)
  moreover have "nodes_ok c'" using same_but_nodes_ok [OF same] r by (auto simp: cache_repr_def)
  ultimately show ?thesis
    using r d chains_same [OF ch repr_chains [OF r]] same_sizes(1) [OF ch]
    unfolding cache_repr_def url by auto
qed

text \<open>Counting an access changes one field that no list and no lookup reads.\<close>

definition count_access :: "cache_node \<Rightarrow> cache_node" where
  "count_access m = m\<lparr>access_count := access_count m + 1\<rparr>"

lemma count_access_sel [simp]:
  "url (count_access m) = url m" "data (count_access m) = data m" "data_size (count_access m) = data_size m"
  "hnext (count_access m) = hnext m" "lru_prev (count_access m) = lru_prev m"
  "lru_next (count_access m) = lru_next m"
  by (simp_all add: count_access_def)

lemma node_ok_count_access [simp]: "node_ok (count_access n) = node_ok n"
  by (simp add: node_ok_def)

lemma repr_count:
  assumes r: "cache_repr c xs chs" and v: "heap c v = Some n"
  shows "cache_repr (c\<lparr>heap := (heap c)(v \<mapsto> count_access n)\<rparr>) xs chs"
proof -
  have url: "has_url ((heap c)(v \<mapsto> count_access n)) = has_url (heap c)"
    using v by (auto simp: has_url_def fun_eq_iff)
  have "chain_table (c\<lparr>heap := (heap c)(v \<mapsto> count_access n)\<rparr>) chs"
    using repr_chains [OF r] v by (auto simp: chain_table_def lseg_upd_same)
  with r v show ?thesis
    by (auto simp: cache_repr_def dll_def lseg_upd_same url nodes_ok_def)
qed

lemma cache_get_locked_ok:
  assumes r: "cache_repr c xs chs"
  shows "\<exists>p c' xs'. cache_get_locked now c u = Some (p, c') \<and> cache_repr c' xs' chs
     \<and> xs' = (case p of None \<Rightarrow> xs | Some a \<Rightarrow> a # filter (\<lambda>x. x \<noteq> a) xs)
     \<and> (p = None \<longrightarrow> c' = c) \<and> max_size c' = max_size c
     \<and> (\<forall>x \<in> set xs. e_data (entry_at c' x) = e_data (entry_at c x))
     \<and> (map_option (entry_at c') p, cache_abs c') = spec_get now u (cache_abs c)"
proof -
  let ?i = "cache_hash u"
  have len: "?i < length (hash_table c)" using chains_table [OF repr_chains [OF r]] cache_hash_bound by simp
  note search = cache_search_ok [OF chains_lseg [OF repr_chains [OF r] cache_hash_bound], of now u u,
      unfolded repr_order [OF r]]
  show ?thesis
  proof (cases "filter (has_url (heap c) u) xs")
    case Nil
    then have "spec_find u (cache_abs c) = None"
      using repr_node [OF r] entry_url [of _ c u]
      by (auto simp: spec_find_def cache_abs_repr [OF r] find_None_iff filter_empty_conv dom_def)
    with r Nil search len show ?thesis
      by (auto simp: cache_get_locked_def spec_get_def)
  next
    case (Cons a as)
    then obtain ys zs where xs: "xs = ys @ a # zs" and ys: "\<forall>y \<in> set ys. \<not> has_url (heap c) u y"
      and a: "has_url (heap c) u a" by (rule filter_split_hd)
    have dom: "x \<in> dom (heap c)" if "x \<in> set xs" for x using repr_node [OF r that] by auto
    have eys: "\<forall>y \<in> set (map (entry_at c) ys). e_url y \<noteq> u" and ea: "e_url (entry_at c a) = u"
      using ys a dom xs by (auto simp: entry_url)
    have find: "spec_find u (cache_abs c) = Some (entry_at c a)"
      and rest: "without_first (\<lambda>e. e_url e = u) (cache_abs c) = map (entry_at c) (ys @ zs)"
      using eys ea by (simp_all add: spec_find_def cache_abs_repr [OF r] xs find_append_first
          without_first_append)
    show ?thesis
    proof (cases "fresh now (entry_at c a)")
      case False
      with r Cons search len find show ?thesis
        by (auto simp: cache_get_locked_def spec_get_def entry_fresh)
    next
      case True
      from cache_move_to_front_ok [OF repr_dll [OF r [unfolded xs]]] obtain c1 where
        c1: "cache_move_to_front c (Some a) = Some c1" "dll c1 (a # ys @ zs)" "same_chains c c1" by blast
      have r1: "cache_repr c1 (a # ys @ zs) chs"
        using repr_reorder [OF r [unfolded xs] c1(2,3)] ys a by (auto dest: has_url_unique)
      obtain n where n: "heap c1 a = Some n" using repr_node [OF r1, of a] by auto
      let ?c' = "c1\<lparr>heap := (heap c1)(a \<mapsto> count_access n)\<rparr>"
      have r': "cache_repr ?c' (a # ys @ zs) chs" by (rule repr_count [OF r1 n])
      have eq: "entry_at c1 x = entry_at c x" if "x \<in> set xs" for x
        using same_but_entry [OF same_but_chains [OF c1(3), of "{}"]] repr_node [OF r that] by auto
      have dist: "distinct (ys @ a # zs)" using repr_distinct [OF r] xs by simp
      have others: "entry_at ?c' x = entry_at c x" if "x \<in> set (ys @ zs)" for x
        using eq [of x] that dist xs by (auto simp: entry_at_def)
      moreover have "entry_at ?c' a = touch (entry_at c a)"
        using eq [of a] xs n by (simp add: entry_at_def entry_of_def touch_def count_access_def)
      ultimately have "cache_abs ?c' = touch (entry_at c a) # map (entry_at c) (ys @ zs)"
        using cache_abs_repr [OF r'] by auto
      moreover have "cache_get_locked now c u = Some (Some a, ?c')"
        using Cons search len True c1(1) n
        by (simp add: cache_get_locked_def entry_fresh mem_simps count_access_def)
      moreover have "filter (\<lambda>x. x \<noteq> a) xs = ys @ zs" using dist xs by (simp add: filter_neq_id)
      moreover have "\<forall>x \<in> set xs. e_data (entry_at ?c' x) = e_data (entry_at c x)"
        using \<open>entry_at ?c' a = _\<close> others xs by (auto simp: touch_def)
      ultimately show ?thesis
        using r' True find rest \<open>entry_at ?c' a = _\<close> same_sizes(1) [OF c1(3)] by (auto simp: spec_get_def)
    qed
  qed
qed

subsection \<open>Creation\<close>

lemma HASH_TABLE_SIZE_pos: "0 < HASH_TABLE_SIZE"
  by (simp add: HASH_TABLE_SIZE_def)

lemma cache_create_ok:
  assumes "cache_create m1 m2 mi = Some c"
  shows "cache_repr c [] (\<lambda>_. []) \<and> max_size c = CACHE_SIZE"
  using assms
  by (auto simp: cache_create_def cache_repr_def dll_def chain_table_def nodes_ok_def CACHE_SIZE_def
      split: if_splits)

subsection \<open>Insertion\<close>

lemma butlast_entry:
  assumes "cache_repr c (ys @ [v]) chs" "cache_repr c' ys chs'" "same_but {v} c c'"
  shows "cache_abs c' = butlast (cache_abs c)"
  using abs_remove [of c ys v "[]"] assms cache_abs_repr [OF assms(1)] by simp

text \<open>Making room: what the cache looks like when the new node is allocated.\<close>

lemma cache_make_room_ok:
  assumes r: "cache_repr c xs chs"
  shows "\<exists>c' chs'. (if current_size c \<ge> max_size c then cache_remove_lru c else Some c) = Some c'
     \<and> cache_repr c' (if max_size c \<le> int (length xs) then butlast xs else xs) chs'
     \<and> max_size c' = max_size c \<and> current_size c' < max_size c'
     \<and> cache_abs c' = spec_evict (max_size c) (cache_abs c)"
proof (cases "max_size c \<le> current_size c")
  case False
  with r show ?thesis by (auto simp: cache_repr_def spec_evict_def cache_abs_repr [OF r])
next
  case True
  with r have "xs \<noteq> []" by (auto simp: cache_repr_def)
  then obtain ys v where xs: "xs = ys @ [v]" using snoc_cases by blast
  from cache_remove_lru_ok [OF r [unfolded xs]] obtain c' chs' where c':
      "cache_remove_lru c = Some c'" "cache_repr c' ys chs'" "same_but {v} c c'" "max_size c' = max_size c"
    by blast
  have "current_size c' < max_size c'" using r c'(2,4) xs by (auto simp: cache_repr_def)
  moreover have "cache_abs c' = spec_evict (max_size c) (cache_abs c)"
    using butlast_entry [OF r [unfolded xs] c'(2,3)] True r
    by (simp add: spec_evict_def cache_abs_repr [OF r]) (simp add: cache_repr_def)
  moreover have "current_size c = int (length xs)" using r by (simp add: cache_repr_def)
  ultimately show ?thesis using c' True xs by auto
qed

text \<open>Storing, chaining and linking a node at an unused address.\<close>

definition insert_node :: "addr \<Rightarrow> cache_node \<Rightarrow> optimized_cache \<Rightarrow> optimized_cache option" where
  "insert_node a n c =
     do {
       first \<leftarrow> array_read (hash_table c) (cache_hash (url n));
       let c = c\<lparr>heap := (heap c)(a \<mapsto> n\<lparr>hnext := first\<rparr>)\<rparr>;
       c \<leftarrow> set_slot (cache_hash (url n)) (Some a) c;
       c \<leftarrow> link_front c (Some a);
       Some (c\<lparr>current_size := current_size c + 1\<rparr>)
     }"

lemma insert_node_ok:
  assumes r: "cache_repr c xs chs" and a: "heap c a = None" and n: "node_ok n"
    and room: "current_size c < max_size c"
  shows "\<exists>c' chs'. insert_node a n c = Some c' \<and> cache_repr c' (a # xs) chs'
     \<and> same_but {a} c c' \<and> entry_at c' a = entry_of n \<and> max_size c' = max_size c"
proof -
  let ?i = "cache_hash (url n)"
  let ?n = "n\<lparr>hnext := hash_table c ! ?i\<rparr>"
  let ?c1 = "c\<lparr>heap := (heap c)(a \<mapsto> ?n), hash_table := (hash_table c)[?i := Some a]\<rparr>"
  let ?chs = "chs(?i := a # chs ?i)"
  note ch = repr_chains [OF r]
  have notin: "a \<notin> set xs" using a repr_node [OF r, of a] by auto
  have notin_ch: "a \<notin> set (chs k)" if "k < HASH_TABLE_SIZE" for k
    using a chains_allocated [OF ch that, of a] by auto
  have "chain_table ?c1 ?chs" by (rule chain_push [OF ch a]) (simp_all add: cache_hash_bound)
  moreover have "dll ?c1 xs" using repr_dll [OF r] notin by (simp add: dll_def)
  ultimately obtain c2 where c2: "link_front ?c1 (Some a) = Some c2" "dll c2 (a # xs)"
      "same_chains ?c1 c2" "chain_table c2 ?chs"
    using link_front_ok [of ?c1 xs a ?n] notin chains_same by auto
  let ?c' = "c2\<lparr>current_size := current_size c2 + 1\<rparr>"
  have same1: "same_but {a} c ?c1" by (simp add: same_but_def)
  have same2: "same_but {} ?c1 ?c'" using same_but_chains [OF c2(3), of "{}"] by (simp add: same_but_def)
  then have same: "same_but {a} c ?c'" using same_but_trans [OF same1] same_but_mono by blast
  have a': "has_url (heap ?c') u a = has_url (heap ?c1) u a" for u
    using same_but_url [OF same2, of a u] by simp
  have "filter (has_url (heap ?c') u) (?chs (cache_hash u)) = filter (has_url (heap ?c') u) (a # xs)" for u
  proof -
    have "filter (has_url (heap ?c') u) ws = filter (has_url (heap c) u) ws" if "a \<notin> set ws" for ws
      using that by (intro filter_cong refl same_but_url [OF same]) auto
    with notin notin_ch cache_hash_bound repr_order [OF r, of u] a' show ?thesis
      by (auto simp: has_url_Some)
  qed
  moreover have "dom (heap ?c') = insert a (set xs)"
    using same_but_dom [OF same2] r by (auto simp: cache_repr_def dom_def)
  moreover have "nodes_ok ?c'"
  proof (rule same_but_nodes_ok [OF same2])
    show "nodes_ok ?c1" using r n by (simp add: cache_repr_def nodes_ok_def)
  qed simp
  moreover have "dll ?c' (a # xs)" "chain_table ?c' ?chs"
    using c2(2,4) by (simp_all only: dll_size chain_table_size)
  moreover have "current_size ?c' = int (length (a # xs))" "current_size ?c' \<le> max_size ?c'"
      "0 < max_size ?c'"
    using r room same_sizes(1) [OF c2(3)] by (simp_all add: cache_repr_def)
  ultimately have "cache_repr ?c' (a # xs) ?chs" unfolding cache_repr_def by simp
  moreover have "entry_at ?c' a = entry_of n"
    using same_but_entry [OF same2, of a ?n] by (simp add: entry_at_def entry_of_def)
  moreover have "insert_node a n c = Some ?c'"
    using c2(1) chains_table [OF ch] cache_hash_bound [of "url n"]
    by (simp add: insert_node_def Let_def mem_simps)
  ultimately show ?thesis using same same_sizes(1) [OF c2(3)] by auto
qed

text \<open>
  \<open>cache_add\<close> always makes room first; it then either stores the entry in front or, when one
  of its three allocations fails, reports \<open>-1\<close> with the room made.
\<close>

definition mallocs_ok :: "cache_mallocs \<Rightarrow> cache_node heap \<Rightarrow> bool" where
  "mallocs_ok ms h \<longleftrightarrow> malloc_node ms h \<noteq> None \<and> malloc_url ms \<and> malloc_data ms"

lemma cache_add_locked_ok:
  assumes r: "cache_repr c xs chs" and fresh: "alloc_fresh (malloc_node ms)"
    and sz: "0 < sz" "nat sz \<le> length d"
  shows "\<exists>res c' xs' chs'. cache_add_locked ms now c u d sz = Some (res, c') \<and> cache_repr c' xs' chs'
     \<and> max_size c' = max_size c
     \<and> (let kept = (if max_size c \<le> int (length xs) then butlast xs else xs) in
         res = 0 \<and> (\<exists>a h. dom h = set kept \<and> malloc_node ms h = Some a \<and> mallocs_ok ms h \<and> xs' = a # kept \<and> a \<notin> set kept)
           \<and> cache_abs c' = spec_add (max_size c) now u (take (nat sz) d) (cache_abs c)
       \<or> res = - 1 \<and> (\<exists>h. dom h = set kept \<and> \<not> mallocs_ok ms h) \<and> xs' = kept \<and> cache_abs c' = spec_evict (max_size c) (cache_abs c))"
proof -
  let ?kept = "if max_size c \<le> int (length xs) then butlast xs else xs"
  from cache_make_room_ok [OF r] obtain c1 chs1 where
    room: "(if current_size c \<ge> max_size c then cache_remove_lru c else Some c) = Some c1"
    and c1: "cache_repr c1 ?kept chs1" "max_size c1 = max_size c" "current_size c1 < max_size c1"
      "cache_abs c1 = spec_evict (max_size c) (cache_abs c)" by blast
  have dom: "dom (heap c1) = set ?kept" using c1(1) unfolding cache_repr_def by blast
  show ?thesis
  proof (cases "mallocs_ok ms (heap c1)")
    case False
    then have "cache_add_locked ms now c u d sz = Some (- 1, c1)" using room
      by (cases "malloc_node ms (heap c1)") (auto simp: cache_add_locked_def mallocs_ok_def)
    with False c1 dom show ?thesis unfolding Let_def by metis
  next
    case True
    then obtain a where a: "malloc_node ms (heap c1) = Some a" by (auto simp: mallocs_ok_def)
    have free: "heap c1 a = None" using alloc_freshD [OF fresh a] .
    let ?n = "\<lparr>url = u, data = take (nat sz) d, data_size = sz, timestamp = now, access_count = 1,
      hnext = None, lru_prev = None, lru_next = None\<rparr>"
    have "node_ok ?n" using sz by (simp add: node_ok_def)
    from insert_node_ok [OF c1(1) free this c1(3)] obtain c' chs' where c':
        "insert_node a ?n c1 = Some c'" "cache_repr c' (a # ?kept) chs'" "same_but {a} c1 c'"
        "entry_at c' a = entry_of ?n" "max_size c' = max_size c1" by blast
    have "entry_at c' x = entry_at c1 x" if "x \<in> set ?kept" for x
      using same_but_entry [OF c'(3), of x] repr_node [OF c1(1) that] free by (cases "x = a") auto
    then have abs: "cache_abs c' = entry_of ?n # cache_abs c1"
      using cache_abs_repr [OF c'(2)] cache_abs_repr [OF c1(1)] c'(4) by simp
    have "cache_add_locked ms now c u d sz = Some (0, c')"
      using room a True sz c'(1)
      by (simp add: cache_add_locked_def mallocs_ok_def insert_node_def bind_eq_Some_conv Let_def)
    moreover have "\<exists>b h. dom h = set ?kept \<and> malloc_node ms h = Some b \<and> mallocs_ok ms h
        \<and> a # ?kept = b # ?kept \<and> b \<notin> set ?kept"
      using repr_distinct [OF c'(2)] a True dom by (intro exI [of _ a] exI [of _ "heap c1"]) simp
    moreover have "cache_abs c' = spec_add (max_size c) now u (take (nat sz) d) (cache_abs c)"
      using abs c1(4) by (simp add: spec_add_def entry_of_def)
    ultimately show ?thesis using c'(2,5) c1(2) unfolding Let_def by metis
  qed
qed

text \<open>Memory for another node, as long as fewer than \<open>k\<close> are allocated.\<close>

definition memory_for :: "nat \<Rightarrow> cache_mallocs \<Rightarrow> bool" where
  "memory_for k ms \<longleftrightarrow> (\<forall>h. finite (dom h) \<and> card (dom h) < k \<longrightarrow> mallocs_ok ms h)"

lemma first_fit_finds:
  assumes "finite (dom h)" "card (dom h) < k"
  shows "first_fit k h \<noteq> None"
proof
  assume "first_fit k h = None"
  then have "{0..<k} \<subseteq> dom h" by (fastforce simp: first_fit_def find_None_iff)
  from card_mono [OF assms(1) this] assms(2) show False by simp
qed

end
