(* ===== verification/Cache_Expiry.thy ===== *)
theory Cache_Expiry
  imports Cache_Refinement
begin

section \<open>Expiry and destruction of the whole cache\<close>

text \<open>
  The two operations that visit every slot of the hash table: \<open>cache_remove_expired\<close> filters
  the entries by age, and \<open>cache_destroy\<close> frees every node exactly once and leaves none.
\<close>

subsection \<open>One chain\<close>

definition keeps :: "int \<Rightarrow> optimized_cache \<Rightarrow> addr \<Rightarrow> bool" where
  "keeps now c a \<longleftrightarrow> fresh now (entry_at c a)"

definition agree_on :: "addr set \<Rightarrow> optimized_cache \<Rightarrow> optimized_cache \<Rightarrow> bool" where
  "agree_on A c c' \<longleftrightarrow> (\<forall>a \<in> A. entry_at c' a = entry_at c a)"

lemma agree_keeps: "agree_on A c c' \<Longrightarrow> a \<in> A \<Longrightarrow> keeps now c' a = keeps now c a"
  by (simp add: agree_on_def keeps_def)

lemma chain_next:
  assumes r: "cache_repr c xs chs" and i: "i < HASH_TABLE_SIZE" and split: "chs i = ps @ qs"
  shows "(if ps \<noteq> [] then map_option hnext (heap c (last ps)) else Some (hash_table c ! i))
    = Some (case qs of [] \<Rightarrow> None | q # _ \<Rightarrow> Some q)"
proof (cases ps rule: rev_cases)
  case Nil
  with chains_lseg [OF repr_chains [OF r] i] split show ?thesis by (auto dest: lseg_hd)
next
  case (snoc ps' p)
  with chains_lseg [OF repr_chains [OF r] i] split obtain n
    where "heap c p = Some n" "lseg (heap c) hnext (hnext n) qs None" by auto
  with snoc lseg_hd [OF this(2)] show ?thesis by simp
qed

lemma keeps_node: "heap c v = Some n \<Longrightarrow> keeps now c v \<longleftrightarrow> now - timestamp n < CACHE_EXPIRY_TIME"
  by (simp add: keeps_def entry_fresh)

lemma expire_chain_end: "expire_chain now i c prev None removed = Some (c, removed)"
  by (subst expire_chain.simps) simp

lemma expire_chain_kept:
  "heap c v = Some n \<Longrightarrow> keeps now c v \<Longrightarrow>
    expire_chain now i c prev (Some v) removed = expire_chain now i c (Some v) (hnext n) removed"
  by (subst expire_chain.simps) (simp add: keeps_node)

lemma expire_chain_expired:
  "heap c v = Some n \<Longrightarrow> \<not> keeps now c v \<Longrightarrow> expire_node c i prev (Some v) = Some c' \<Longrightarrow>
    (if prev \<noteq> None then map_option hnext (deref (heap c') prev)
     else array_read (hash_table c') i) = Some nx \<Longrightarrow>
    expire_chain now i c prev (Some v) removed = expire_chain now i c' prev nx (removed + 1)"
  by (subst expire_chain.simps) (simp add: keeps_node)

lemma expire_chain_ok:
  assumes "cache_repr c xs chs" and i: "i < HASH_TABLE_SIZE" and "chs i = ps @ qs"
  shows "\<exists>c' k. expire_chain now i c (if ps = [] then None else Some (last ps))
        (case qs of [] \<Rightarrow> None | q # _ \<Rightarrow> Some q) removed = Some (c', k)
     \<and> cache_repr c' (filter (\<lambda>a. a \<in> set qs \<longrightarrow> keeps now c a) xs) (chs(i := ps @ filter (keeps now c) qs))
     \<and> agree_on (set (filter (\<lambda>a. a \<in> set qs \<longrightarrow> keeps now c a) xs)) c c' \<and> max_size c' = max_size c"
  using assms(1,3)
proof (induction qs arbitrary: c xs chs ps removed)
  case Nil
  then have "chs(i := ps) = chs" by auto
  with Nil show ?case by (simp add: agree_on_def expire_chain_end)
next
  case (Cons v qs)
  note r = Cons.prems(1) and split = Cons.prems(2)
  have v: "v \<in> set xs" using repr_chain_subset [OF r i] split by auto
  obtain n where n: "heap c v = Some n" using repr_node [OF r v] by blast
  have dist: "v \<notin> set qs" using chains_distinct [OF repr_chains [OF r] i] split by simp
  show ?case
  proof (cases "keeps now c v")
    case True
    from split have split': "chs i = (ps @ [v]) @ qs" by simp
    obtain c' k where c': "expire_chain now i c (if ps @ [v] = [] then None else Some (last (ps @ [v]))) (case qs of [] \<Rightarrow> None | q # _ \<Rightarrow> Some q) removed = Some (c', k)"
        "cache_repr c' (filter (\<lambda>a. a \<in> set qs \<longrightarrow> keeps now c a) xs) (chs(i := (ps @ [v]) @ filter (keeps now c) qs))"
        "agree_on (set (filter (\<lambda>a. a \<in> set qs \<longrightarrow> keeps now c a) xs)) c c'" "max_size c' = max_size c"
      using Cons.IH [OF r split', of removed] by blast
    have "hnext n = (case qs of [] \<Rightarrow> None | q # _ \<Rightarrow> Some q)"
      using chain_next [OF r i, of "ps @ [v]" qs] split n by simp
    moreover have "filter (\<lambda>a. a \<in> set (v # qs) \<longrightarrow> keeps now c a) xs = filter (\<lambda>a. a \<in> set qs \<longrightarrow> keeps now c a) xs"
      using True by (intro filter_cong) auto
    moreover have "(ps @ [v]) @ filter (keeps now c) qs = ps @ filter (keeps now c) (v # qs)"
      using True by simp
    moreover have "expire_chain now i c (if ps = [] then None else Some (last ps)) (Some v) removed = Some (c', k)"
      using c'(1) \<open>hnext n = _\<close> by (simp add: expire_chain_kept [OF n True])
    ultimately show ?thesis using c'(2-4) by (simp only: list.case) blast
  next
    case False
    obtain ys zs where xs: "xs = ys @ v # zs" using v by (auto dest: split_list)
    from expire_node_ok [OF r [unfolded xs] i split] obtain c1 where c1:
        "expire_node c i (if ps = [] then None else Some (last ps)) (Some v) = Some c1"
        "cache_repr c1 (ys @ zs) (chs(i := ps @ qs))" "same_but {v} c c1" "max_size c1 = max_size c" by blast
    have ag: "agree_on (set (ys @ zs)) c c1"
      using same_but_entry [OF c1(3)] repr_node [OF r] repr_distinct [OF r]
      by (fastforce simp: agree_on_def xs)
    have sub: "set qs \<subseteq> set (ys @ zs)" using repr_chain_subset [OF c1(2) i] by auto
    let ?keep = "\<lambda>a. a \<in> set qs \<longrightarrow> keeps now c1 a"
    obtain c' k where c': "expire_chain now i c1 (if ps = [] then None else Some (last ps))
          (case qs of [] \<Rightarrow> None | q # _ \<Rightarrow> Some q) (removed + 1) = Some (c', k)"
        "cache_repr c' (filter ?keep (ys @ zs)) ((chs(i := ps @ qs))(i := ps @ filter (keeps now c1) qs))"
        "agree_on (set (filter ?keep (ys @ zs))) c1 c'" "max_size c' = max_size c1"
      using Cons.IH [OF c1(2) fun_upd_same, of "removed + 1"] by blast
    have keep: "filter ?keep (ys @ zs) = filter (\<lambda>a. a \<in> set (v # qs) \<longrightarrow> keeps now c a) xs"
    proof -
      have "filter ?keep ws = filter (\<lambda>a. a \<in> set (v # qs) \<longrightarrow> keeps now c a) ws" if "set ws \<subseteq> set (ys @ zs)" for ws
        using that agree_keeps [OF ag] repr_distinct [OF r] xs by (intro filter_cong) auto
      then show ?thesis using False xs by simp
    qed
    have "filter (keeps now c1) qs = filter (keeps now c) (v # qs)"
      using agree_keeps [OF ag] sub False by (auto intro!: filter_cong)
    moreover have "agree_on (set (filter ?keep (ys @ zs))) c c'"
      using c'(3) ag by (auto simp: agree_on_def)
    moreover have "expire_chain now i c (if ps = [] then None else Some (last ps)) (Some v) removed
        = Some (c', k)"
      using chain_next [OF c1(2) i, of ps qs] chains_table [OF repr_chains [OF c1(2)]] i c'(1)
      by (subst expire_chain_expired [OF n False c1(1)]) (auto split: if_splits)
    ultimately show ?thesis using c'(2,4) c1(4) keep by (simp only: list.case fun_upd_upd) blast
  qed
qed

subsection \<open>All chains\<close>

lemma chain_first:
  assumes r: "cache_repr c xs chs" and i: "i < HASH_TABLE_SIZE"
  shows "array_read (hash_table c) i = Some (case chs i of [] \<Rightarrow> None | q # _ \<Rightarrow> Some q)"
  using chain_next [OF r i, of "[]" "chs i"] chains_table [OF repr_chains [OF r]] i by simp

lemma expire_slots_ok:
  assumes "cache_repr c xs chs" and "\<forall>i \<in> set is. i < HASH_TABLE_SIZE" and "distinct is"
  shows "\<exists>c' k chs'. expire_slots now is c removed = Some (c', k)
     \<and> cache_repr c' (filter (\<lambda>a. (\<exists>i \<in> set is. a \<in> set (chs i)) \<longrightarrow> keeps now c a) xs) chs'
     \<and> agree_on (set (filter (\<lambda>a. (\<exists>i \<in> set is. a \<in> set (chs i)) \<longrightarrow> keeps now c a) xs)) c c'
     \<and> max_size c' = max_size c"
  using assms
proof (induction "is" arbitrary: c xs chs removed)
  case Nil
  then show ?case by (auto simp: agree_on_def)
next
  case (Cons i "is")
  note r = Cons.prems(1)
  from Cons.prems(2) have i: "i < HASH_TABLE_SIZE" by simp
  let ?xs = "filter (\<lambda>a. a \<in> set (chs i) \<longrightarrow> keeps now c a) xs"
  obtain c1 k1 where c1: "expire_chain now i c None (case chs i of [] \<Rightarrow> None | q # _ \<Rightarrow> Some q) removed = Some (c1, k1)"
      "cache_repr c1 ?xs (chs(i := filter (keeps now c) (chs i)))"
      "agree_on (set ?xs) c c1" "max_size c1 = max_size c"
    using expire_chain_ok [OF r i, of "[]" "chs i" now removed] by auto
  let ?chs = "chs(i := filter (keeps now c) (chs i))"
  let ?keep = "\<lambda>a. (\<exists>j \<in> set is. a \<in> set (?chs j)) \<longrightarrow> keeps now c1 a"
  obtain c' k chs' where c': "expire_slots now is c1 k1 = Some (c', k)"
      "cache_repr c' (filter ?keep ?xs) chs'" "agree_on (set (filter ?keep ?xs)) c1 c'" "max_size c' = max_size c1"
    using Cons.IH [OF c1(2), of k1] Cons.prems(2,3) by auto
  have "i \<notin> set is" using Cons.prems(3) by simp
  then have "filter ?keep ?xs
      = filter (\<lambda>a. (\<exists>j \<in> set is. a \<in> set (chs j)) \<longrightarrow> keeps now c a) ?xs"
    using agree_keeps [OF c1(3)] by (intro filter_cong) (auto split: if_splits)
  then have keep: "filter ?keep ?xs = filter (\<lambda>a. (\<exists>j \<in> set (i # is). a \<in> set (chs j)) \<longrightarrow> keeps now c a) xs"
    by (simp only: filter_filter list.set) (auto intro!: filter_cong)
  have "agree_on (set (filter ?keep ?xs)) c c'"
    using c1(3) c'(3) by (auto simp: agree_on_def)
  moreover have "expire_slots now (i # is) c removed = Some (c', k)"
    using chain_first [OF r i] c1(1) c'(1) by simp
  ultimately show ?case using c'(2,4) c1(4) unfolding keep by auto
qed

lemma cache_remove_expired_ok:
  assumes r: "cache_repr c xs chs"
  shows "\<exists>c'. cache_remove_expired now (Some c) = Some (Some c') \<and> cache_inv c'
     \<and> cache_addrs c' = filter (keeps now c) xs
     \<and> cache_abs c' = spec_expire now (cache_abs c) \<and> max_size c' = max_size c"
proof -
  let ?is = "[0..<HASH_TABLE_SIZE]"
  let ?keep = "\<lambda>a. (\<exists>i \<in> set ?is. a \<in> set (chs i)) \<longrightarrow> keeps now c a"
  obtain c' k chs' where c': "expire_slots now ?is c 0 = Some (c', k)"
      "cache_repr c' (filter ?keep xs) chs'" "agree_on (set (filter ?keep xs)) c c'" "max_size c' = max_size c"
    using expire_slots_ok [OF r, of ?is now 0] by auto
  have "\<exists>i \<in> set ?is. a \<in> set (chs i)" if "a \<in> set xs" for a
    using repr_node [OF r that] repr_in_chain [OF r that] cache_hash_bound by fastforce
  then have xs: "filter ?keep xs = filter (keeps now c) xs" by (intro filter_cong) auto
  have "map (entry_at c') (filter (keeps now c) xs) = map (entry_at c) (filter (keeps now c) xs)"
    using c'(3) unfolding xs by (auto simp: agree_on_def)
  also have "\<dots> = spec_expire now (map (entry_at c) xs)"
    by (simp add: spec_expire_def filter_map o_def keeps_def [abs_def])
  finally show ?thesis using c'(1,2,4) cache_abs_repr [OF c'(2)] cache_abs_repr [OF r]
    cache_addrs_repr [OF c'(2)] unfolding xs
    by (auto simp: cache_remove_expired_def intro: cache_invI)
qed

subsection \<open>Destruction\<close>

lemma lseg_restrict:
  "set xs \<inter> A = {} \<Longrightarrow> lseg (h |` (- A)) nx p xs q = lseg h nx p xs q"
  by (induction xs arbitrary: p) auto

lemma free_chain_ok:
  "lseg h hnext p as None \<Longrightarrow> free_chain h p = Some (h |` (- set as))"
proof (induction as arbitrary: h p)
  case Nil
  then show ?case by (subst free_chain.simps) (simp add: restrict_map_def)
next
  case (Cons a as)
  then obtain n where n: "h a = Some n" "p = Some a" "lseg h hnext (hnext n) as None" by auto
  have "a \<notin> set as" using lseg_tail_notin [OF n(1,3)] .
  with n(3) have "lseg (h(a := None)) hnext (hnext n) as None" by simp
  then have IH: "free_chain (h(a := None)) (hnext n) = Some ((h(a := None)) |` (- set as))"
    by (rule Cons.IH)
  have "(h(a := None)) |` (- set as) = h |` (- set (a # as))"
    by (auto simp: restrict_map_def fun_eq_iff)
  with IH n show ?case by (subst free_chain.simps) (simp add: mem_simps del: fun_upd_restrict)
qed

lemma free_slots_ok:
  assumes "\<forall>i \<in> set is. i < length t \<and> lseg h hnext (t ! i) (chs i) None"
    and "distinct is" and "\<forall>i \<in> set is. \<forall>j \<in> set is. i \<noteq> j \<longrightarrow> set (chs i) \<inter> set (chs j) = {}"
  shows "free_slots t is h = Some (h |` (- (\<Union>i \<in> set is. set (chs i))))"
  using assms
proof (induction "is" arbitrary: h)
  case Nil
  then show ?case by (simp add: restrict_map_def)
next
  case (Cons i "is")
  let ?h = "h |` (- set (chs i))"
  have "\<forall>j \<in> set is. j < length t \<and> lseg ?h hnext (t ! j) (chs j) None"
  proof
    fix j assume j: "j \<in> set is"
    with Cons.prems(2,3) have "set (chs j) \<inter> set (chs i) = {}" by fastforce
    with Cons.prems(1) j show "j < length t \<and> lseg ?h hnext (t ! j) (chs j) None"
      by (simp add: lseg_restrict)
  qed
  with Cons.IH [of ?h] Cons.prems(2,3)
  have "free_slots t is ?h = Some (?h |` (- (\<Union>j \<in> set is. set (chs j))))" by simp
  moreover have "free_chain h (t ! i) = Some ?h" "i < length t"
    using Cons.prems(1) free_chain_ok by auto
  ultimately show ?case by (simp add: Int_commute)
qed

lemma cache_destroy_ok:
  assumes r: "cache_repr c xs chs"
  shows "cache_destroy (Some c) = Some Map.empty"
proof -
  note ch = repr_chains [OF r]
  let ?is = "[0..<HASH_TABLE_SIZE]"
  have "cache_destroy (Some c) = Some (heap c |` (- (\<Union>i \<in> set ?is. set (chs i))))"
    unfolding cache_destroy_def option.case
  proof (rule free_slots_ok)
    show "\<forall>i \<in> set ?is. i < length (hash_table c) \<and> lseg (heap c) hnext (hash_table c ! i) (chs i) None"
      using chains_lseg [OF ch] chains_table [OF ch] by auto
    show "\<forall>i \<in> set ?is. \<forall>j \<in> set ?is. i \<noteq> j \<longrightarrow> set (chs i) \<inter> set (chs j) = {}"
      using chains_disjoint [OF ch] by fastforce
  qed simp
  moreover have "dom (heap c) \<subseteq> (\<Union>i \<in> set ?is. set (chs i))"
  proof
    fix a assume "a \<in> dom (heap c)"
    with r obtain n where "a \<in> set xs" "heap c a = Some n" by (auto simp: cache_repr_def)
    from repr_in_chain [OF r this] cache_hash_bound show "a \<in> (\<Union>i \<in> set ?is. set (chs i))" by fastforce
  qed
  then have "heap c |` (- (\<Union>i \<in> set ?is. set (chs i))) = Map.empty"
    by (auto simp: restrict_map_def fun_eq_iff)
  ultimately show ?thesis by simp
qed

end
