(* ===== verification/Cache_Contract.thy ===== *)
theory Cache_Contract
  imports Cache_Expiry
begin

section \<open>The cache as its clients see it\<close>

text \<open>
  The calls a client can make, as the steps of a state machine over the contract's entry
  lists; the locale \<open>response_cache\<close>, which states what an implementation promises about
  these calls and derives what follows for any sequence of them; and its interpretation on
  the code's cache, which rests on the refinement lemmas of the theories before this one.
\<close>

subsection \<open>Calls\<close>

datatype cache_call =
    CacheGet int string
  | CacheAdd cache_mallocs int string string int
  | CacheExpire int

text \<open>What the caller and the allocator must provide: \<open>data\<close> points to \<open>size\<close> bytes.\<close>

fun call_ok :: "cache_call \<Rightarrow> bool" where
  "call_ok (CacheGet now u) = True"
| "call_ok (CacheAdd ms now u d sz) = (alloc_fresh (malloc_node ms) \<and> nat sz \<le> length d)"
| "call_ok (CacheExpire now) = True"

fun call_time :: "cache_call \<Rightarrow> int" where
  "call_time (CacheGet now u) = now"
| "call_time (CacheAdd ms now u d sz) = now"
| "call_time (CacheExpire now) = now"

definition cache_call_step :: "cache_call \<Rightarrow> optimized_cache \<Rightarrow> optimized_cache option" where
  "cache_call_step x c =
     (case x of
        CacheGet now u \<Rightarrow> do { (p, c') \<leftarrow> cache_get now (Some c) (Some u); c' }
      | CacheAdd ms now u d sz \<Rightarrow> do { (res, c') \<leftarrow> cache_add ms now (Some c) (Some u) (Some d) sz; c' }
      | CacheExpire now \<Rightarrow> do { c' \<leftarrow> cache_remove_expired now (Some c); c' })"

inductive spec_step :: "int \<Rightarrow> cache_call \<Rightarrow> cache_entry list \<Rightarrow> cache_entry list \<Rightarrow> bool" for cap where
  spec_get_step: "spec_step cap (CacheGet now u) es (snd (spec_get now u es))"
| spec_add_step: "0 < sz \<Longrightarrow>
    spec_step cap (CacheAdd ms now u d sz) es (spec_add cap now u (take (nat sz) d) es)"
| spec_add_failed: "0 < sz \<Longrightarrow> spec_step cap (CacheAdd ms now u d sz) es (spec_evict cap es)"
| spec_add_refused: "sz \<le> 0 \<Longrightarrow> spec_step cap (CacheAdd ms now u d sz) es es"
| spec_expire_step: "spec_step cap (CacheExpire now) es (spec_expire now es)"

inductive_cases spec_get_stepE: "spec_step cap (CacheGet now u) es es'"
inductive_cases spec_add_stepE: "spec_step cap (CacheAdd ms now u d sz) es es'"
inductive_cases spec_expire_stepE: "spec_step cap (CacheExpire now) es es'"

lemmas spec_stepEs = spec_get_stepE spec_add_stepE spec_expire_stepE

subsection \<open>How long an entry is kept\<close>

text \<open>
  \<open>held k u d t es\<close>: a lookup of \<open>u\<close> finds the data \<open>d\<close> stored at the time \<open>t\<close>, and at most
  \<open>k\<close> entries are more recent.
\<close>

definition held :: "nat \<Rightarrow> string \<Rightarrow> string \<Rightarrow> int \<Rightarrow> cache_entry list \<Rightarrow> bool" where
  "held k u d t es \<longleftrightarrow> (\<exists>ys e zs. es = ys @ e # zs \<and> (\<forall>y \<in> set ys. e_url y \<noteq> u) \<and> length ys \<le> k
     \<and> e_url e = u \<and> e_data e = d \<and> e_time e = t)"

definition keeps_held :: "string \<Rightarrow> int \<Rightarrow> cache_call \<Rightarrow> bool" where
  "keeps_held u t x \<longleftrightarrow>
     (case x of CacheGet now v \<Rightarrow> True
      | CacheAdd ms now v d sz \<Rightarrow> v \<noteq> u
      | CacheExpire now \<Rightarrow> now - t < CACHE_EXPIRY_TIME)"

lemma heldI:
  "es = ys @ e # zs \<Longrightarrow> \<forall>y \<in> set ys. e_url y \<noteq> u \<Longrightarrow> length ys \<le> k \<Longrightarrow> e_url e = u \<Longrightarrow>
    e_data e = d \<Longrightarrow> e_time e = t \<Longrightarrow> held k u d t es"
  unfolding held_def by blast

lemma heldE:
  assumes "held k u d t es"
  obtains ys e zs where "es = ys @ e # zs" "\<forall>y \<in> set ys. e_url y \<noteq> u" "length ys \<le> k"
    "e_url e = u" "e_data e = d" "e_time e = t"
  using assms unfolding held_def by blast

lemma held_find: "held k u d t es \<Longrightarrow> \<exists>e. spec_find u es = Some e \<and> e_data e = d \<and> e_time e = t"
  by (erule heldE) (simp add: spec_find_def find_append_first)

lemma held_mono: "held k u d t es \<Longrightarrow> k \<le> k' \<Longrightarrow> held k' u d t es"
  by (erule heldE) (rule heldI, assumption+, simp_all)

lemma held_evict:
  assumes "held k u d t es" "int (Suc k) < cap" "int (length es) \<le> cap"
  shows "held k u d t (spec_evict cap es)"
proof -
  from assms(1) obtain ys e zs where es: "es = ys @ e # zs" "\<forall>y \<in> set ys. e_url y \<noteq> u" "length ys \<le> k"
      "e_url e = u" "e_data e = d" "e_time e = t" by (rule heldE)
  have "spec_evict cap es = ys @ e # (if cap \<le> int (length es) then butlast zs else zs)"
  proof (cases "zs = []")
    case True
    then have "\<not> cap \<le> int (length es)" using es(1,3) assms(2) by simp
    with True es(1) show ?thesis by (simp add: spec_evict_def)
  next
    case False
    then show ?thesis by (simp add: spec_evict_def es(1) butlast_append)
  qed
  then show ?thesis using es(2-) by (rule heldI)
qed

lemma held_Cons: "held k u d t es \<Longrightarrow> e_url e \<noteq> u \<Longrightarrow> held (Suc k) u d t (e # es)"
  by (erule heldE) (rule heldI [where ys = "e # _"], simp_all)

lemma held_without:
  assumes "held k u d t es" "v \<noteq> u"
  shows "held k u d t (without_first (\<lambda>e. e_url e = v) es)"
proof -
  let ?P = "\<lambda>e. e_url e = v"
  from assms(1) obtain ys e zs where es: "es = ys @ e # zs" "\<forall>y \<in> set ys. e_url y \<noteq> u" "length ys \<le> k"
      "e_url e = u" "e_data e = d" "e_time e = t" by (rule heldE)
  from assms(2) es(4) without_first_mid [of ?P e ys zs] obtain zs'
    where "without_first ?P es = without_first ?P ys @ e # zs'" unfolding es(1) by auto
  then show ?thesis
    by (rule heldI)
      (use es(2-) set_without_first [of ?P ys] length_without_first_le [of ?P ys] in auto)
qed

lemma held_get:
  assumes "held k u d t es"
  shows "held (Suc k) u d t (snd (spec_get now v es))"
proof (cases "fst (spec_get now v es)")
  case None
  then have "snd (spec_get now v es) = es" by (auto simp: spec_get_def split: option.splits if_splits)
  then show ?thesis using held_mono [OF assms] by simp
next
  case (Some e)
  then obtain e0 where e0: "spec_find v es = Some e0"
      "snd (spec_get now v es) = touch e0 # without_first (\<lambda>e. e_url e = v) es"
    by (auto simp: spec_get_def split: option.splits if_splits)
  show ?thesis
  proof (cases "v = u")
    case True
    with held_find [OF assms] e0(1) have "e_data e0 = d" "e_time e0 = t" by auto
    moreover have "e_url e0 = u" using spec_find_url [OF e0(1)] True by simp
    ultimately show ?thesis unfolding e0(2) by (intro heldI [where ys = "[]" and e = "touch e0"]) simp_all
  next
    case False
    with spec_find_url [OF e0(1)] held_Cons [OF held_without [OF assms False]] show ?thesis
      unfolding e0(2) by simp
  qed
qed

lemma held_expire:
  assumes "held k u d t es" "now - t < CACHE_EXPIRY_TIME"
  shows "held k u d t (spec_expire now es)"
proof -
  from assms(1) obtain ys e zs where es: "es = ys @ e # zs" "\<forall>y \<in> set ys. e_url y \<noteq> u" "length ys \<le> k"
      "e_url e = u" "e_data e = d" "e_time e = t" by (rule heldE)
  have "length (filter (fresh now) ys) \<le> k" using length_filter_le le_trans es(3) by blast
  moreover have "spec_expire now es = filter (fresh now) ys @ e # filter (fresh now) zs"
    using es assms(2) by (simp add: spec_expire_def fresh_def)
  ultimately show ?thesis using es(2,4-) by (intro heldI) auto
qed

lemma held_step:
  assumes "held k u d t es" "spec_step cap x es es'" "keeps_held u t x"
    "int (Suc k) < cap" "int (length es) \<le> cap"
  shows "held (Suc k) u d t es'"
proof (cases x)
  case (CacheGet now v)
  with assms(2) held_get [OF assms(1)] show ?thesis by (auto elim: spec_stepEs)
next
  case (CacheAdd ms now v d' sz)
  with assms(3) have "v \<noteq> u" by (simp add: keeps_held_def)
  moreover have "held (Suc k) u d t (spec_evict cap es)"
    using held_mono [OF held_evict [OF assms(1,4,5)]] by simp
  ultimately show ?thesis
    using assms(2) CacheAdd held_Cons [OF held_evict [OF assms(1,4,5)]] held_mono [OF assms(1), of "Suc k"]
    by (auto simp: spec_add_def elim!: spec_stepEs)
next
  case (CacheExpire now)
  with assms(3) have "now - t < CACHE_EXPIRY_TIME" by (simp add: keeps_held_def)
  with assms(2) CacheExpire held_mono [OF held_expire [OF assms(1)], of now "Suc k"] show ?thesis
    by (auto elim!: spec_stepEs)
qed

subsection \<open>The interface\<close>

locale response_cache =
  fixes step :: "cache_call \<Rightarrow> 'c \<Rightarrow> 'c option"
    and lookup :: "int \<Rightarrow> string \<Rightarrow> 'c \<Rightarrow> ('p option \<times> 'c) option"
    and entry :: "'c \<Rightarrow> 'p \<Rightarrow> cache_entry"
    and entries :: "'c \<Rightarrow> cache_entry list"
    and wf_cache :: "'c \<Rightarrow> bool"
    and cap :: "'c \<Rightarrow> int"
  assumes step_ok: "wf_cache c \<Longrightarrow> call_ok x \<Longrightarrow>
      \<exists>c'. step x c = Some c' \<and> wf_cache c' \<and> cap c' = cap c \<and> spec_step (cap c) x (entries c) (entries c')"
    and lookup_ok: "wf_cache c \<Longrightarrow> \<exists>p c'. lookup now u c = Some (p, c')
      \<and> (map_option (entry c') p, entries c') = spec_get now u (entries c)"
    and bounded: "wf_cache c \<Longrightarrow> 0 < cap c \<and> int (length (entries c)) \<le> cap c"
begin

lemma run_ok:
  assumes "wf_cache c" and "\<forall>x \<in> set xs. call_ok x"
  shows "\<exists>c'. run_ops step xs c = Some c' \<and> wf_cache c' \<and> cap c' = cap c"
proof -
  have "\<exists>c'. step x d = Some c' \<and> wf_cache c' \<and> cap c' = cap c" if "wf_cache d \<and> cap d = cap c" "call_ok x" for x d
    using step_ok [of d x] that by auto
  from run_ops_invariant [where f = step and I = "\<lambda>d. wf_cache d \<and> cap d = cap c" and ok = call_ok
      and c = c and xs = xs, OF this]
  show ?thesis using assms by simp
qed

lemma run_held:
  assumes "wf_cache c" and "\<forall>x \<in> set xs. call_ok x \<and> keeps_held u t x"
    and "held k u d t (entries c)" and "int (k + length xs) < cap c"
  shows "\<exists>c'. run_ops step xs c = Some c' \<and> wf_cache c' \<and> held (k + length xs) u d t (entries c')"
  using assms
proof (induction xs arbitrary: c k)
  case Nil
  then show ?case by simp
next
  case (Cons x xs)
  from step_ok [OF Cons.prems(1), of x] Cons.prems(2) obtain c1 where c1: "step x c = Some c1" "wf_cache c1"
      "cap c1 = cap c" "spec_step (cap c) x (entries c) (entries c1)" by auto
  have "held (Suc k) u d t (entries c1)"
    using held_step [OF Cons.prems(3) c1(4)] Cons.prems(2,4) bounded [OF Cons.prems(1)] by simp
  from Cons.IH [OF c1(2) _ this] Cons.prems(2,4) c1 show ?case by simp
qed

text \<open>
  A response that was just stored is found by a lookup that comes before its expiry and fewer
  than \<open>cap\<close> calls later, whatever these calls are, unless they store the URL again.
\<close>

lemma lookup_retained:
  assumes "wf_cache c" and "\<forall>x \<in> set xs. call_ok x \<and> keeps_held u t x"
    and "held 0 u d t (entries c)" and "int (length xs) < cap c" and "now - t < CACHE_EXPIRY_TIME"
  shows "\<exists>c' p c''. run_ops step xs c = Some c' \<and> lookup now u c' = Some (Some p, c'') \<and> e_data (entry c'' p) = d"
proof -
  from run_held [OF assms(1-3)] assms(4) obtain c' where c': "run_ops step xs c = Some c'" "wf_cache c'"
      "held (length xs) u d t (entries c')" by auto
  from held_find [OF c'(3)] obtain e where e: "spec_find u (entries c') = Some e" "e_data e = d" "e_time e = t"
    by blast
  from lookup_ok [OF c'(2), of now u] obtain p c'' where g: "lookup now u c' = Some (p, c'')"
      "(map_option (entry c'') p, entries c'') = spec_get now u (entries c')" by blast
  have "spec_get now u (entries c') = (Some (touch e), touch e # without_first (\<lambda>e. e_url e = u) (entries c'))"
    using e assms(5) by (simp add: spec_get_def fresh_def)
  with g(2) obtain a where "p = Some a" "entry c'' a = touch e" by auto
  with c' g(1) e(2) show ?thesis by auto
qed

end

subsection \<open>The code's cache implements the interface\<close>

definition lookup_call :: "int \<Rightarrow> string \<Rightarrow> optimized_cache \<Rightarrow> (ptr \<times> optimized_cache) option" where
  "lookup_call now u c = do { (p, c') \<leftarrow> cache_get now (Some c) (Some u); c'' \<leftarrow> c'; Some (p, c'') }"

lemma lookup_call_locked: "lookup_call now u c = cache_get_locked now c u"
  by (cases "cache_get_locked now c u") (auto simp: lookup_call_def cache_get_def)

lemma cache_get_Some:
  "cache_get now (Some c) (Some u) = map_option (\<lambda>(p, c'). (p, Some c')) (cache_get_locked now c u)"
  by (simp add: cache_get_def)

lemma cache_get_ok:
  assumes "cache_inv c"
  shows "\<exists>p c'. cache_get now (Some c) (Some u) = Some (p, Some c') \<and> cache_inv c'
     \<and> cache_addrs c' = (case p of None \<Rightarrow> cache_addrs c | Some a \<Rightarrow> a # filter (\<lambda>x. x \<noteq> a) (cache_addrs c))
     \<and> (p = None \<longrightarrow> c' = c) \<and> max_size c' = max_size c
     \<and> (\<forall>x \<in> set (cache_addrs c). e_data (entry_at c' x) = e_data (entry_at c x))
     \<and> (map_option (entry_at c') p, cache_abs c') = spec_get now u (cache_abs c)"
proof -
  from cache_inv_repr [OF assms] obtain chs where r: "cache_repr c (cache_addrs c) chs" by blast
  from cache_get_locked_ok [OF r, of now u] cache_addrs_repr show ?thesis
    unfolding cache_get_Some by (auto intro: cache_invI)
qed

lemma cache_add_ok:
  assumes "cache_inv c" "alloc_fresh (malloc_node ms)" "0 < sz" "nat sz \<le> length d"
  shows "\<exists>res c'. cache_add ms now (Some c) (Some u) (Some d) sz = Some (res, Some c') \<and> cache_inv c'
     \<and> max_size c' = max_size c
     \<and> (let kept = (if max_size c \<le> int (length (cache_addrs c)) then butlast (cache_addrs c) else cache_addrs c) in
         res = 0 \<and> (\<exists>a h. dom h = set kept \<and> malloc_node ms h = Some a \<and> mallocs_ok ms h \<and> cache_addrs c' = a # kept \<and> a \<notin> set kept)
           \<and> cache_abs c' = spec_add (max_size c) now u (take (nat sz) d) (cache_abs c)
       \<or> res = - 1 \<and> (\<exists>h. dom h = set kept \<and> \<not> mallocs_ok ms h) \<and> cache_addrs c' = kept \<and> cache_abs c' = spec_evict (max_size c) (cache_abs c))"
proof -
  from cache_inv_repr [OF assms(1)] obtain chs where r: "cache_repr c (cache_addrs c) chs" by blast
  from cache_add_locked_ok [OF r assms(2-4), of now u] obtain res c' xs' chs' where
    a: "cache_add_locked ms now c u d sz = Some (res, c')" "cache_repr c' xs' chs'"
    and rest: "max_size c' = max_size c \<and> (let kept = (if max_size c \<le> int (length (cache_addrs c)) then butlast (cache_addrs c) else cache_addrs c) in
         res = 0 \<and> (\<exists>a h. dom h = set kept \<and> malloc_node ms h = Some a \<and> mallocs_ok ms h \<and> xs' = a # kept \<and> a \<notin> set kept)
           \<and> cache_abs c' = spec_add (max_size c) now u (take (nat sz) d) (cache_abs c)
       \<or> res = - 1 \<and> (\<exists>h. dom h = set kept \<and> \<not> mallocs_ok ms h) \<and> xs' = kept \<and> cache_abs c' = spec_evict (max_size c) (cache_abs c))" by blast
  from a(1) assms(3) have "cache_add ms now (Some c) (Some u) (Some d) sz = Some (res, Some c')"
    by (simp add: cache_add_def)
  with rest cache_invI [OF a(2)] show ?thesis unfolding cache_addrs_repr [OF a(2), symmetric] by blast
qed

text \<open>With memory for one more node the insertion succeeds.\<close>

lemma cache_add_memory:
  assumes i: "cache_inv c" and "alloc_fresh (malloc_node ms)" "memory_for (nat (max_size c)) ms"
    and "0 < sz" "nat sz \<le> length d"
  shows "\<exists>a c'. cache_add ms now (Some c) (Some u) (Some d) sz = Some (0, Some c') \<and> cache_inv c'
     \<and> max_size c' = max_size c \<and> (\<exists>h. malloc_node ms h = Some a)
     \<and> cache_addrs c' = a # (if max_size c \<le> int (length (cache_addrs c)) then butlast (cache_addrs c) else cache_addrs c)
     \<and> cache_abs c' = spec_add (max_size c) now u (take (nat sz) d) (cache_abs c)"
proof -
  let ?kept = "if max_size c \<le> int (length (cache_addrs c)) then butlast (cache_addrs c) else cache_addrs c"
  from cache_inv_repr [OF i] obtain chs where r: "cache_repr c (cache_addrs c) chs" by blast
  have "length ?kept < nat (max_size c)" using r by (auto simp: cache_repr_def)
  then have "card (set ?kept) < nat (max_size c)" by (meson card_length le_less_trans)
  then have "mallocs_ok ms h" if "dom h = set ?kept" for h
    using assms(3) that by (simp add: memory_for_def)
  with cache_add_ok [OF assms(1,2,4,5), of now u] show ?thesis unfolding Let_def by metis
qed

lemma cache_expired_ok:
  assumes "cache_inv c"
  shows "\<exists>c'. cache_remove_expired now (Some c) = Some (Some c') \<and> cache_inv c'
     \<and> cache_addrs c' = filter (keeps now c) (cache_addrs c)
     \<and> cache_abs c' = spec_expire now (cache_abs c) \<and> max_size c' = max_size c"
  using cache_inv_repr [OF assms] cache_remove_expired_ok by blast

lemma cache_call_step_ok:
  assumes i: "cache_inv c" and ok: "call_ok x"
  shows "\<exists>c'. cache_call_step x c = Some c' \<and> cache_inv c' \<and> max_size c' = max_size c
     \<and> spec_step (max_size c) x (cache_abs c) (cache_abs c')"
proof (cases x)
  case (CacheGet now u)
  from cache_get_ok [OF i, of now u] obtain p c' where c':
      "cache_get now (Some c) (Some u) = Some (p, Some c')" "cache_inv c'" "max_size c' = max_size c"
      "(map_option (entry_at c') p, cache_abs c') = spec_get now u (cache_abs c)" by blast
  from c'(4) have "cache_abs c' = snd (spec_get now u (cache_abs c))" by (metis snd_conv)
  with c' CacheGet spec_get_step show ?thesis by (simp add: cache_call_step_def)
next
  case (CacheAdd ms now u d sz)
  show ?thesis
  proof (cases "0 < sz")
    case False
    with i CacheAdd spec_add_refused show ?thesis by (simp add: cache_call_step_def cache_add_def)
  next
    case True
    with ok CacheAdd cache_add_ok [OF i, of ms sz d now u] obtain res c' where c':
        "cache_add ms now (Some c) (Some u) (Some d) sz = Some (res, Some c')" "cache_inv c'" "max_size c' = max_size c"
        "cache_abs c' = spec_add (max_size c) now u (take (nat sz) d) (cache_abs c)
          \<or> cache_abs c' = spec_evict (max_size c) (cache_abs c)" by (auto simp: Let_def)
    from c'(4) True have "spec_step (max_size c) x (cache_abs c) (cache_abs c')"
      unfolding CacheAdd by (metis spec_add_step spec_add_failed)
    with c' CacheAdd show ?thesis by (simp add: cache_call_step_def)
  qed
next
  case (CacheExpire now)
  from cache_expired_ok [OF i, of now] obtain c' where c':
      "cache_remove_expired now (Some c) = Some (Some c')" "cache_inv c'" "max_size c' = max_size c"
      "cache_abs c' = spec_expire now (cache_abs c)" by blast
  with CacheExpire spec_expire_step show ?thesis by (simp add: cache_call_step_def)
qed

lemma cache_inv_bounded: "cache_inv c \<Longrightarrow> 0 < max_size c \<and> int (length (cache_abs c)) \<le> max_size c"
  by (auto simp: cache_inv_def cache_abs_def cache_addrs_repr) (auto simp: cache_repr_def)

interpretation rc: response_cache cache_call_step lookup_call entry_at cache_abs cache_inv max_size
proof unfold_locales
  fix c x assume "cache_inv c" "call_ok x"
  then show "\<exists>c'. cache_call_step x c = Some c' \<and> cache_inv c' \<and> max_size c' = max_size c
     \<and> spec_step (max_size c) x (cache_abs c) (cache_abs c')" by (rule cache_call_step_ok)
next
  fix c now u assume "cache_inv c"
  from cache_get_ok [OF this, of now u] show "\<exists>p c'. lookup_call now u c = Some (p, c')
      \<and> (map_option (entry_at c') p, cache_abs c') = spec_get now u (cache_abs c)"
    by (auto simp: lookup_call_def)
qed (rule cache_inv_bounded)

subsection \<open>Reachable caches\<close>

text \<open>The caches the program can get to: created by \<open>cache_create\<close>, changed by calls.\<close>

inductive cache_reachable :: "optimized_cache \<Rightarrow> bool" where
  reach_create: "cache_create m1 m2 mi = Some c \<Longrightarrow> cache_reachable c"
| reach_call: "cache_reachable c \<Longrightarrow> call_ok x \<Longrightarrow> cache_call_step x c = Some c' \<Longrightarrow> cache_reachable c'"

lemma cache_reachable_inv: "cache_reachable c \<Longrightarrow> cache_inv c \<and> max_size c = CACHE_SIZE"
proof (induction rule: cache_reachable.induct)
  case (reach_create m1 m2 mi c)
  then show ?case using cache_create_ok cache_invI by blast
next
  case (reach_call c x c')
  with cache_call_step_ok [of c x] show ?case by auto
qed

text \<open>An empty cache of a chosen size, for concrete runs.\<close>

definition empty_cache :: "int \<Rightarrow> optimized_cache" where
  "empty_cache cap = \<lparr>hash_table = replicate HASH_TABLE_SIZE None, lru_head = None, lru_tail = None,
     current_size = 0, max_size = cap, heap = Map.empty\<rparr>"

lemma empty_cache_repr: "0 < cap \<Longrightarrow> cache_repr (empty_cache cap) [] (\<lambda>_. [])"
  by (auto simp: empty_cache_def cache_repr_def dll_def chain_table_def nodes_ok_def)

lemma empty_cache_inv [simp]: "0 < cap \<Longrightarrow> cache_inv (empty_cache cap)"
  using empty_cache_repr cache_invI by blast

lemma empty_cache_abs [simp]: "cache_abs (empty_cache cap) = []"
  by (simp add: cache_abs_def cache_addrs_def empty_cache_def)

lemma empty_cache_max [simp]: "max_size (empty_cache cap) = cap"
  by (simp add: empty_cache_def)

lemma empty_cache_reachable: "cache_reachable (empty_cache CACHE_SIZE)"
  by (rule reach_create [of True True True]) (simp add: cache_create_def empty_cache_def)

text \<open>Allocations that succeed, and the cache they leave after one insertion.\<close>

definition plain_mallocs :: "nat \<Rightarrow> cache_mallocs" where
  "plain_mallocs n = \<lparr>malloc_node = first_fit n, malloc_url = True, malloc_data = True\<rparr>"

lemma plain_mallocs_fresh [simp]: "alloc_fresh (malloc_node (plain_mallocs n))"
  by (simp add: plain_mallocs_def)

lemma plain_mallocs_memory [simp]: "memory_for n (plain_mallocs n)"
  by (simp add: memory_for_def mallocs_ok_def plain_mallocs_def first_fit_finds)

definition one_entry :: "int \<Rightarrow> int \<Rightarrow> string \<Rightarrow> string \<Rightarrow> 32 word \<Rightarrow> optimized_cache" where
  "one_entry cap now u d k =
     \<lparr>hash_table = (replicate HASH_TABLE_SIZE None)[cache_hash u := Some 0],
      lru_head = Some 0, lru_tail = Some 0, current_size = 1, max_size = cap,
      heap = [0 \<mapsto> \<lparr>url = u, data = d, data_size = int (length d), timestamp = now, access_count = k,
        hnext = None, lru_prev = None, lru_next = None\<rparr>]\<rparr>"

lemma one_entry_add:
  "0 < cap \<Longrightarrow> d \<noteq> [] \<Longrightarrow>
    cache_add (plain_mallocs 1) now (Some (empty_cache cap)) (Some u) (Some d) (int (length d))
      = Some (0, Some (one_entry cap now u d 1))"
  by (simp add: plain_mallocs_def first_fit_def cache_add_def cache_add_locked_def empty_cache_def
      cache_hash_bound mem_simps link_front_def Let_def one_entry_def)

lemma one_entry_inv [simp]: "0 < cap \<Longrightarrow> d \<noteq> [] \<Longrightarrow> cache_inv (one_entry cap now u d 1)"
  using cache_add_ok [OF empty_cache_inv [of cap] plain_mallocs_fresh [of 1], of "int (length d)" d now u]
    one_entry_add [of cap d now u] by auto

lemma one_entry_abs [simp]:
  "cache_abs (one_entry cap now u d k) = [\<lparr>e_url = u, e_data = d, e_time = now, e_hits = k\<rparr>]"
  by (simp add: cache_abs_def cache_addrs_def one_entry_def entry_at_def entry_of_def)

lemma one_entry_addrs [simp]: "cache_addrs (one_entry cap now u d k) = [0]"
  by (simp add: cache_addrs_def one_entry_def)

lemma one_entry_max [simp]: "max_size (one_entry cap now u d k) = cap"
  by (simp add: one_entry_def)

lemma one_entry_get:
  "now' - now < CACHE_EXPIRY_TIME \<Longrightarrow>
    cache_get now' (Some (one_entry cap now u d k)) (Some u) = Some (Some 0, Some (one_entry cap now u d (k + 1)))"
  by (simp add: cache_get_def cache_get_locked_def one_entry_def cache_hash_bound cache_search.simps
      cache_move_to_front_def mem_simps count_access_def)

end
