(* ===== verification/Cache_Hash.thy ===== *)
theory Cache_Hash
  imports Cache_Refinement
begin

section \<open>The hash function\<close>

text \<open>
  \<open>cache_hash\<close> works on 32-bit words with wrap-around. Its slot is the one that the hash
  \<open>h * 33 + c\<close>, computed on unbounded integers from 5381 over the signed characters, has
  modulo the table size: the table size divides \<open>2 ^ 32\<close>, so no overflow can change a slot.
\<close>

definition signed_char :: "char \<Rightarrow> int" where
  "signed_char c = (let k = int (of_char c) in if k < 128 then k else k - 256)"

definition djb2 :: "int \<Rightarrow> string \<Rightarrow> int" where
  "djb2 h u = fold (\<lambda>c h. h * 33 + signed_char c) u h"

lemma sint_byte: "0 \<le> k \<Longrightarrow> k < 256 \<Longrightarrow>
    sint (word_of_int k :: 8 word) = (if k < 128 then k else k - 256)"
proof -
  assume k: "0 \<le> k" "k < 256"
  have "sint (word_of_int k :: 8 word) = (k + 128) mod 256 - 128"
    by (simp add: sint_sbintrunc' signed_take_bit_eq_take_bit_shift take_bit_eq_mod)
  also have "\<dots> = (if k < 128 then k else k - 256)"
  proof (cases "k < 128")
    case True
    with k show ?thesis by (simp add: mod_pos_pos_trivial)
  next
    case False
    have "(k + 128) mod 256 = (k + 128 - 256) mod 256" by (rule minus_mod_self2 [symmetric])
    also have "\<dots> = k - 128" using False k by (simp add: mod_pos_pos_trivial)
    finally show ?thesis using False by simp
  qed
  finally show ?thesis .
qed

lemma char_to_u32_signed: "char_to_u32 c = of_int (signed_char c)"
proof -
  have "(word_of_int (int (of_char c)) :: 8 word) = of_nat (of_char c)" by simp
  also have "\<dots> = of_char c" by (rule of_nat_of_char)
  finally have "sint (of_char c :: 8 word) = sint (word_of_int (int (of_char c)) :: 8 word)" by simp
  also have "\<dots> = signed_char c"
    unfolding signed_char_def Let_def using nat_of_char_less_256 [of c] by (intro sint_byte) simp_all
  finally have "sint (of_char c :: 8 word) = signed_char c" .
  then show ?thesis by (simp add: char_to_u32_def scast_eq)
qed

lemma cache_hash_loop_djb2: "cache_hash_loop (of_int h) u = of_int (djb2 h u)"
proof (induction u arbitrary: h)
  case Nil
  then show ?case by (simp add: djb2_def)
next
  case (Cons c cs)
  have "(push_bit 5 (of_int h :: 32 word) + of_int h) + char_to_u32 c = of_int (h * 33 + signed_char c)"
    by (simp add: push_bit_eq_mult char_to_u32_signed)
  then have "cache_hash_loop (of_int h) (c # cs) = cache_hash_loop (of_int (h * 33 + signed_char c)) cs"
    by (simp only: cache_hash_loop.simps)
  also have "\<dots> = of_int (djb2 h (c # cs))" unfolding Cons by (simp add: djb2_def)
  finally show ?case .
qed

lemma cache_hash_djb2: "int (cache_hash u) = djb2 5381 u mod int HASH_TABLE_SIZE"
proof -
  have "uint (of_int (djb2 5381 u) mod 1024 :: 32 word) = djb2 5381 u mod 1024"
    by (simp add: uint_mod uint_word_of_int mod_mod_cancel)
  moreover have "cache_hash_loop 5381 u = of_int (djb2 5381 u)"
    using cache_hash_loop_djb2 [of 5381 u] by simp
  ultimately show ?thesis by (simp add: cache_hash_def HASH_TABLE_SIZE_def)
qed

end
