(* ===== verification/Cache_Properties.thy ===== *)
theory Cache_Properties
  imports Cache_Contract Cache_Hash
begin

section \<open>Properties of the cache\<close>

text \<open>
  The properties of \<^verbatim>\<open>src/components/cache.c\<close>, from the refinement lemmas and the facts of
  the interpretation \<open>rc\<close>. The last part follows a node's address, which is what a caller
  of \<open>cache_get\<close> keeps after the mutex is released.
\<close>

subsection \<open>Every call is safe and does what the contract says\<close>

text \<open>C3. In every cache the program can reach, every call returns, without a NULL or dangling
  dereference, an access outside the table or a double free, and changes the entries as the
  contract's step relation says. A caller that passes a valid buffer is all it takes.\<close>

theorem cache_calls_refine:
  assumes "cache_reachable c" and "call_ok x"
  shows "\<exists>c'. cache_call_step x c = Some c' \<and> cache_reachable c'
     \<and> spec_step CACHE_SIZE x (cache_abs c) (cache_abs c')"
proof -
  from cache_reachable_inv [OF assms(1)] rc.step_ok [of c x] assms(2) obtain c' where
    "cache_call_step x c = Some c'" "spec_step CACHE_SIZE x (cache_abs c) (cache_abs c')" by auto
  with assms reach_call show ?thesis by blast
qed

theorem cache_calls_refine_witness:
  "\<exists>c'. cache_call_step (CacheAdd (plain_mallocs 1) 7 ''/a'' ''body'' 4) (empty_cache CACHE_SIZE) = Some c'
     \<and> cache_reachable c'
     \<and> spec_step CACHE_SIZE (CacheAdd (plain_mallocs 1) 7 ''/a'' ''body'' 4)
         (cache_abs (empty_cache CACHE_SIZE)) (cache_abs c')"
  by (rule cache_calls_refine [OF empty_cache_reachable]) simp

text \<open>C14. A reachable cache never holds more than 1024 entries, \<open>current_size\<close> is their exact
  number, and it is also the number of allocated nodes: no call leaks a node or frees one that
  is still counted.\<close>

theorem cache_size_exact:
  assumes "cache_reachable c"
  shows "current_size c = int (card (dom (heap c))) \<and> current_size c = int (length (cache_abs c))
     \<and> 0 \<le> current_size c \<and> current_size c \<le> 1024 \<and> finite (dom (heap c))"
proof -
  from cache_reachable_inv [OF assms] obtain chs where r: "cache_repr c (cache_addrs c) chs"
    and m: "max_size c = CACHE_SIZE" using cache_inv_repr by blast
  have "card (dom (heap c)) = length (cache_addrs c)"
    using r repr_distinct [OF r] by (simp add: cache_repr_def distinct_card)
  with r m show ?thesis by (auto simp: cache_repr_def cache_abs_def CACHE_SIZE_def)
qed

theorem cache_size_exact_witness:
  "current_size (empty_cache CACHE_SIZE) = int (card (dom (heap (empty_cache CACHE_SIZE)))) \<and>
   current_size (empty_cache CACHE_SIZE) \<le> 1024"
  using cache_size_exact [OF empty_cache_reachable] by simp

subsection \<open>Lookup\<close>

lemma cache_lookup:
  assumes "cache_inv c"
  shows "\<exists>p c'. cache_get now (Some c) (Some u) = Some (p, Some c') \<and> cache_inv c'
     \<and> (case spec_find u (cache_abs c) of
          None \<Rightarrow> p = None \<and> c' = c
        | Some e \<Rightarrow>
            if now - e_time e < 300
            then p = lru_head c' \<and> (\<exists>n. deref (heap c') p = Some n \<and> url n = u \<and> data n = e_data e)
              \<and> cache_abs c' = touch e # without_first (\<lambda>e. e_url e = u) (cache_abs c)
            else p = None \<and> c' = c)"
proof -
  from cache_get_ok [OF assms, of now u] obtain p c' where
    g: "cache_get now (Some c) (Some u) = Some (p, Some c')" "cache_inv c'" "p = None \<longrightarrow> c' = c"
    and addrs: "cache_addrs c' = (case p of None \<Rightarrow> cache_addrs c | Some a \<Rightarrow> a # filter (\<lambda>x. x \<noteq> a) (cache_addrs c))"
    and spec: "(map_option (entry_at c') p, cache_abs c') = spec_get now u (cache_abs c)" by blast
  have hit: "p = lru_head c' \<and> (\<exists>n. deref (heap c') p = Some n \<and> url n = u \<and> data n = e_data e)
      \<and> cache_abs c' = touch e # without_first (\<lambda>e. e_url e = u) (cache_abs c)"
    if e: "spec_find u (cache_abs c) = Some e" "now - e_time e < 300" for e
  proof -
    from e have "spec_get now u (cache_abs c) = (Some (touch e), touch e # without_first (\<lambda>e. e_url e = u) (cache_abs c))"
      by (simp add: spec_get_def fresh_def CACHE_EXPIRY_TIME_def)
    with spec obtain a where a: "p = Some a" "entry_at c' a = touch e"
        "cache_abs c' = touch e # without_first (\<lambda>e. e_url e = u) (cache_abs c)" by auto
    from cache_inv_repr [OF g(2)] obtain chs where r: "cache_repr c' (cache_addrs c') chs" by blast
    from a(1) addrs have "cache_addrs c' = a # filter (\<lambda>x. x \<noteq> a) (cache_addrs c)" by simp
    with dll_head [OF repr_dll [OF r]] repr_node [OF r, of a] a(1) obtain n
      where n: "lru_head c' = p" "heap c' a = Some n" by auto
    have "e_url (touch e) = u" using spec_find_url [OF e(1)] by simp
    moreover have "url n = e_url (touch e)" "data n = e_data (touch e)"
      using a(2) n(2) by (simp_all add: entry_at_def entry_of_def flip: a(2))
    ultimately show ?thesis using a n by simp
  qed
  have miss: "p = None \<and> c' = c" if "fst (spec_get now u (cache_abs c)) = None"
    using that g(3) arg_cong [OF spec, of fst] by simp
  show ?thesis
  proof (cases "spec_find u (cache_abs c)")
    case None
    with g miss show ?thesis by (auto simp: spec_get_def)
  next
    case (Some e)
    show ?thesis
    proof (cases "now - e_time e < 300")
      case True
      with hit [OF Some] g(1,2) Some show ?thesis by (simp only: option.case if_True) blast
    next
      case False
      with Some have "fst (spec_get now u (cache_abs c)) = None"
        by (simp add: spec_get_def fresh_def CACHE_EXPIRY_TIME_def)
      with miss g(1,2) Some False show ?thesis by simp
    qed
  qed
qed

text \<open>C20. A lookup returns a node exactly when the most recently used entry with the URL is
  younger than 300 seconds: the node is allocated, carries the URL and is now the head of the
  recency list with its access counted, and every other entry keeps its place. Otherwise it
  returns NULL and the cache is unchanged: an expired entry stays in the table, the list and the
  count, although the code calls it one that "will be removed".\<close>

theorem cache_get_correct:
  assumes "cache_inv c"
  shows "\<exists>p c'. cache_get now (Some c) (Some u) = Some (p, Some c') \<and> cache_inv c'
     \<and> (case spec_find u (cache_abs c) of
          None \<Rightarrow> p = None \<and> c' = c
        | Some e \<Rightarrow>
            if now - e_time e < 300
            then p = lru_head c' \<and> (\<exists>n. deref (heap c') p = Some n \<and> url n = u \<and> data n = e_data e)
              \<and> cache_abs c' = touch e # without_first (\<lambda>e. e_url e = u) (cache_abs c)
            else p = None \<and> c' = c)"
  by (rule cache_lookup [OF assms])

theorem cache_get_correct_witness:
  "\<exists>p c'. cache_get 100 (Some (one_entry 4 0 ''/a'' ''body'' 1)) (Some ''/a'') = Some (p, Some c')
     \<and> p = lru_head c' \<and> (\<exists>n. deref (heap c') p = Some n \<and> data n = ''body'')"
  using cache_get_correct [OF one_entry_inv [of 4 "''body''" 0 "''/a''"], of 100 "''/a''"]
  by (auto simp: spec_find_def)

subsection \<open>Insertion and eviction\<close>

text \<open>C21. When its allocations succeed, an insertion returns 0 and puts the entry, with the first
  \<open>size\<close> bytes of the buffer, in front; if the cache was full, exactly the least recently used
  entry is gone.\<close>

theorem cache_add_stores:
  assumes "cache_inv c" and "alloc_fresh (malloc_node ms)" and "memory_for (nat (max_size c)) ms"
    and "0 < sz" and "nat sz \<le> length d"
  shows "\<exists>c'. cache_add ms now (Some c) (Some u) (Some d) sz = Some (0, Some c') \<and> cache_inv c'
     \<and> cache_abs c' = \<lparr>e_url = u, e_data = take (nat sz) d, e_time = now, e_hits = 1\<rparr> #
         (if max_size c \<le> int (length (cache_abs c)) then butlast (cache_abs c) else cache_abs c)"
  using cache_add_memory [OF assms, of now u] by (auto simp: spec_add_def spec_evict_def)

theorem cache_add_stores_witness:
  "\<exists>c'. cache_add (plain_mallocs 1) 9 (Some (one_entry 1 0 ''/a'' ''body'' 1)) (Some ''/b'') (Some ''text'') 3
       = Some (0, Some c')
     \<and> cache_abs c' = [\<lparr>e_url = ''/b'', e_data = ''tex'', e_time = 9, e_hits = 1\<rparr>]"
  using cache_add_stores [OF one_entry_inv [of 1 "''body''" 0 "''/a''"] plain_mallocs_fresh [of 1], of 3 "''text''" 9 "''/b''"]
  by (auto simp: numeral_eq_Suc)

text \<open>When one of its three allocations fails, an insertion returns -1, stores nothing and
  leaks nothing; but it has already made room, so a full cache has lost its least recently used
  entry for nothing.\<close>

theorem cache_add_out_of_memory:
  assumes "cache_inv c" and "alloc_fresh (malloc_node ms)" and "\<forall>h. \<not> mallocs_ok ms h"
    and "0 < sz" and "nat sz \<le> length d"
  shows "\<exists>c'. cache_add ms now (Some c) (Some u) (Some d) sz = Some (- 1, Some c') \<and> cache_inv c'
     \<and> dom (heap c') = set (cache_addrs c')
     \<and> cache_abs c' = (if max_size c \<le> int (length (cache_abs c)) then butlast (cache_abs c) else cache_abs c)"
proof -
  from cache_add_ok [OF assms(1,2,4,5), of now u] assms(3) obtain c' where c':
    "cache_add ms now (Some c) (Some u) (Some d) sz = Some (- 1, Some c')" "cache_inv c'"
    "cache_abs c' = spec_evict (max_size c) (cache_abs c)" unfolding Let_def by metis
  moreover from cache_inv_repr [OF c'(2)] have "dom (heap c') = set (cache_addrs c')"
    by (auto simp: cache_repr_def)
  ultimately show ?thesis by (simp add: spec_evict_def)
qed

theorem cache_add_out_of_memory_witness:
  "\<exists>c'. cache_add ((plain_mallocs 1)\<lparr>malloc_data := False\<rparr>) 9 (Some (one_entry 1 0 ''/a'' ''body'' 1))
       (Some ''/b'') (Some ''text'') 4 = Some (- 1, Some c') \<and> cache_abs c' = []"
  using cache_add_out_of_memory [OF one_entry_inv [of 1 "''body''" 0 "''/a''"],
      of "(plain_mallocs 1)\<lparr>malloc_data := False\<rparr>" 4 "''text''" 9 "''/b''"]
  by (auto simp: mallocs_ok_def plain_mallocs_def)

text \<open>\<open>cache_remove_lru\<close> removes exactly the least recently used entry, from both structures and
  from memory, and does nothing on an empty cache.\<close>

theorem cache_remove_lru_correct:
  assumes "cache_inv c"
  shows "\<exists>c'. cache_remove_lru c = Some c' \<and> cache_inv c' \<and> cache_abs c' = butlast (cache_abs c)
     \<and> dom (heap c') = set (butlast (cache_addrs c))"
proof (cases "cache_addrs c = []")
  case True
  from cache_inv_repr [OF assms] obtain chs where r: "cache_repr c (cache_addrs c) chs" by blast
  with dll_tail [OF repr_dll [OF r]] True assms show ?thesis
    by (auto simp: cache_remove_lru_def cache_abs_def cache_repr_def)
next
  case False
  then obtain ys v where xs: "cache_addrs c = ys @ [v]" using snoc_cases by blast
  from cache_inv_repr [OF assms] obtain chs where r: "cache_repr c (ys @ [v]) chs" unfolding xs by blast
  from cache_remove_lru_ok [OF r] obtain c' chs' where c': "cache_remove_lru c = Some c'"
      "cache_repr c' ys chs'" "same_but {v} c c'" by blast
  moreover have "dom (heap c') = set ys" using c'(2) by (simp add: cache_repr_def)
  ultimately show ?thesis using butlast_entry [OF r c'(2,3)] cache_invI [OF c'(2)] by (simp add: xs)
qed

theorem cache_remove_lru_correct_witness:
  "\<exists>c'. cache_remove_lru (one_entry 1 0 ''/a'' ''body'' 1) = Some c' \<and> cache_abs c' = []"
  using cache_remove_lru_correct [OF one_entry_inv [of 1 "''body''" 0 "''/a''"]] by auto

text \<open>\<open>cache_remove_expired\<close> removes exactly the entries that are 300 seconds old or older,
  wherever they stand in their chains, and keeps the recency order of the others.\<close>

theorem cache_remove_expired_correct:
  assumes "cache_inv c"
  shows "\<exists>c'. cache_remove_expired now (Some c) = Some (Some c') \<and> cache_inv c'
     \<and> cache_abs c' = filter (\<lambda>e. now - e_time e < 300) (cache_abs c)"
  using cache_expired_ok [OF assms, of now]
  by (auto simp: spec_expire_def fresh_def [abs_def] CACHE_EXPIRY_TIME_def)

theorem cache_remove_expired_correct_witness:
  "\<exists>c'. cache_remove_expired 300 (Some (one_entry 4 0 ''/a'' ''body'' 1)) = Some (Some c') \<and> cache_abs c' = []"
  using cache_remove_expired_correct [OF one_entry_inv [of 4 "''body''" 0 "''/a''"], of 300] by auto

text \<open>\<open>cache_destroy\<close> frees every node once and leaves none allocated.\<close>

theorem cache_destroy_frees_all:
  assumes "cache_inv c"
  shows "cache_destroy (Some c) = Some Map.empty"
  using cache_inv_repr [OF assms] cache_destroy_ok by blast

theorem cache_destroy_frees_all_witness:
  "cache_destroy (Some (one_entry 4 0 ''/a'' ''body'' 1)) = Some Map.empty"
  by (rule cache_destroy_frees_all [OF one_entry_inv]) simp_all

subsection \<open>Sequences of calls\<close>

text \<open>C29. A stored response is found again: after a successful insertion, any sequence of fewer
  than \<open>max_size\<close> calls that does not store the URL again and expires nothing as young as it,
  a lookup within 300 seconds of the insertion returns a node with the stored bytes.\<close>

theorem cache_retains_response:
  assumes "cache_inv c" and "alloc_fresh (malloc_node ms)" and "memory_for (nat (max_size c)) ms"
    and "0 < sz" and "nat sz \<le> length d"
    and "\<forall>x \<in> set xs. call_ok x \<and> keeps_held u t x" and "int (length xs) < max_size c"
    and "now - t < 300"
  shows "\<exists>c1 c2 p c3. cache_add ms t (Some c) (Some u) (Some d) sz = Some (0, Some c1)
     \<and> run_ops cache_call_step xs c1 = Some c2
     \<and> cache_get now (Some c2) (Some u) = Some (Some p, Some c3)
     \<and> map_option data (heap c3 p) = Some (take (nat sz) d)"
proof -
  from cache_add_memory [OF assms(1-5), of t u] obtain c1 where c1:
      "cache_add ms t (Some c) (Some u) (Some d) sz = Some (0, Some c1)" "cache_inv c1" "max_size c1 = max_size c"
      "cache_abs c1 = spec_add (max_size c) t u (take (nat sz) d) (cache_abs c)" by blast
  have held: "held 0 u (take (nat sz) d) t (cache_abs c1)"
    unfolding c1(4) spec_add_def
    by (rule heldI [where ys = "[]" and e = "\<lparr>e_url = u, e_data = take (nat sz) d, e_time = t, e_hits = 1\<rparr>"]) simp_all
  obtain c2 where c2: "run_ops cache_call_step xs c1 = Some c2" "cache_inv c2"
      "held (length xs) u (take (nat sz) d) t (cache_abs c2)"
    using rc.run_held [OF c1(2) assms(6) held] assms(7) c1(3) by auto
  from held_find [OF c2(3)] obtain e where e: "spec_find u (cache_abs c2) = Some e"
      "e_data e = take (nat sz) d" "e_time e = t" by blast
  from cache_lookup [OF c2(2), of now u] e assms(8) obtain p c3 n where
      "cache_get now (Some c2) (Some u) = Some (p, Some c3)" "deref (heap c3) p = Some n" "data n = take (nat sz) d"
    by auto
  with c1(1) c2(1) show ?thesis by (cases p) auto
qed

theorem cache_retains_response_witness:
  "\<exists>c1 c2 p c3. cache_add (plain_mallocs 2) 5 (Some (empty_cache 2)) (Some ''/a'') (Some ''body'') 4 = Some (0, Some c1)
     \<and> run_ops cache_call_step [CacheAdd (plain_mallocs 2) 6 ''/b'' ''text'' 4] c1 = Some c2
     \<and> cache_get 200 (Some c2) (Some ''/a'') = Some (Some p, Some c3)
     \<and> map_option data (heap c3 p) = Some ''body''"
  using cache_retains_response [OF empty_cache_inv [of 2] plain_mallocs_fresh [of 2], of 4 "''body''"
      "[CacheAdd (plain_mallocs 2) 6 ''/b'' ''text'' 4]" "''/a''" 5 200]
  by (auto simp: keeps_held_def numeral_eq_Suc)

subsection \<open>The hash function\<close>

text \<open>C40. The slot of a URL is \<open>hash * 33 + c\<close>, from 5381 over its signed characters on
  unbounded integers, modulo 1024: the wrap-around of the 32-bit hash never shows.\<close>

theorem cache_hash_overflow_free:
  "int (cache_hash u) = djb2 5381 u mod 1024 \<and> cache_hash u < 1024"
  using cache_hash_djb2 [of u] cache_hash_bound [of u] by (simp add: HASH_TABLE_SIZE_def)

subsection \<open>How long a returned pointer is good\<close>

text \<open>One call that is not an expiry moves an address at most one place down, as long as it does
  not fall off the end, and leaves its bytes alone.\<close>

definition pointee :: "optimized_cache \<Rightarrow> addr \<Rightarrow> string option" where
  "pointee c p = map_option data (heap c p)"

lemma pointee_entry: "cache_inv c \<Longrightarrow> p \<in> set (cache_addrs c) \<Longrightarrow> pointee c p = Some (e_data (entry_at c p))"
  by (auto simp: pointee_def entry_at_def entry_of_def dest!: cache_inv_repr dest: repr_node)

lemma kept_split:
  assumes "xs = ys @ p # zs" and "int (Suc (length ys)) < cap"
  shows "\<exists>zs'. (if cap \<le> int (length xs) then butlast xs else xs) = ys @ p # zs'"
  using assms by (cases "zs = []") (auto simp: butlast_append)

lemma get_call_keeps:
  assumes i: "cache_inv c" and addrs: "cache_addrs c = ys @ p # zs"
  shows "\<exists>c' ys' zs'. cache_call_step (CacheGet now u) c = Some c' \<and> cache_inv c' \<and> max_size c' = max_size c
     \<and> cache_addrs c' = ys' @ p # zs' \<and> length ys' \<le> Suc (length ys) \<and> pointee c' p = pointee c p"
proof -
  from cache_get_ok [OF i, of now u] obtain q c' where c': "cache_get now (Some c) (Some u) = Some (q, Some c')"
      "cache_inv c'" "max_size c' = max_size c"
      "cache_addrs c' = (case q of None \<Rightarrow> cache_addrs c | Some a \<Rightarrow> a # filter (\<lambda>x. x \<noteq> a) (cache_addrs c))"
      "\<forall>x \<in> set (cache_addrs c). e_data (entry_at c' x) = e_data (entry_at c x)" by blast
  have "\<exists>ys' zs'. cache_addrs c' = ys' @ p # zs' \<and> length ys' \<le> Suc (length ys)"
  proof (cases "q = None \<or> q = Some p")
    case True
    then show ?thesis
    proof
      assume "q = None"
      with c'(4) addrs show ?thesis by (intro exI [of _ ys] exI [of _ zs]) simp
    next
      assume "q = Some p"
      with c'(4) show ?thesis
        by (intro exI [of _ "[]"] exI [of _ "filter (\<lambda>x. x \<noteq> p) (cache_addrs c)"]) simp
    qed
  next
    case False
    then obtain a where a: "q = Some a" "a \<noteq> p" by auto
    with c'(4) addrs show ?thesis
      by (intro exI [of _ "a # filter (\<lambda>x. x \<noteq> a) ys"] exI [of _ "filter (\<lambda>x. x \<noteq> a) zs"]) simp
  qed
  then obtain ys' zs' where l: "cache_addrs c' = ys' @ p # zs'" "length ys' \<le> Suc (length ys)" by blast
  have "pointee c' p = pointee c p"
    using pointee_entry [OF i, of p] pointee_entry [OF c'(2), of p] c'(5) addrs l by simp
  moreover have "cache_call_step (CacheGet now u) c = Some c'" using c'(1) by (simp add: cache_call_step_def)
  ultimately show ?thesis using c'(2,3) l by blast
qed

lemma add_call_keeps:
  assumes i: "cache_inv c" and addrs: "cache_addrs c = ys @ p # zs" and room: "int (Suc (length ys)) < max_size c"
    and ok: "call_ok (CacheAdd ms now u d sz)" and sz: "0 < sz"
  shows "\<exists>c' ys' zs'. cache_call_step (CacheAdd ms now u d sz) c = Some c' \<and> cache_inv c' \<and> max_size c' = max_size c
     \<and> cache_addrs c' = ys' @ p # zs' \<and> length ys' \<le> Suc (length ys) \<and> pointee c' p = pointee c p"
proof -
  let ?kept = "if max_size c \<le> int (length (cache_addrs c)) then butlast (cache_addrs c) else cache_addrs c"
  from kept_split [OF addrs room] obtain zs' where kept: "?kept = ys @ p # zs'" by blast
  from cache_add_ok [OF i, of ms sz d now u] ok sz obtain res c' where c':
      "cache_add ms now (Some c) (Some u) (Some d) sz = Some (res, Some c')" "cache_inv c'" "max_size c' = max_size c"
    and new: "(\<exists>a. cache_addrs c' = a # ?kept) \<and> cache_abs c' = spec_add (max_size c) now u (take (nat sz) d) (cache_abs c)
      \<or> cache_addrs c' = ?kept \<and> cache_abs c' = spec_evict (max_size c) (cache_abs c)"
    unfolding Let_def call_ok.simps by metis
  have evict: "spec_evict (max_size c) (cache_abs c) = map (entry_at c) ?kept"
    by (simp add: spec_evict_def cache_abs_def map_butlast)
  from new obtain as where as: "cache_addrs c' = as @ ?kept" "length as \<le> 1"
      "map (entry_at c') ?kept = map (entry_at c) ?kept"
  proof
    assume n: "(\<exists>a. cache_addrs c' = a # ?kept) \<and> cache_abs c' = spec_add (max_size c) now u (take (nat sz) d) (cache_abs c)"
    then obtain a where a: "cache_addrs c' = a # ?kept" by blast
    have "map (entry_at c') ?kept = map (entry_at c) ?kept"
      using n by (simp only: spec_add_def evict cache_abs_def [of c'] a list.map list.inject)
    with a that [of "[a]"] show thesis by simp
  next
    assume n: "cache_addrs c' = ?kept \<and> cache_abs c' = spec_evict (max_size c) (cache_abs c)"
    then have "map (entry_at c') ?kept = map (entry_at c) ?kept" by (metis cache_abs_def evict)
    with n that [of "[]"] show thesis by simp
  qed
  have l: "cache_addrs c' = (as @ ys) @ p # zs'" "length (as @ ys) \<le> Suc (length ys)"
    using as(1,2) by (simp_all only: kept append_assoc length_append)
  have "entry_at c' p = entry_at c p" using as(3) by (simp only: kept list.map map_append) simp
  then have "pointee c' p = pointee c p"
    using pointee_entry [OF i, of p] pointee_entry [OF c'(2), of p] addrs l(1) by simp
  moreover have "cache_call_step (CacheAdd ms now u d sz) c = Some c'" using c'(1) by (simp add: cache_call_step_def)
  ultimately show ?thesis using c'(2,3) l by blast
qed

lemma call_keeps_pointer:
  assumes i: "cache_inv c" and ok: "call_ok x" "\<forall>now. x \<noteq> CacheExpire now"
    and addrs: "cache_addrs c = ys @ p # zs" and room: "int (Suc (length ys)) < max_size c"
  shows "\<exists>c' ys' zs'. cache_call_step x c = Some c' \<and> cache_inv c' \<and> max_size c' = max_size c
     \<and> cache_addrs c' = ys' @ p # zs' \<and> length ys' \<le> Suc (length ys) \<and> pointee c' p = pointee c p"
proof (cases x)
  case (CacheGet now u)
  with get_call_keeps [OF i addrs] show ?thesis by simp
next
  case (CacheAdd ms now u d sz)
  show ?thesis
  proof (cases "0 < sz")
    case True
    with add_call_keeps [OF i addrs room] ok CacheAdd show ?thesis by simp
  next
    case False
    with i CacheAdd addrs show ?thesis
      by (intro exI [of _ c] exI [of _ ys] exI [of _ zs]) (simp add: cache_call_step_def cache_add_def)
  qed
qed (use ok in simp)

lemma calls_keep_pointer:
  assumes "cache_inv c" and "\<forall>x \<in> set xs. call_ok x \<and> (\<forall>now. x \<noteq> CacheExpire now)"
    and "cache_addrs c = ys @ p # zs" and "int (length ys + length xs) < max_size c"
  shows "\<exists>c'. run_ops cache_call_step xs c = Some c' \<and> cache_inv c' \<and> pointee c' p = pointee c p"
  using assms
proof (induction xs arbitrary: c ys zs)
  case (Cons x xs)
  from call_keeps_pointer [OF Cons.prems(1) _ _ Cons.prems(3), of x] Cons.prems(2,4) obtain c1 ys1 zs1 where
    c1: "cache_call_step x c = Some c1" "cache_inv c1" "max_size c1 = max_size c"
      "cache_addrs c1 = ys1 @ p # zs1" "length ys1 \<le> Suc (length ys)" "pointee c1 p = pointee c p" by auto
  from Cons.IH [OF c1(2) _ c1(4)] Cons.prems(2,4) c1(3,5) obtain c' where
    "run_ops cache_call_step xs c1 = Some c'" "cache_inv c'" "pointee c' p = pointee c1 p" by auto
  with c1 show ?case by simp
qed simp

lemma cache_get_hit_head:
  assumes "cache_inv c" and "cache_get now (Some c) (Some u) = Some (Some p, Some c1)"
  shows "cache_inv c1 \<and> max_size c1 = max_size c \<and> (\<exists>zs. cache_addrs c1 = p # zs)"
  using cache_get_ok [OF assms(1), of now u] assms(2) by auto

text \<open>The pointer a lookup returns is used after the mutex is released. It stays valid, with
  the bytes that were found, for the next \<open>max_size - 1\<close> calls of any client that are no expiry:
  insertions free only entries from the other end of the recency list.\<close>

theorem cached_pointer_valid:
  assumes "cache_inv c" and "cache_get now (Some c) (Some u) = Some (Some p, Some c1)"
    and "\<forall>x \<in> set xs. call_ok x \<and> (\<forall>now. x \<noteq> CacheExpire now)" and "int (length xs) < max_size c"
  shows "\<exists>c2 d. run_ops cache_call_step xs c1 = Some c2 \<and> map_option data (heap c1 p) = Some d
     \<and> map_option data (heap c2 p) = Some d"
proof -
  from cache_get_hit_head [OF assms(1,2)] obtain zs where c1: "cache_inv c1" "max_size c1 = max_size c"
      "cache_addrs c1 = [] @ p # zs" by auto
  from calls_keep_pointer [OF c1(1) assms(3) c1(3)] assms(4) c1(2) obtain c2 where
    "run_ops cache_call_step xs c1 = Some c2" "pointee c2 p = pointee c1 p" by auto
  with pointee_entry [OF c1(1), of p] c1(3) show ?thesis by (auto simp: pointee_def)
qed

theorem cached_pointer_valid_witness:
  "\<exists>c2. run_ops cache_call_step [CacheAdd (plain_mallocs 2) 6 ''/b'' ''text'' 4] (one_entry 2 0 ''/a'' ''body'' 2)
      = Some c2 \<and> map_option data (heap c2 0) = Some ''body''"
  using cached_pointer_valid [of "one_entry 2 0 ''/a'' ''body'' 1" 5 "''/a''" 0 "one_entry 2 0 ''/a'' ''body'' 2"
      "[CacheAdd (plain_mallocs 2) 6 ''/b'' ''text'' 4]"] one_entry_get [of 5 0 2 "''/a''" "''body''" 1]
  by (auto simp: CACHE_EXPIRY_TIME_def one_entry_def [of 2 0 "''/a''" "''body''" 2])

text \<open>A node that sees only insertions of others moves down one place at each.\<close>

lemma adds_push_down:
  assumes "cache_inv c"
    and "\<forall>x \<in> set xs. \<exists>ms now u d sz. x = CacheAdd ms now u d sz \<and> call_ok x \<and> 0 < sz
      \<and> memory_for (nat (max_size c)) ms \<and> (\<forall>h. malloc_node ms h \<noteq> Some p)"
    and "p \<notin> set (take k (cache_addrs c))"
  shows "\<exists>c'. run_ops cache_call_step xs c = Some c' \<and> cache_inv c' \<and> max_size c' = max_size c
     \<and> p \<notin> set (take (k + length xs) (cache_addrs c'))"
  using assms
proof (induction xs arbitrary: c k)
  case (Cons x xs)
  from Cons.prems(2) obtain ms now u d sz where x: "x = CacheAdd ms now u d sz" "call_ok x" "0 < sz"
      "memory_for (nat (max_size c)) ms" "\<forall>h. malloc_node ms h \<noteq> Some p" by auto
  let ?kept = "if max_size c \<le> int (length (cache_addrs c)) then butlast (cache_addrs c) else cache_addrs c"
  from cache_add_memory [OF Cons.prems(1) _ x(4,3), of d now u] x(1,2) obtain a c1 where c1:
      "cache_add ms now (Some c) (Some u) (Some d) sz = Some (0, Some c1)" "cache_inv c1" "max_size c1 = max_size c"
      "\<exists>h. malloc_node ms h = Some a" "cache_addrs c1 = a # ?kept" by auto
  have "set (take k ?kept) \<subseteq> set (take k (cache_addrs c))"
    by (auto simp: butlast_conv_take dest: in_set_takeD) (metis in_set_takeD min.commute take_take)
  with c1(4,5) x(5) Cons.prems(3) have "p \<notin> set (take (Suc k) (cache_addrs c1))" by auto
  from Cons.IH [OF c1(2) _ this] Cons.prems(2) c1(3) obtain c' where
    "run_ops cache_call_step xs c1 = Some c'" "cache_inv c'" "max_size c' = max_size c"
      "p \<notin> set (take (Suc k + length xs) (cache_addrs c'))" by auto
  moreover have "cache_call_step x c = Some c1" using c1(1) x(1) by (simp add: cache_call_step_def)
  ultimately show ?case by simp
qed simp

text \<open>C37. Nothing keeps a node alive that a lookup has returned: after \<open>max_size\<close> insertions by other
  clients, on an allocator that does not hand its address out again, it is freed and the pointer
  dangles. A client that still reads the response through it, as \<open>forward_request_to_server\<close> does
  after the mutex is released, uses freed memory.\<close>

theorem cached_pointer_dangles:
  assumes "cache_inv c" and "cache_get now (Some c) (Some u) = Some (Some p, Some c1)"
    and "int (length xs) = max_size c"
    and "\<forall>x \<in> set xs. \<exists>ms now u d sz. x = CacheAdd ms now u d sz \<and> call_ok x \<and> 0 < sz
      \<and> memory_for (nat (max_size c)) ms \<and> (\<forall>h. malloc_node ms h \<noteq> Some p)"
  shows "\<exists>c2. run_ops cache_call_step xs c1 = Some c2 \<and> deref (heap c2) (Some p) = None"
proof -
  from cache_get_hit_head [OF assms(1,2)] have c1: "cache_inv c1" "max_size c1 = max_size c" by auto
  from adds_push_down [OF c1(1), of xs p 0] assms(4) c1(2) obtain c2 where c2:
    "run_ops cache_call_step xs c1 = Some c2" "cache_inv c2" "max_size c2 = max_size c"
      "p \<notin> set (take (length xs) (cache_addrs c2))" by auto
  from cache_inv_repr [OF c2(2)] obtain chs where "cache_repr c2 (cache_addrs c2) chs" by blast
  then have "dom (heap c2) = set (cache_addrs c2)" "int (length (cache_addrs c2)) \<le> max_size c2"
    by (auto simp: cache_repr_def)
  with c2 assms(3) show ?thesis by (auto simp: domIff)
qed

theorem cached_pointer_dangles_witness:
  "\<exists>c2. run_ops cache_call_step
      [CacheAdd \<lparr>malloc_node = (\<lambda>h. if h 5 = None then Some 5 else None), malloc_url = True, malloc_data = True\<rparr>
        6 ''/b'' ''text'' 4] (one_entry 1 0 ''/a'' ''body'' 2) = Some c2 \<and> deref (heap c2) (Some 0) = None"
proof -
  let ?ms = "\<lparr>malloc_node = (\<lambda>h. if h 5 = None then Some 5 else None), malloc_url = True, malloc_data = True\<rparr>"
  have ms: "alloc_fresh (malloc_node ?ms)" "memory_for 1 ?ms" "\<forall>h. malloc_node ?ms h \<noteq> Some 0"
    by (auto simp: alloc_fresh_def memory_for_def mallocs_ok_def card_gt_0_iff split: if_splits)
  show ?thesis
    by (rule cached_pointer_dangles [of "one_entry 1 0 ''/a'' ''body'' 1" 5 "''/a''"])
      (use ms one_entry_get [of 5 0 1 "''/a''" "''body''" 1] in \<open>simp_all add: CACHE_EXPIRY_TIME_def\<close>)
qed

end
