(* ===== verification/Platform.thy ===== *)
theory Platform
  imports Proxy_Prelude "HOL-Library.Word"
begin

section \<open>The platform layer: what the program does to its sockets\<close>

text \<open>
  Models \<^verbatim>\<open>src/components/platform.c\<close>, the Unix half and, at the end, what the Windows half has
  besides: the state of Winsock. The operating system is outside the
  program: what its calls return is an argument of the definitions that make them, and what
  the program does to a socket is an event of a log, in the order of the calls. Descriptors
  are \<open>int\<close> as in \<open>socket_t\<close>; bytes are characters. The log lines on the terminal and
  \<open>errno\<close> are left out: no branch of the program reads them.
\<close>

type_synonym socket_t = int
type_synonym bytes = string
type_synonym ip = "32 word"

datatype sys_event =
    Sock_Connect int ip "16 word"
  | Sock_Send int bytes
  | Sock_Shutdown int
  | Sock_Close int

text \<open>\<open>socket_close\<close> is \<open>close\<close>, whose result every caller ignores.\<close>

definition socket_close :: "socket_t \<Rightarrow> sys_event list" where
  "socket_close sock = [Sock_Close sock]"

text \<open>The sockets closed and the bytes sent on one socket, in a log.\<close>

fun closed_socks :: "sys_event list \<Rightarrow> int list" where
  "closed_socks [] = []"
| "closed_socks (Sock_Close s # evs) = s # closed_socks evs"
| "closed_socks (_ # evs) = closed_socks evs"

fun sent_on :: "int \<Rightarrow> sys_event list \<Rightarrow> bytes" where
  "sent_on s [] = []"
| "sent_on s (Sock_Send t d # evs) = (if s = t then d @ sent_on s evs else sent_on s evs)"
| "sent_on s (_ # evs) = sent_on s evs"

lemma closed_socks_append [simp]: "closed_socks (xs @ ys) = closed_socks xs @ closed_socks ys"
  by (induction xs rule: closed_socks.induct) simp_all

lemma sent_on_append [simp]: "sent_on s (xs @ ys) = sent_on s xs @ sent_on s ys"
  by (induction xs rule: sent_on.induct) simp_all

lemma closed_socks_close [simp]: "closed_socks (socket_close s) = [s]"
  by (simp add: socket_close_def)

lemma sent_on_close [simp]: "sent_on t (socket_close s) = []"
  by (simp add: socket_close_def)

lemma closed_socks_map_close [simp]: "closed_socks (map Sock_Close ss) = ss"
  by (induction ss) simp_all

lemma sent_on_map_close [simp]: "sent_on t (map Sock_Close ss) = []"
  by (induction ss) simp_all

subsection \<open>Memory\<close>

text \<open>\<open>bzero\<close> and \<open>bcopy\<close> on a block of memory and offsets into it; \<open>None\<close> is an access outside the
  block. \<open>memset\<close> writes a byte, \<open>memmove\<close> copies a range as it was before, also onto itself.\<close>

definition memset_at :: "bytes \<Rightarrow> nat \<Rightarrow> char \<Rightarrow> nat \<Rightarrow> bytes option" where
  "memset_at mem s c n = (if length mem < s + n then None else Some (take s mem @ replicate n c @ drop (s + n) mem))"

definition memmove_at :: "bytes \<Rightarrow> nat \<Rightarrow> nat \<Rightarrow> nat \<Rightarrow> bytes option" where
  "memmove_at mem dest src n =
     (if length mem < dest + n \<or> length mem < src + n then None
      else Some (take dest mem @ take n (drop src mem) @ drop (dest + n) mem))"

definition bzero :: "bytes \<Rightarrow> nat \<Rightarrow> nat \<Rightarrow> bytes option" where
  "bzero mem s n = memset_at mem s CHR 0x00 n"

definition bcopy :: "bytes \<Rightarrow> nat \<Rightarrow> nat \<Rightarrow> nat \<Rightarrow> bytes option" where
  "bcopy mem src dest n = memmove_at mem dest src n"

lemma bzero_bytes:
  assumes "bzero mem s n = Some mem'"
  shows "length mem' = length mem \<and> (\<forall>i < length mem. mem' ! i = (if s \<le> i \<and> i < s + n then CHR 0x00 else mem ! i))"
  using assms by (auto simp: bzero_def memset_at_def nth_append split: if_splits)

lemma bcopy_bytes:
  assumes "bcopy mem src dest n = Some mem'"
  shows "length mem' = length mem
     \<and> (\<forall>i < length mem. mem' ! i = (if dest \<le> i \<and> i < dest + n then mem ! (src + (i - dest)) else mem ! i))"
  using assms by (auto simp: bcopy_def memmove_at_def nth_append split: if_splits)

subsection \<open>Windows: the state of Winsock\<close>

text \<open>\<open>winsock_initialized\<close> is a static variable; \<open>None\<close> is \<open>exit(1)\<close>. \<open>result\<close> is what \<open>WSAStartup\<close>
  returns. On Unix both functions only print.\<close>

datatype wsa_call = WSA_Startup | WSA_Cleanup

definition platform_init :: "int \<Rightarrow> int \<Rightarrow> (int \<times> wsa_call list) option" where
  "platform_init result winsock_initialized =
     (if winsock_initialized = 0
      then (if result \<noteq> 0 then None else Some (1, [WSA_Startup]))
      else Some (winsock_initialized, []))"

definition platform_cleanup :: "int \<Rightarrow> int \<times> wsa_call list" where
  "platform_cleanup winsock_initialized =
     (if winsock_initialized \<noteq> 0 then (0, [WSA_Cleanup]) else (winsock_initialized, []))"

text \<open>Any sequence of the two calls, \<open>Some result\<close> for an initialisation.\<close>

fun platform_calls :: "int option list \<Rightarrow> int \<Rightarrow> (int \<times> wsa_call list) option" where
  "platform_calls [] i = Some (i, [])"
| "platform_calls (c # cs) i =
     do {
       (i, xs) \<leftarrow> (case c of Some result \<Rightarrow> platform_init result i | None \<Rightarrow> Some (platform_cleanup i));
       (i, ys) \<leftarrow> platform_calls cs i;
       Some (i, xs @ ys)
     }"

text \<open>Strict alternation: a startup, a cleanup, and so on.\<close>

fun alternates :: "wsa_call \<Rightarrow> wsa_call list \<Rightarrow> bool" where
  "alternates c [] = True"
| "alternates c (x # xs) \<longleftrightarrow> x = c \<and> alternates (if c = WSA_Startup then WSA_Cleanup else WSA_Startup) xs"

lemma platform_calls_alternate:
  "platform_calls cs i = Some (j, xs) \<Longrightarrow> i \<in> {0, 1} \<Longrightarrow>
    j \<in> {0, 1} \<and> alternates (if i = 0 then WSA_Startup else WSA_Cleanup) xs
      \<and> int (count_list xs WSA_Startup) + i = int (count_list xs WSA_Cleanup) + j"
proof (induction cs arbitrary: i xs)
  case (Cons c cs)
  from Cons.prems(1) obtain i1 ys zs where s: "(case c of Some r \<Rightarrow> platform_init r i | None \<Rightarrow> Some (platform_cleanup i)) = Some (i1, ys)"
      "platform_calls cs i1 = Some (j, zs)" "xs = ys @ zs" by (auto simp: bind_eq_Some_conv)
  then have "i1 = i \<and> ys = [] \<or> i = 0 \<and> i1 = 1 \<and> ys = [WSA_Startup] \<or> i = 1 \<and> i1 = 0 \<and> ys = [WSA_Cleanup]"
    using Cons.prems(2) by (auto simp: platform_init_def platform_cleanup_def split: option.splits if_splits)
  then show ?case using Cons.IH [OF s(2)] s(3) Cons.prems(2) by auto
qed simp

end
