(* ===== verification/Connection_Pool.thy ===== *)
theory Connection_Pool
  imports Platform
begin

section \<open>The connection pool: data and operations\<close>

text \<open>
  Models \<^verbatim>\<open>include/proxy/connection_pool.h\<close> and \<^verbatim>\<open>src/components/connection_pool.c\<close>. The
  array of \<open>MAX_POOL_SIZE\<close> entries is a list of that length; a loop over it is a recursion
  over the list. \<open>host\<close> is the string in the \<open>char[256]\<close> buffer. Each operation returns the
  new pool and the events it causes; its accesses to the pool are made under \<open>pool_mutex\<close>, so
  it is one atomic step, and the part of \<open>connection_pool_get\<close> after the unlock does not touch
  the pool. \<open>time(NULL)\<close> is the argument \<open>now\<close>.
\<close>

definition MAX_POOL_SIZE :: nat where
  [consts_defs]: "MAX_POOL_SIZE = 20"

definition CONNECTION_TIMEOUT :: int where
  [consts_defs]: "CONNECTION_TIMEOUT = 30"

record pool_entry =
  socket_fd :: int
  conn_host :: string
  conn_port :: int
  last_used :: int
  in_use :: int

record connection_pool =
  connections :: "pool_entry list"
  pool_size :: int

text \<open>An entry after \<open>memset\<close> to 0 and \<open>socket_fd = -1\<close>.\<close>

definition empty_slot :: pool_entry where
  "empty_slot = \<lparr>socket_fd = - 1, conn_host = [], conn_port = 0, last_used = 0, in_use = 0\<rparr>"

definition connection_pool_create :: "bool \<Rightarrow> bool \<Rightarrow> int \<Rightarrow> connection_pool option" where
  "connection_pool_create malloc_pool mutex_init max_sz =
     (if \<not> malloc_pool then None
      else if \<not> mutex_init then None
      else Some \<lparr>connections = replicate MAX_POOL_SIZE empty_slot, pool_size = 0\<rparr>)"

subsection \<open>New connections\<close>

text \<open>What \<open>socket\<close>, \<open>gethostbyname\<close> and \<open>connect\<close> return. \<open>htons\<close> keeps 16 bits of the port.\<close>

record os_net =
  os_socket :: int
  os_resolve :: "string \<Rightarrow> ip option"
  os_connect :: "int \<Rightarrow> ip \<Rightarrow> 16 word \<Rightarrow> int"

definition create_persistent_connection :: "os_net \<Rightarrow> string \<Rightarrow> int \<Rightarrow> int \<times> sys_event list" where
  "create_persistent_connection os host_address port_number =
     (let remote_socket = os_socket os in
      if remote_socket < 0 then (- 1, [])
      else case os_resolve os host_address of
        None \<Rightarrow> (- 1, socket_close remote_socket)
      | Some a \<Rightarrow>
          (if os_connect os remote_socket a (word_of_int port_number) < 0
           then (- 1, socket_close remote_socket)
           else (remote_socket, [Sock_Connect remote_socket a (word_of_int port_number)])))"

subsection \<open>Taking a connection\<close>

definition idle_for :: "string \<Rightarrow> int \<Rightarrow> pool_entry \<Rightarrow> bool" where
  "idle_for host port conn \<longleftrightarrow>
     0 < socket_fd conn \<and> in_use conn = 0 \<and> conn_host conn = host \<and> conn_port conn = port"

text \<open>
  The loop: the socket to reuse if there is one, the entries, and the sockets of the timed out
  entries that were passed before it, which are closed and leave the pool.
\<close>

fun pool_get_loop ::
    "int \<Rightarrow> string \<Rightarrow> int \<Rightarrow> pool_entry list \<Rightarrow> int option \<times> pool_entry list \<times> int list" where
  "pool_get_loop now host port [] = (None, [], [])"
| "pool_get_loop now host port (conn # cs) =
     (if idle_for host port conn then
        (if now - last_used conn < CONNECTION_TIMEOUT
         then (Some (socket_fd conn), conn\<lparr>in_use := 1, last_used := now\<rparr> # cs, [])
         else (case pool_get_loop now host port cs of
            (r, cs', closed) \<Rightarrow> (r, empty_slot # cs', socket_fd conn # closed)))
      else (case pool_get_loop now host port cs of
         (r, cs', closed) \<Rightarrow> (r, conn # cs', closed)))"

definition pool_get_locked ::
    "int \<Rightarrow> string \<Rightarrow> int \<Rightarrow> connection_pool \<Rightarrow> int option \<times> connection_pool \<times> sys_event list" where
  "pool_get_locked now host port pool =
     (case pool_get_loop now host port (connections pool) of
        (r, cs, closed) \<Rightarrow>
          (r, pool\<lparr>connections := cs, pool_size := pool_size pool - int (length closed)\<rparr>,
           map Sock_Close closed))"

definition connection_pool_get ::
    "os_net \<Rightarrow> int \<Rightarrow> connection_pool option \<Rightarrow> string option \<Rightarrow> int
      \<Rightarrow> int \<times> connection_pool option \<times> sys_event list" where
  "connection_pool_get os now pool host port =
     (case (pool, host) of
        (Some pl, Some h) \<Rightarrow>
          (case pool_get_locked now h port pl of
             (Some fd, pl', evs) \<Rightarrow> (fd, Some pl', evs)
           | (None, pl', evs) \<Rightarrow>
               (case create_persistent_connection os h port of
                  (new_socket, evs') \<Rightarrow> (new_socket, Some pl', evs @ evs')))
      | _ \<Rightarrow> (- 1, pool, []))"

subsection \<open>Returning a connection\<close>

fun pool_mark_idle :: "int \<Rightarrow> int \<Rightarrow> pool_entry list \<Rightarrow> pool_entry list option" where
  "pool_mark_idle now fd [] = None"
| "pool_mark_idle now fd (conn # cs) =
     (if socket_fd conn = fd then Some (conn\<lparr>in_use := 0, last_used := now\<rparr> # cs)
      else map_option (\<lambda>cs'. conn # cs') (pool_mark_idle now fd cs))"

fun pool_store :: "int \<Rightarrow> int \<Rightarrow> string \<Rightarrow> int \<Rightarrow> pool_entry list \<Rightarrow> pool_entry list option" where
  "pool_store now fd host port [] = None"
| "pool_store now fd host port (conn # cs) =
     (if socket_fd conn \<le> 0
      then Some (\<lparr>socket_fd = fd, conn_host = take 255 host, conn_port = port, last_used = now, in_use = 0\<rparr> # cs)
      else map_option (\<lambda>cs'. conn # cs') (pool_store now fd host port cs))"

definition pool_return_locked ::
    "int \<Rightarrow> int \<Rightarrow> string \<Rightarrow> int \<Rightarrow> int \<Rightarrow> connection_pool \<Rightarrow> connection_pool \<times> sys_event list" where
  "pool_return_locked now fd host port keep_alive pool =
     (if keep_alive = 0 then (pool, socket_close fd)
      else case pool_mark_idle now fd (connections pool) of
        Some cs \<Rightarrow> (pool\<lparr>connections := cs\<rparr>, [])
      | None \<Rightarrow>
          (case pool_store now fd host port (connections pool) of
             Some cs \<Rightarrow> (pool\<lparr>connections := cs, pool_size := pool_size pool + 1\<rparr>, [])
           | None \<Rightarrow> (pool, socket_close fd)))"

definition connection_pool_return ::
    "int \<Rightarrow> connection_pool option \<Rightarrow> int \<Rightarrow> string option \<Rightarrow> int \<Rightarrow> int
      \<Rightarrow> connection_pool option \<times> sys_event list" where
  "connection_pool_return now pool fd host port keep_alive =
     (case (pool, host) of
        (Some pl, Some h) \<Rightarrow>
          (if fd \<le> 0 then (pool, [])
           else case pool_return_locked now fd h port keep_alive pl of (pl', evs) \<Rightarrow> (Some pl', evs))
      | _ \<Rightarrow> (pool, []))"

subsection \<open>Cleanup and destruction\<close>

definition timed_out :: "int \<Rightarrow> pool_entry \<Rightarrow> bool" where
  "timed_out now conn \<longleftrightarrow>
     0 < socket_fd conn \<and> in_use conn = 0 \<and> CONNECTION_TIMEOUT \<le> now - last_used conn"

fun pool_cleanup_loop :: "int \<Rightarrow> pool_entry list \<Rightarrow> pool_entry list \<times> int list" where
  "pool_cleanup_loop now [] = ([], [])"
| "pool_cleanup_loop now (conn # cs) =
     (case pool_cleanup_loop now cs of (cs', closed) \<Rightarrow>
        (if timed_out now conn then (empty_slot # cs', socket_fd conn # closed) else (conn # cs', closed)))"

definition connection_pool_cleanup ::
    "int \<Rightarrow> connection_pool option \<Rightarrow> connection_pool option \<times> sys_event list" where
  "connection_pool_cleanup now pool =
     (case pool of None \<Rightarrow> (None, [])
      | Some pl \<Rightarrow>
          (case pool_cleanup_loop now (connections pl) of (cs, closed) \<Rightarrow>
             (Some (pl\<lparr>connections := cs, pool_size := pool_size pl - int (length closed)\<rparr>),
              map Sock_Close closed)))"

text \<open>The pool is freed at the end; only the events are left.\<close>

definition connection_pool_destroy :: "connection_pool option \<Rightarrow> sys_event list" where
  "connection_pool_destroy pool =
     (case pool of None \<Rightarrow> []
      | Some pl \<Rightarrow> map Sock_Close (filter (\<lambda>fd. 0 < fd) (map socket_fd (connections pl))))"

end
