(* ===== verification/Pool_Contract.thy ===== *)
theory Pool_Contract
  imports Connection_Pool "HOL-Library.Multiset"
begin

section \<open>The connection pool as its clients see it\<close>

text \<open>
  An abstract view of a pool of sockets: the multiset of idle connections and the multiset of
  those that are lent out but keep their slot, each a descriptor with the host and port it is
  filed under. The locale \<open>socket_pool\<close> states what taking and giving back promise about
  them, and what follows for clients that only close connections through the pool; the
  interpretation \<open>cp\<close> discharges it for the code's pool.
\<close>

type_synonym conn = "int \<times> string \<times> int"

definition fds_unique :: "conn multiset \<Rightarrow> bool" where
  "fds_unique M \<longleftrightarrow> (\<forall>fd. count (image_mset fst M) fd \<le> 1)"

lemma fds_unique_mono: "fds_unique M \<Longrightarrow> N \<subseteq># M \<Longrightarrow> fds_unique N"
  unfolding fds_unique_def by (meson image_mset_subseteq_mono le_trans mset_subset_eq_count)

lemma fds_unique_add:
  "fds_unique (add_mset x M) \<longleftrightarrow> fst x \<notin> fst ` set_mset M \<and> fds_unique M"
proof -
  have "count (image_mset fst M) (fst x) = 0 \<longleftrightarrow> fst x \<notin> fst ` set_mset M"
    by (auto simp: count_eq_zero_iff)
  then show ?thesis unfolding fds_unique_def by (auto simp: le_Suc_eq)
qed

lemma fds_unique_disjoint:
  "fds_unique (M + N) \<Longrightarrow> x \<in># M \<Longrightarrow> y \<in># N \<Longrightarrow> fst x \<noteq> fst y"
  by (metis fds_unique_add image_eqI insert_DiffM2 mset_add union_iff union_mset_add_mset_left)

lemma fds_unique_apart:
  assumes "fds_unique (M + mset (map (\<lambda>fd. (fd, k)) closed))" and "x \<in># M"
  shows "fst x \<notin> set closed"
proof
  assume "fst x \<in> set closed"
  then have "(fst x, k) \<in># mset (map (\<lambda>fd. (fd, k)) closed)" by simp
  from fds_unique_disjoint [OF assms this] show False by simp
qed

subsection \<open>What is connected where\<close>

text \<open>
  The operating system's side: the peer every open socket is connected to. \<open>lent\<close> are the
  connections the clients hold. The two views agree when every idle or lent connection really
  goes where it is filed, no descriptor is idle or lent twice, and a slot that is in use
  belongs to a client.
\<close>

type_synonym peers = "int \<Rightarrow> (string \<times> int) option"

definition close_peers :: "int list \<Rightarrow> peers \<Rightarrow> peers" where
  "close_peers fds ps = (\<lambda>fd. if fd \<in> set fds then None else ps fd)"

definition socks_agree :: "conn multiset \<Rightarrow> conn multiset \<Rightarrow> conn multiset \<Rightarrow> peers \<Rightarrow> bool" where
  "socks_agree idle busy lent ps \<longleftrightarrow>
     (\<forall>x \<in># idle + lent. ps (fst x) = Some (snd x)) \<and> busy \<subseteq># lent \<and> fds_unique (idle + lent)"

lemma socks_agree_peer: "socks_agree i b l ps \<Longrightarrow> x \<in># i + l \<Longrightarrow> ps (fst x) = Some (snd x)"
  by (simp add: socks_agree_def)

lemma socks_agreeI:
  assumes "\<And>x. x \<in># i + l \<Longrightarrow> ps (fst x) = Some (snd x) \<and> fst x \<notin> set fds"
    and "b \<subseteq># l" and "fds_unique (i + l)"
  shows "socks_agree i b l (close_peers fds ps)"
  using assms unfolding socks_agree_def close_peers_def by auto

lemma drop_idle:
  assumes a: "socks_agree (i + C) b l ps" and c: "set closed = fst ` set_mset C"
  shows "socks_agree i b l (close_peers closed ps)"
proof (rule socks_agreeI)
  have u: "fds_unique (i + l + C)" using a by (simp add: socks_agree_def ac_simps)
  then show "fds_unique (i + l)" by (rule fds_unique_mono) simp
  fix x assume x: "x \<in># i + l"
  with fds_unique_disjoint [OF u x] socks_agree_peer [OF a, of x] c
  show "ps (fst x) = Some (snd x) \<and> fst x \<notin> set closed" by auto
qed (use a in \<open>simp add: socks_agree_def\<close>)

lemma close_peers_Nil [simp]: "close_peers [] ps = ps"
  by (simp add: close_peers_def)

locale socket_pool =
  fixes take_conn :: "int \<Rightarrow> string \<Rightarrow> int \<Rightarrow> 'p \<Rightarrow> int option \<times> 'p \<times> sys_event list"
    and give_conn :: "int \<Rightarrow> int \<Rightarrow> string \<Rightarrow> int \<Rightarrow> 'p \<Rightarrow> 'p \<times> sys_event list"
    and sweep :: "int \<Rightarrow> 'p \<Rightarrow> 'p \<times> sys_event list"
    and pool_wf :: "'p \<Rightarrow> bool"
    and idle :: "'p \<Rightarrow> conn multiset"
    and busy :: "'p \<Rightarrow> conn multiset"
  assumes take_ok: "pool_wf p \<Longrightarrow> take_conn now h pt p = (r, p', evs) \<Longrightarrow>
      pool_wf p' \<and> (\<exists>closed. evs = map Sock_Close closed
        \<and> idle p = idle p' + mset (map (\<lambda>fd. (fd, h, pt)) closed)
             + (case r of None \<Rightarrow> {#} | Some fd \<Rightarrow> {#(fd, h, pt)#})
        \<and> busy p' = busy p + (case r of None \<Rightarrow> {#} | Some fd \<Rightarrow> {#(fd, h, pt)#}))"
    and give_ok: "pool_wf p \<Longrightarrow> 0 < fd \<Longrightarrow> length h \<le> 255 \<Longrightarrow> fd \<notin> fst ` set_mset (idle p) \<Longrightarrow>
      give_conn now fd h pt p = (p', evs) \<Longrightarrow>
      pool_wf p' \<and>
      (if fd \<in> fst ` set_mset (busy p)
       then \<exists>k. (fd, k) \<in># busy p \<and> idle p' = add_mset (fd, k) (idle p) \<and> busy p' = busy p - {#(fd, k)#} \<and> evs = []
       else busy p' = busy p \<and> (idle p' = add_mset (fd, h, pt) (idle p) \<and> evs = []
              \<or> idle p' = idle p \<and> evs = [Sock_Close fd]))"
    and sweep_ok: "pool_wf p \<Longrightarrow> sweep now p = (p', evs) \<Longrightarrow>
      pool_wf p' \<and> (\<exists>cs. evs = map (Sock_Close \<circ> fst) cs \<and> idle p = idle p' + mset cs) \<and> busy p' = busy p"
begin

text \<open>A reused socket is connected to the host and port that were asked for, and nobody else has it.\<close>

lemma take_hit:
  assumes "pool_wf p" and a: "socks_agree (idle p) (busy p) lent ps"
    and t: "take_conn now h pt p = (Some fd, p', evs)"
  shows "pool_wf p' \<and> ps fd = Some (h, pt) \<and> fd \<notin> fst ` set_mset lent \<and> fd \<notin> set (closed_socks evs)
     \<and> socks_agree (idle p') (busy p') (add_mset (fd, h, pt) lent) (close_peers (closed_socks evs) ps)"
proof -
  let ?filed = "\<lambda>closed. mset (map (\<lambda>fd. (fd, h, pt)) closed)"
  from take_ok [OF assms(1) t, unfolded option.case] obtain closed where c: "pool_wf p'"
      "evs = map Sock_Close closed" "idle p = idle p' + ?filed closed + {#(fd, h, pt)#}"
      "busy p' = busy p + {#(fd, h, pt)#}" by blast
  let ?gone = "?filed closed"
  have u: "fds_unique (add_mset (fd, h, pt) (idle p' + ?gone + lent))"
    using a c(3) by (simp add: socks_agree_def)
  have "fds_unique (add_mset (fd, h, pt) (idle p' + lent) + ?gone)" using u by (simp add: ac_simps)
  note apart = fds_unique_apart [OF this]
  have "fds_unique (add_mset (fd, h, pt) (idle p' + lent))"
    by (rule fds_unique_mono [OF u]) (simp add: ac_simps)
  then have "socks_agree (idle p') (busy p') (add_mset (fd, h, pt) lent) (close_peers closed ps)"
  proof (intro socks_agreeI)
    fix x assume x: "x \<in># idle p' + add_mset (fd, h, pt) lent"
    then have "x \<in># idle p + lent" using c(3) by auto
    from socks_agree_peer [OF a this] apart x show "ps (fst x) = Some (snd x) \<and> fst x \<notin> set closed" by auto
  qed (use a c(4) in \<open>simp_all add: socks_agree_def\<close>)
  moreover have "fd \<notin> fst ` set_mset lent" using u fds_unique_add by (auto simp: image_Un)
  moreover have "ps fd = Some (h, pt)" using socks_agree_peer [OF a, of "(fd, h, pt)"] c(3) by simp
  ultimately show ?thesis using c(1,2) apart [of "(fd, h, pt)"] by simp
qed

lemma take_miss:
  assumes "pool_wf p" and "socks_agree (idle p) (busy p) lent ps"
    and "take_conn now h pt p = (None, p', evs)"
  shows "pool_wf p' \<and> socks_agree (idle p') (busy p') lent (close_peers (closed_socks evs) ps)"
proof -
  from take_ok [OF assms(1,3)] obtain closed where c: "pool_wf p'" "evs = map Sock_Close closed"
      "idle p = idle p' + mset (map (\<lambda>fd. (fd, h, pt)) closed)" "busy p' = busy p" by auto
  with assms(2) drop_idle [of "idle p'" "mset (map (\<lambda>fd. (fd, h, pt)) closed)" _ _ _ closed] show ?thesis
    by (simp add: image_image)
qed

lemma sweep_agree:
  assumes "pool_wf p" and "socks_agree (idle p) (busy p) lent ps" and "sweep now p = (p', evs)"
  shows "pool_wf p' \<and> socks_agree (idle p') (busy p') lent (close_peers (closed_socks evs) ps)"
proof -
  from sweep_ok [OF assms(1,3)] obtain cs where "pool_wf p'" "evs = map (Sock_Close \<circ> fst) cs"
      "idle p = idle p' + mset cs" "busy p' = busy p" by blast
  with assms(2) drop_idle [of "idle p'" "mset cs" _ _ _ "map fst cs"] show ?thesis
    by (simp flip: map_map)
qed

lemma open_new:
  assumes "socks_agree (idle p) (busy p) lent ps" and "ps fd = None"
  shows "socks_agree (idle p) (busy p) (add_mset (fd, h, pt) lent) (ps(fd \<mapsto> (h, pt)))"
proof -
  have other: "fst x \<noteq> fd" if "x \<in># idle p + lent" for x
    using socks_agree_peer [OF assms(1) that] assms(2) by auto
  then have "fds_unique (add_mset (fd, h, pt) (idle p + lent))"
    unfolding fds_unique_add using assms(1) by (auto simp: socks_agree_def)
  moreover have "busy p \<subseteq># add_mset (fd, h, pt) lent"
    using assms(1) by (auto simp: socks_agree_def intro: subset_mset.trans)
  ultimately show ?thesis using assms(1) other unfolding socks_agree_def by auto
qed

lemma give_back:
  assumes "pool_wf p" and a: "socks_agree (idle p) (busy p) lent ps"
    and x: "(fd, h, pt) \<in># lent" and "0 < fd" and "length h \<le> 255" and g: "give_conn now fd h pt p = (p', evs)"
  shows "pool_wf p' \<and> socks_agree (idle p') (busy p') (lent - {#(fd, h, pt)#}) (close_peers (closed_socks evs) ps)"
proof -
  obtain lent' where l: "lent = add_mset (fd, h, pt) lent'" using x by (blast dest: multi_member_split)
  from a have u: "fds_unique (add_mset (fd, h, pt) (idle p + lent'))" by (simp add: socks_agree_def l)
  then have fresh: "fd \<notin> fst ` set_mset (idle p)" "fd \<notin> fst ` set_mset lent'" "fds_unique (idle p + lent')"
    by (auto simp: fds_unique_add image_Un)
  note g' = give_ok [OF assms(1,4,5) fresh(1) g]
  show ?thesis
  proof (cases "fd \<in> fst ` set_mset (busy p)")
    case True
    with g' obtain k where k: "(fd, k) \<in># busy p" "idle p' = add_mset (fd, k) (idle p)"
        "busy p' = busy p - {#(fd, k)#}" "evs = []" "pool_wf p'" by auto
    have "(fd, k) \<in># lent" using a k(1) by (auto simp: socks_agree_def dest: mset_subset_eqD)
    with fresh(2) l have "k = (h, pt)" by force
    with a k l show ?thesis
      by (auto simp: socks_agree_def subset_eq_diff_conv)
  next
    case False
    have "busy p \<subseteq># lent'"
    proof -
      have "(fd, h, pt) \<notin># busy p" using False by force
      moreover have "busy p \<subseteq># add_mset (fd, h, pt) lent'" using a l by (simp add: socks_agree_def)
      ultimately show ?thesis by (metis diff_single_trivial subset_eq_diff_conv add_mset_add_single)
    qed
    moreover have other: "ps (fst y) = Some (snd y) \<and> fst y \<notin> set [fd]" if "y \<in># idle p + lent'" for y
      using that fresh(1,2) socks_agree_peer [OF a, of y] l by auto
    moreover have "ps fd = Some (h, pt)" using socks_agree_peer [OF a x [THEN union_iff [THEN iffD2, OF disjI2]]] by simp
    ultimately have "socks_agree (idle p) (busy p) lent' (close_peers [fd] ps)"
      and "socks_agree (add_mset (fd, h, pt) (idle p)) (busy p) lent' ps"
      using u fresh(3) by (blast intro: socks_agreeI, unfold socks_agree_def, auto)
    with g' False l show ?thesis by auto
  qed
qed

end

subsection \<open>The code's pool implements the interface\<close>

definition conn_of :: "pool_entry \<Rightarrow> conn" where
  "conn_of conn = (socket_fd conn, conn_host conn, conn_port conn)"

definition idle_conns :: "pool_entry list \<Rightarrow> conn multiset" where
  "idle_conns cs = mset (map conn_of (filter (\<lambda>conn. 0 < socket_fd conn \<and> in_use conn = 0) cs))"

definition busy_conns :: "pool_entry list \<Rightarrow> conn multiset" where
  "busy_conns cs = mset (map conn_of (filter (\<lambda>conn. 0 < socket_fd conn \<and> in_use conn \<noteq> 0) cs))"

definition live_fds :: "pool_entry list \<Rightarrow> int list" where
  "live_fds cs = filter (\<lambda>fd. 0 < fd) (map socket_fd cs)"

definition hosts_fit :: "pool_entry list \<Rightarrow> bool" where
  "hosts_fit cs \<longleftrightarrow> (\<forall>conn \<in> set cs. length (conn_host conn) \<le> 255)"

definition pool_inv :: "connection_pool \<Rightarrow> bool" where
  "pool_inv pl \<longleftrightarrow> length (connections pl) = MAX_POOL_SIZE \<and> pool_size pl = int (length (live_fds (connections pl)))
     \<and> distinct (live_fds (connections pl)) \<and> hosts_fit (connections pl)"

lemma slot_views [simp]:
  "idle_conns [] = {#}" "busy_conns [] = {#}" "live_fds [] = []" "hosts_fit []"
  "idle_conns (conn # cs) =
     (if 0 < socket_fd conn \<and> in_use conn = 0 then add_mset (conn_of conn) (idle_conns cs) else idle_conns cs)"
  "busy_conns (conn # cs) =
     (if 0 < socket_fd conn \<and> in_use conn \<noteq> 0 then add_mset (conn_of conn) (busy_conns cs) else busy_conns cs)"
  "live_fds (conn # cs) = (if 0 < socket_fd conn then socket_fd conn # live_fds cs else live_fds cs)"
  "hosts_fit (conn # cs) \<longleftrightarrow> length (conn_host conn) \<le> 255 \<and> hosts_fit cs"
  by (simp_all add: idle_conns_def busy_conns_def live_fds_def hosts_fit_def)

lemma empty_slot_simps [simp]:
  "socket_fd empty_slot = - 1" "in_use empty_slot = 0" "conn_host empty_slot = []"
  by (simp_all add: empty_slot_def)

lemma conn_of_in_use [simp]: "conn_of (conn\<lparr>in_use := v, last_used := t\<rparr>) = conn_of conn"
  by (simp add: conn_of_def)

lemma live_fds_conns: "fd \<in> set (live_fds cs) \<longleftrightarrow> fd \<in> fst ` set_mset (idle_conns cs) \<or> fd \<in> fst ` set_mset (busy_conns cs)"
  by (induction cs) (auto simp: conn_of_def)

lemma pool_get_loop_ok:
  "pool_get_loop now h pt cs = (r, cs', closed) \<Longrightarrow>
    length cs' = length cs \<and> mset (live_fds cs) = mset (live_fds cs' @ closed) \<and> (hosts_fit cs \<longrightarrow> hosts_fit cs')
    \<and> idle_conns cs = idle_conns cs' + mset (map (\<lambda>fd. (fd, h, pt)) closed)
        + (case r of None \<Rightarrow> {#} | Some fd \<Rightarrow> {#(fd, h, pt)#})
    \<and> busy_conns cs' = busy_conns cs + (case r of None \<Rightarrow> {#} | Some fd \<Rightarrow> {#(fd, h, pt)#})"
proof (induction now h pt cs arbitrary: r cs' closed rule: pool_get_loop.induct)
  case (2 now h pt conn cs)
  then show ?case
    by (cases "pool_get_loop now h pt cs") (auto simp: idle_for_def conn_of_def split: if_splits)
qed simp

lemma pool_mark_idle_ok:
  "pool_mark_idle now fd cs = Some cs' \<Longrightarrow> 0 < fd \<Longrightarrow> fd \<notin> fst ` set_mset (idle_conns cs) \<Longrightarrow>
    length cs' = length cs \<and> live_fds cs' = live_fds cs \<and> (hosts_fit cs \<longrightarrow> hosts_fit cs') \<and>
    (\<exists>k. (fd, k) \<in># busy_conns cs \<and> idle_conns cs' = add_mset (fd, k) (idle_conns cs)
      \<and> busy_conns cs' = busy_conns cs - {#(fd, k)#})"
proof (induction now fd cs arbitrary: cs' rule: pool_mark_idle.induct)
  case (2 now fd conn cs)
  show ?case
  proof (cases "socket_fd conn = fd")
    case True
    with 2(2-) show ?thesis by (auto simp: conn_of_def split: if_splits)
  next
    case False
    with 2(2) obtain cs1 where cs1: "pool_mark_idle now fd cs = Some cs1" "cs' = conn # cs1" by auto
    from 2(1) [OF False cs1(1) 2(3)] 2(4) obtain k where
      "length cs1 = length cs \<and> live_fds cs1 = live_fds cs \<and> (hosts_fit cs \<longrightarrow> hosts_fit cs1)"
      "(fd, k) \<in># busy_conns cs" "idle_conns cs1 = add_mset (fd, k) (idle_conns cs)"
      "busy_conns cs1 = busy_conns cs - {#(fd, k)#}" by (auto split: if_splits)
    with cs1(2) False show ?thesis by (intro conjI exI [of _ k]) auto
  qed
qed simp

lemma pool_mark_idle_same:
  "pool_mark_idle now fd cs = Some cs' \<Longrightarrow>
    length cs' = length cs \<and> live_fds cs' = live_fds cs \<and> (hosts_fit cs \<longrightarrow> hosts_fit cs')"
  by (induction now fd cs arbitrary: cs' rule: pool_mark_idle.induct) (auto split: if_splits)

lemma pool_mark_idle_None: "pool_mark_idle now fd cs = None \<longleftrightarrow> fd \<notin> set (map socket_fd cs)"
  by (induction now fd cs rule: pool_mark_idle.induct) auto

lemma pool_store_ok:
  "pool_store now fd h pt cs = Some cs' \<Longrightarrow> 0 < fd \<Longrightarrow>
    length cs' = length cs \<and> mset (live_fds cs') = add_mset fd (mset (live_fds cs)) \<and> (hosts_fit cs \<longrightarrow> hosts_fit cs')
    \<and> idle_conns cs' = add_mset (fd, take 255 h, pt) (idle_conns cs) \<and> busy_conns cs' = busy_conns cs"
proof (induction now fd h pt cs arbitrary: cs' rule: pool_store.induct)
  case (2 now fd h pt conn cs)
  then show ?case by (auto simp: conn_of_def split: if_splits)
qed simp

lemma pool_store_None: "pool_store now fd h pt cs = None \<longleftrightarrow> (\<forall>conn \<in> set cs. 0 < socket_fd conn)"
  by (induction now fd h pt cs rule: pool_store.induct) auto

lemma pool_cleanup_loop_ok:
  "pool_cleanup_loop now cs = (cs', closed) \<Longrightarrow>
    length cs' = length cs \<and> mset (live_fds cs) = mset (live_fds cs' @ closed) \<and> (hosts_fit cs \<longrightarrow> hosts_fit cs')
    \<and> closed = map socket_fd (filter (timed_out now) cs)
    \<and> idle_conns cs = idle_conns cs' + mset (map conn_of (filter (timed_out now) cs))
    \<and> busy_conns cs' = busy_conns cs"
proof (induction now cs arbitrary: cs' closed rule: pool_cleanup_loop.induct)
  case (2 now conn cs)
  then show ?case
    by (cases "pool_cleanup_loop now cs") (auto simp: timed_out_def split: if_splits)
qed simp

lemma live_fds_part:
  assumes "mset (live_fds cs) = mset (live_fds cs' @ closed)" and "distinct (live_fds cs)"
  shows "distinct (live_fds cs') \<and> distinct closed \<and> set (live_fds cs') \<inter> set closed = {}
     \<and> int (length (live_fds cs')) = int (length (live_fds cs)) - int (length closed)"
  using mset_eq_imp_distinct_iff [OF assms(1)] assms mset_eq_length [OF assms(1)] by simp

definition code_sweep :: "int \<Rightarrow> connection_pool \<Rightarrow> connection_pool \<times> sys_event list" where
  "code_sweep now pl = (case pool_cleanup_loop now (connections pl) of (cs, closed) \<Rightarrow>
     (pl\<lparr>connections := cs, pool_size := pool_size pl - int (length closed)\<rparr>, map Sock_Close closed))"

lemma cleanup_sweep: "connection_pool_cleanup now (Some pl) = (case code_sweep now pl of (pl', evs) \<Rightarrow> (Some pl', evs))"
  by (simp add: connection_pool_cleanup_def code_sweep_def split: prod.split)

lemma code_take_ok:
  assumes "pool_inv p" and "pool_get_locked now h pt p = (r, p', evs)"
  shows "pool_inv p' \<and> (\<exists>closed. evs = map Sock_Close closed
     \<and> idle_conns (connections p) = idle_conns (connections p') + mset (map (\<lambda>fd. (fd, h, pt)) closed)
          + (case r of None \<Rightarrow> {#} | Some fd \<Rightarrow> {#(fd, h, pt)#})
     \<and> busy_conns (connections p') = busy_conns (connections p) + (case r of None \<Rightarrow> {#} | Some fd \<Rightarrow> {#(fd, h, pt)#}))"
proof -
  from assms(2) obtain cs closed where l: "pool_get_loop now h pt (connections p) = (r, cs, closed)"
      "p' = p\<lparr>connections := cs, pool_size := pool_size p - int (length closed)\<rparr>" "evs = map Sock_Close closed"
    by (auto simp: pool_get_locked_def split: prod.splits)
  note ok = pool_get_loop_ok [OF l(1)]
  with live_fds_part [of "connections p" cs closed] assms(1) l(2) have "pool_inv p'" by (simp add: pool_inv_def)
  with ok l(2,3) show ?thesis by (intro conjI exI [of _ closed]) simp_all
qed

lemma code_give_ok:
  assumes "pool_inv p" and "0 < fd" and "length h \<le> 255" and "fd \<notin> fst ` set_mset (idle_conns (connections p))"
    and "pool_return_locked now fd h pt 1 p = (p', evs)"
  shows "pool_inv p' \<and>
     (if fd \<in> fst ` set_mset (busy_conns (connections p))
      then \<exists>k. (fd, k) \<in># busy_conns (connections p)
        \<and> idle_conns (connections p') = add_mset (fd, k) (idle_conns (connections p))
        \<and> busy_conns (connections p') = busy_conns (connections p) - {#(fd, k)#} \<and> evs = []
      else busy_conns (connections p') = busy_conns (connections p)
        \<and> (idle_conns (connections p') = add_mset (fd, h, pt) (idle_conns (connections p)) \<and> evs = []
          \<or> idle_conns (connections p') = idle_conns (connections p) \<and> evs = [Sock_Close fd]))"
proof (cases "pool_mark_idle now fd (connections p)")
  case (Some cs)
  with assms(5) have p': "p' = p\<lparr>connections := cs\<rparr>" "evs = []" by (simp_all add: pool_return_locked_def)
  from pool_mark_idle_ok [OF Some assms(2,4)] obtain k where k: "(fd, k) \<in># busy_conns (connections p)"
      "idle_conns cs = add_mset (fd, k) (idle_conns (connections p))"
      "busy_conns cs = busy_conns (connections p) - {#(fd, k)#}"
      "length cs = length (connections p) \<and> live_fds cs = live_fds (connections p)
        \<and> (hosts_fit (connections p) \<longrightarrow> hosts_fit cs)" by blast
  have "fd \<in> fst ` set_mset (busy_conns (connections p))" using k(1) by force
  moreover have "pool_inv p'" using assms(1) k(4) p' by (simp add: pool_inv_def)
  moreover have "connections p' = cs" using p'(1) by simp
  ultimately show ?thesis using k(1-3) p'(2) by (simp del: split_paired_Ex)
next
  case None
  then have new: "fd \<notin> set (live_fds (connections p))" by (auto simp: pool_mark_idle_None live_fds_def)
  show ?thesis
  proof (cases "pool_store now fd h pt (connections p)")
    case None': (Some cs)
    with None assms(5) have p': "p' = p\<lparr>connections := cs, pool_size := pool_size p + 1\<rparr>" "evs = []"
      by (simp_all add: pool_return_locked_def)
    note st = pool_store_ok [OF None' assms(2)]
    then have "mset (live_fds cs) = mset (fd # live_fds (connections p))" by simp
    from mset_eq_imp_distinct_iff [OF this] mset_eq_length [OF this] new assms(1) st p'
    have "pool_inv p'" by (simp add: pool_inv_def)
    with new st p' assms(3) show ?thesis by (auto simp: live_fds_conns)
  next
    case None': None
    with None assms(5) have "p' = p" "evs = [Sock_Close fd]" by (simp_all add: pool_return_locked_def socket_close_def)
    with assms(1) new show ?thesis by (auto simp: live_fds_conns)
  qed
qed

text \<open>The invariant survives any return, also of a socket the pool has filed as idle.\<close>

lemma return_keeps_inv:
  assumes "pool_inv p" and "0 < fd" and "pool_return_locked now fd h pt ka p = (p', evs)"
  shows "pool_inv p'"
proof (cases "ka = 0 \<or> pool_mark_idle now fd (connections p) \<noteq> None")
  case True
  with assms pool_mark_idle_same [of now fd "connections p"] show ?thesis
    by (auto simp: pool_return_locked_def pool_inv_def split: if_splits)
next
  case False
  then have new: "fd \<notin> set (live_fds (connections p))" by (auto simp: pool_mark_idle_None live_fds_def)
  show ?thesis
  proof (cases "pool_store now fd h pt (connections p)")
    case (Some cs)
    note st = pool_store_ok [OF Some assms(2)]
    then have "mset (live_fds cs) = mset (fd # live_fds (connections p))" by simp
    from mset_eq_imp_distinct_iff [OF this] mset_eq_length [OF this] new assms(1,3) st False Some show ?thesis
      by (auto simp: pool_return_locked_def pool_inv_def)
  qed (use assms False in \<open>auto simp: pool_return_locked_def\<close>)
qed

lemma code_sweep_ok:
  assumes "pool_inv p" and "code_sweep now p = (p', evs)"
  shows "pool_inv p' \<and> (\<exists>cs. evs = map (Sock_Close \<circ> fst) cs \<and> idle_conns (connections p) = idle_conns (connections p') + mset cs)
     \<and> busy_conns (connections p') = busy_conns (connections p)"
proof -
  from assms(2) obtain cs closed where l: "pool_cleanup_loop now (connections p) = (cs, closed)"
      "p' = p\<lparr>connections := cs, pool_size := pool_size p - int (length closed)\<rparr>" "evs = map Sock_Close closed"
    by (auto simp: code_sweep_def split: prod.splits)
  note ok = pool_cleanup_loop_ok [OF l(1)]
  with live_fds_part [of "connections p" cs closed] assms(1) l(2) have "pool_inv p'" by (simp add: pool_inv_def)
  moreover have "evs = map (Sock_Close \<circ> fst) (map conn_of (filter (timed_out now) (connections p)))"
    using ok l(3) by (simp add: conn_of_def comp_def)
  ultimately show ?thesis using ok l(2)
    by (intro conjI exI [of _ "map conn_of (filter (timed_out now) (connections p))"]) simp_all
qed

interpretation cp: socket_pool pool_get_locked "\<lambda>now fd h pt. pool_return_locked now fd h pt 1" code_sweep
  pool_inv "\<lambda>p. idle_conns (connections p)" "\<lambda>p. busy_conns (connections p)"
  by unfold_locales (erule (1) code_take_ok, erule (4) code_give_ok, erule (1) code_sweep_ok)

end
