(* ===== verification/Pool_Properties.thy ===== *)
theory Pool_Properties
  imports Pool_Contract
begin

section \<open>Properties of the connection pool\<close>

text \<open>
  The pool with its clients as a state machine: \<open>ps_lent\<close> are the connections the worker
  threads hold, \<open>ps_peers\<close> is what the operating system has open. The flag of the reachability
  relation says whether a client may also close a connection behind the pool's back, which is
  what \<open>forward_request_to_server\<close> does when a send or a receive fails.
\<close>

record pool_sys =
  ps_pool :: connection_pool
  ps_lent :: "conn multiset"
  ps_peers :: peers

definition new_pool :: connection_pool where
  "new_pool = \<lparr>connections = replicate MAX_POOL_SIZE empty_slot, pool_size = 0\<rparr>"

text \<open>The descriptors the operating system hands out are positive and not open.\<close>

definition os_fresh :: "os_net \<Rightarrow> int \<Rightarrow> string \<Rightarrow> int \<Rightarrow> pool_sys \<Rightarrow> bool" where
  "os_fresh os now h pt s \<longleftrightarrow> os_socket os \<noteq> 0 \<and>
     (case pool_get_locked now h pt (ps_pool s) of
        (r, p, evs) \<Rightarrow> close_peers (closed_socks evs) (ps_peers s) (os_socket os) = None)"

text \<open>The peers of the open descriptors after some events, when a connection to the host and port \<open>k\<close>
  was asked for: a connection counts as one to \<open>k\<close> only if it was made to that port.\<close>

fun peers_after :: "string \<times> int \<Rightarrow> sys_event list \<Rightarrow> peers \<Rightarrow> peers" where
  "peers_after k [] ps = ps"
| "peers_after k (Sock_Close fd # evs) ps = peers_after k evs (ps(fd := None))"
| "peers_after k (Sock_Connect fd a p # evs) ps = peers_after k evs (ps(fd := if p = word_of_int (snd k) then Some k else None))"
| "peers_after k (_ # evs) ps = peers_after k evs ps"

inductive pool_reachable :: "bool \<Rightarrow> pool_sys \<Rightarrow> bool" for drops where
  pool_start: "pool_reachable drops \<lparr>ps_pool = new_pool, ps_lent = {#}, ps_peers = Map.empty\<rparr>"
| pool_get: "pool_reachable drops s \<Longrightarrow> os_fresh os now h pt s \<Longrightarrow>
    connection_pool_get os now (Some (ps_pool s)) (Some h) pt = (fd, Some p, evs) \<Longrightarrow>
    pool_reachable drops \<lparr>ps_pool = p, ps_lent = (if 0 \<le> fd then add_mset (fd, h, pt) (ps_lent s) else ps_lent s),
      ps_peers = peers_after (h, pt) evs (ps_peers s)\<rparr>"
| pool_return: "pool_reachable drops s \<Longrightarrow> (fd, h, pt) \<in># ps_lent s \<Longrightarrow> length h \<le> 255 \<Longrightarrow>
    connection_pool_return now (Some (ps_pool s)) fd (Some h) pt 1 = (Some p, evs) \<Longrightarrow>
    pool_reachable drops \<lparr>ps_pool = p, ps_lent = ps_lent s - {#(fd, h, pt)#},
      ps_peers = peers_after (h, pt) evs (ps_peers s)\<rparr>"
| pool_cleanup: "pool_reachable drops s \<Longrightarrow> connection_pool_cleanup now (Some (ps_pool s)) = (Some p, evs) \<Longrightarrow>
    pool_reachable drops (s\<lparr>ps_pool := p, ps_peers := peers_after k evs (ps_peers s)\<rparr>)"
| pool_drop: "drops \<Longrightarrow> pool_reachable drops s \<Longrightarrow> (fd, h, pt) \<in># ps_lent s \<Longrightarrow>
    pool_reachable drops (s\<lparr>ps_lent := ps_lent s - {#(fd, h, pt)#}, ps_peers := (ps_peers s)(fd := None)\<rparr>)"

definition pool_sys_ok :: "pool_sys \<Rightarrow> bool" where
  "pool_sys_ok s \<longleftrightarrow> pool_inv (ps_pool s) \<and> (\<forall>x \<in># ps_lent s. 0 < fst x) \<and>
     socks_agree (idle_conns (connections (ps_pool s))) (busy_conns (connections (ps_pool s))) (ps_lent s) (ps_peers s)"

lemma peers_after_append: "peers_after k (xs @ ys) ps = peers_after k ys (peers_after k xs ps)"
proof (induction xs arbitrary: ps)
  case (Cons e xs)
  then show ?case by (cases e) (simp_all del: fun_upd_apply)
qed simp

lemma peers_after_closes [simp]: "peers_after k (map Sock_Close fds) ps = close_peers fds ps"
  by (induction fds arbitrary: ps) (auto simp: close_peers_def fun_eq_iff)

lemma pool_get_locked_closes: "pool_get_locked now h pt p = (r, p', evs) \<Longrightarrow> evs = map Sock_Close (closed_socks evs)"
  by (auto simp: pool_get_locked_def split: prod.splits)

lemma get_step:
  assumes ok: "pool_sys_ok s" and f: "os_fresh os now h pt s"
    and g: "connection_pool_get os now (Some (ps_pool s)) (Some h) pt = (fd, Some p, evs)" and fd: "0 \<le> fd"
  shows "0 < fd \<and> peers_after (h, pt) evs (ps_peers s) fd = Some (h, pt) \<and> fd \<notin> fst ` set_mset (ps_lent s)
     \<and> pool_sys_ok \<lparr>ps_pool = p, ps_lent = add_mset (fd, h, pt) (ps_lent s), ps_peers = peers_after (h, pt) evs (ps_peers s)\<rparr>"
proof -
  obtain r p1 evs1 where t: "pool_get_locked now h pt (ps_pool s) = (r, p1, evs1)" by (cases rule: prod_cases3)
  have ps1: "peers_after (h, pt) evs1 ps = close_peers (closed_socks evs1) ps" for ps
    using pool_get_locked_closes [OF t] peers_after_closes by metis
  from ok have i: "pool_inv (ps_pool s)" and lent: "\<forall>x \<in># ps_lent s. 0 < fst x"
    and a: "socks_agree (idle_conns (connections (ps_pool s))) (busy_conns (connections (ps_pool s))) (ps_lent s) (ps_peers s)"
    by (simp_all add: pool_sys_ok_def)
  show ?thesis
  proof (cases r)
    case (Some fd')
    with t g have e: "fd' = fd" "p1 = p" "evs1 = evs" by (auto simp: connection_pool_get_def)
    have "0 < fd"
    proof -
      from pool_get_loop_ok t Some e(1) have "(fd, h, pt) \<in># idle_conns (connections (ps_pool s))"
        by (fastforce simp: pool_get_locked_def split: prod.splits)
      then show ?thesis by (auto simp: idle_conns_def conn_of_def)
    qed
    with cp.take_hit [OF i a t [unfolded Some e]] ps1 [unfolded e] lent show ?thesis
      by (auto simp: pool_sys_ok_def close_peers_def)
  next
    case None
    obtain evs2 where c: "create_persistent_connection os h pt = (fd, evs2)" "p1 = p" "evs = evs1 @ evs2"
      using t g None by (auto simp: connection_pool_get_def split: prod.splits)
    have new: "fd = os_socket os" "\<exists>x. evs2 = [Sock_Connect fd x (word_of_int pt)]" "0 < fd"
      using c(1) fd f by (auto simp: create_persistent_connection_def Let_def os_fresh_def split: if_splits option.splits)
    note m = cp.take_miss [OF i a t [unfolded None c(2)]]
    have free: "close_peers (closed_socks evs1) (ps_peers s) fd = None" using f t new(1) by (simp add: os_fresh_def)
    have ps: "peers_after (h, pt) evs (ps_peers s) = (close_peers (closed_socks evs1) (ps_peers s))(fd \<mapsto> (h, pt))"
      using new(2) by (auto simp: c(3) peers_after_append ps1)
    have "fd \<notin> fst ` set_mset (ps_lent s)"
      using socks_agree_peer [OF m [THEN conjunct2]] free by fastforce
    with cp.open_new [OF m [THEN conjunct2] free, of h pt] m new(3) lent show ?thesis
      by (auto simp: pool_sys_ok_def ps)
  qed
qed

lemma get_inv:
  assumes "pool_inv q" and "connection_pool_get os now (Some q) (Some h) pt = (fd, Some p, evs)"
  shows "pool_inv p"
proof -
  obtain r p1 evs1 where t: "pool_get_locked now h pt q = (r, p1, evs1)" by (cases rule: prod_cases3)
  with assms(2) have "p1 = p" by (auto simp: connection_pool_get_def split: option.splits prod.splits)
  with code_take_ok [OF assms(1) t] show ?thesis by simp
qed

lemma return_inv:
  assumes "pool_inv q" and "connection_pool_return now (Some q) fd (Some h) pt ka = (Some p, evs)"
  shows "pool_inv p"
  using assms return_keeps_inv [OF assms(1), of fd now h pt ka]
  by (auto simp: connection_pool_return_def split: if_splits prod.splits)

lemma cleanup_inv:
  assumes "pool_inv q" and "connection_pool_cleanup now (Some q) = (Some p, evs)"
  shows "pool_inv p"
  using assms code_sweep_ok [OF assms(1), of now] by (auto simp: cleanup_sweep split: prod.splits)

lemma new_pool_inv [simp]: "pool_inv new_pool"
  by (simp add: pool_inv_def new_pool_def MAX_POOL_SIZE_def numeral_eq_Suc)

lemma new_pool_conns [simp]:
  "idle_conns (connections new_pool) = {#}" "busy_conns (connections new_pool) = {#}"
  by (simp_all add: new_pool_def MAX_POOL_SIZE_def numeral_eq_Suc)

lemma get_failed_step:
  assumes ok: "pool_sys_ok s" and f: "os_fresh os now h pt s"
    and g: "connection_pool_get os now (Some (ps_pool s)) (Some h) pt = (fd, Some p, evs)" and fd: "fd < 0"
  shows "pool_sys_ok (s\<lparr>ps_pool := p, ps_peers := peers_after (h, pt) evs (ps_peers s)\<rparr>)"
proof -
  obtain r p1 evs1 where t: "pool_get_locked now h pt (ps_pool s) = (r, p1, evs1)" by (cases rule: prod_cases3)
  from ok have i: "pool_inv (ps_pool s)"
    and a: "socks_agree (idle_conns (connections (ps_pool s))) (busy_conns (connections (ps_pool s))) (ps_lent s) (ps_peers s)"
    by (simp_all add: pool_sys_ok_def)
  have r: "r = None"
  proof (rule ccontr)
    assume "r \<noteq> None"
    with t g have "connection_pool_get os now (Some (ps_pool s)) (Some h) pt = (fd, Some p1, evs1)" "r = Some fd"
      by (auto simp: connection_pool_get_def)
    with get_step [OF ok f, of "the r" p1 evs1] t have "(fd, h, pt) \<in># idle_conns (connections (ps_pool s))"
      by (auto simp: pool_get_locked_def split: prod.splits dest!: pool_get_loop_ok)
    with fd show False by (auto simp: idle_conns_def conn_of_def)
  qed
  obtain evs2 where c: "create_persistent_connection os h pt = (fd, evs2)" "p1 = p" "evs = evs1 @ evs2"
    using t g r by (auto simp: connection_pool_get_def split: prod.splits)
  have evs2: "evs2 = [] \<or> evs2 = [Sock_Close (os_socket os)]"
    using c(1) fd by (auto simp: create_persistent_connection_def Let_def socket_close_def split: if_splits option.splits)
  have free: "close_peers (closed_socks evs1) (ps_peers s) (os_socket os) = None" using f t by (simp add: os_fresh_def)
  then have "peers_after (h, pt) evs2 (close_peers (closed_socks evs1) (ps_peers s)) = close_peers (closed_socks evs1) (ps_peers s)"
    using evs2 by (auto simp: fun_upd_idem)
  moreover have "peers_after (h, pt) evs1 (ps_peers s) = close_peers (closed_socks evs1) (ps_peers s)"
    using pool_get_locked_closes [OF t] peers_after_closes by metis
  ultimately show ?thesis using cp.take_miss [OF i a t [unfolded r c(2)]] ok
    by (simp add: pool_sys_ok_def c(3) peers_after_append)
qed

lemma pool_reachable_ok: "pool_reachable False s \<Longrightarrow> pool_sys_ok s"
proof (induction rule: pool_reachable.induct)
  case pool_start
  show ?case by (simp add: pool_sys_ok_def socks_agree_def fds_unique_def)
next
  case (pool_get s os now h pt fd p evs)
  then show ?case
    using get_step [of s os now h pt fd p evs] get_failed_step [of s os now h pt fd p evs]
    by (cases "0 \<le> fd") (auto simp: pool_sys_ok_def)
next
  case (pool_return s fd h pt now p evs)
  then have i: "pool_inv (ps_pool s)" and fd: "0 < fd"
    and a: "socks_agree (idle_conns (connections (ps_pool s))) (busy_conns (connections (ps_pool s))) (ps_lent s) (ps_peers s)"
    by (auto simp: pool_sys_ok_def)
  from pool_return.hyps(4) fd obtain p1 where r: "pool_return_locked now fd h pt 1 (ps_pool s) = (p1, evs)" "p1 = p"
    by (auto simp: connection_pool_return_def split: prod.splits)
  have "evs = map Sock_Close (closed_socks evs)"
    using r(1) by (auto simp: pool_return_locked_def socket_close_def split: if_splits option.splits)
  then have "peers_after (h, pt) evs (ps_peers s) = close_peers (closed_socks evs) (ps_peers s)"
    using peers_after_closes by metis
  with cp.give_back [OF i a pool_return.hyps(2) fd pool_return.hyps(3) r(1)] r(2) pool_return.IH show ?case
    by (auto simp: pool_sys_ok_def dest: in_diffD)
next
  case (pool_cleanup s now p evs k)
  then obtain p1 where c: "code_sweep now (ps_pool s) = (p1, evs)" "p1 = p"
    by (auto simp: cleanup_sweep split: prod.splits)
  have "evs = map Sock_Close (closed_socks evs)"
    using c(1) by (auto simp: code_sweep_def split: prod.splits)
  then have "peers_after k evs (ps_peers s) = close_peers (closed_socks evs) (ps_peers s)"
    using peers_after_closes by metis
  with cp.sweep_agree [OF _ _ c(1)] c(2) pool_cleanup.IH show ?case by (auto simp: pool_sys_ok_def)
qed simp

lemma live_fds_le: "length (live_fds cs) \<le> length cs"
  using length_filter_le [of "\<lambda>fd. 0 < fd" "map socket_fd cs"] by (simp add: live_fds_def)

lemma pool_reachable_inv: "pool_reachable drops s \<Longrightarrow> pool_inv (ps_pool s)"
  by (induction rule: pool_reachable.induct) (auto intro: get_inv return_inv cleanup_inv)

subsection \<open>Counting\<close>

text \<open>C24. Whatever the clients do, the pool keeps at most 20 sockets, \<open>pool_size\<close> is their exact
  number and no socket occupies two slots.\<close>

theorem pool_size_exact:
  assumes "pool_reachable drops s"
  shows "length (connections (ps_pool s)) = 20
     \<and> pool_size (ps_pool s) = int (length (live_fds (connections (ps_pool s))))
     \<and> 0 \<le> pool_size (ps_pool s) \<and> pool_size (ps_pool s) \<le> 20 \<and> distinct (live_fds (connections (ps_pool s)))"
proof -
  have "length (live_fds cs) \<le> length cs" for cs
    by (rule live_fds_le)
  from this [of "connections (ps_pool s)"] pool_reachable_inv [OF assms] show ?thesis
    by (simp add: pool_inv_def MAX_POOL_SIZE_def)
qed

theorem pool_size_exact_witness:
  "pool_size (ps_pool \<lparr>ps_pool = new_pool, ps_lent = {#}, ps_peers = Map.empty\<rparr>) \<le> 20"
  using pool_size_exact [OF pool_start [of True]] by blast

subsection \<open>Taking and giving back\<close>

lemma pool_get_loop_eq:
  "pool_get_loop now h pt cs = (r, cs', closed) \<Longrightarrow>
    r = map_option socket_fd (find (\<lambda>c. idle_for h pt c \<and> now - last_used c < 30) cs)
    \<and> closed = map socket_fd (takeWhile (\<lambda>c. 30 \<le> now - last_used c) (filter (idle_for h pt) cs))"
proof (induction now h pt cs arbitrary: r cs' closed rule: pool_get_loop.induct)
  case (2 now h pt conn cs)
  then show ?case
    by (cases "pool_get_loop now h pt cs") (auto simp: CONNECTION_TIMEOUT_def split: if_splits)
qed simp

lemma pool_get_cases:
  "\<exists>p'. let matching = filter (idle_for h pt) (connections p);
            old = takeWhile (\<lambda>c. 30 \<le> now - last_used c) matching;
            hit = find (\<lambda>c. idle_for h pt c \<and> now - last_used c < 30) (connections p)
        in connection_pool_get os now (Some p) (Some h) pt =
             (case hit of
                Some c \<Rightarrow> (socket_fd c, Some p', map (Sock_Close \<circ> socket_fd) old)
              | None \<Rightarrow> (fst (create_persistent_connection os h pt), Some p',
                  map (Sock_Close \<circ> socket_fd) old @ snd (create_persistent_connection os h pt)))
           \<and> idle_conns (connections p) = idle_conns (connections p') + mset (map conn_of old)
               + (case hit of None \<Rightarrow> {#} | Some c \<Rightarrow> {#conn_of c#})
           \<and> busy_conns (connections p') = busy_conns (connections p)
               + (case hit of None \<Rightarrow> {#} | Some c \<Rightarrow> {#conn_of c#})"
proof -
  obtain r cs closed where l: "pool_get_loop now h pt (connections p) = (r, cs, closed)" by (cases rule: prod_cases3)
  let ?old = "takeWhile (\<lambda>c. 30 \<le> now - last_used c) (filter (idle_for h pt) (connections p))"
  let ?hit = "find (\<lambda>c. idle_for h pt c \<and> now - last_used c < 30) (connections p)"
  have old: "map (\<lambda>fd. (fd, h, pt)) (map socket_fd ?old) = map conn_of ?old"
    by (auto simp: conn_of_def idle_for_def dest!: set_takeWhileD)
  have hit: "idle_for h pt c" if "?hit = Some c" for c using that by (auto simp: find_Some_iff)
  let ?p' = "p\<lparr>connections := cs, pool_size := pool_size p - int (length closed)\<rparr>"
  have r: "r = map_option socket_fd ?hit" and closed: "closed = map socket_fd ?old"
    using pool_get_loop_eq [OF l] by blast+
  have get: "connection_pool_get os now (Some p) (Some h) pt = (case r of Some fd \<Rightarrow> (fd, Some ?p', map Sock_Close closed)
      | None \<Rightarrow> (fst (create_persistent_connection os h pt), Some ?p',
          map Sock_Close closed @ snd (create_persistent_connection os h pt)))"
    using l by (simp add: connection_pool_get_def pool_get_locked_def split: option.split prod.split)
  have eq: "connection_pool_get os now (Some p) (Some h) pt =
      (case ?hit of
         Some c \<Rightarrow> (socket_fd c, Some ?p', map (Sock_Close \<circ> socket_fd) ?old)
       | None \<Rightarrow> (fst (create_persistent_connection os h pt), Some ?p',
           map (Sock_Close \<circ> socket_fd) ?old @ snd (create_persistent_connection os h pt)))"
    unfolding get r closed map_map by (cases ?hit) simp_all
  have "(case r of None \<Rightarrow> {#} | Some fd \<Rightarrow> {#(fd, h, pt)#}) = (case ?hit of None \<Rightarrow> {#} | Some c \<Rightarrow> {#conn_of c#})"
    unfolding r by (cases ?hit) (use hit in \<open>simp_all add: conn_of_def idle_for_def\<close>)
  moreover have "mset (map (\<lambda>fd. (fd, h, pt)) closed) = mset (map conn_of ?old)"
    by (simp only: closed old)
  moreover have "connections ?p' = cs" by simp
  ultimately have "idle_conns (connections p) = idle_conns (connections ?p') + mset (map conn_of ?old)
        + (case ?hit of None \<Rightarrow> {#} | Some c \<Rightarrow> {#conn_of c#})"
    and "busy_conns (connections ?p') = busy_conns (connections p) + (case ?hit of None \<Rightarrow> {#} | Some c \<Rightarrow> {#conn_of c#})"
    using pool_get_loop_ok [OF l] by (simp_all only:)
  with eq show ?thesis unfolding Let_def by (intro exI [of _ ?p'] conjI)
qed

lemma find_filter: "find P (filter Q xs) = find (\<lambda>x. Q x \<and> P x) xs"
  by (induction xs) simp_all

text \<open>C22. A lookup reuses the first slot that holds a positive descriptor, is not in use, is filed under
  the host and the port asked for and was used less than 30 seconds ago; of the slots that match
  but are older it closes those before that one, and all of them when there is none to reuse. Only
  then it opens a new connection, to the address the host resolves to and to that port, and a
  socket that cannot be connected is closed. Nothing else in the pool changes hands.\<close>

theorem connection_pool_get_correct:
  "\<exists>p'. let matching = filter (\<lambda>c. 0 < socket_fd c \<and> in_use c = 0 \<and> conn_host c = h \<and> conn_port c = pt) (connections p);
            old = takeWhile (\<lambda>c. 30 \<le> now - last_used c) matching;
            hit = find (\<lambda>c. now - last_used c < 30) matching;
            new = os_socket os
        in connection_pool_get os now (Some p) (Some h) pt =
             (case hit of
                Some c \<Rightarrow> (socket_fd c, Some p', map (Sock_Close \<circ> socket_fd) old)
              | None \<Rightarrow>
                  (if new < 0 then (- 1, Some p', map (Sock_Close \<circ> socket_fd) old)
                   else case os_resolve os h of
                     None \<Rightarrow> (- 1, Some p', map (Sock_Close \<circ> socket_fd) old @ [Sock_Close new])
                   | Some a \<Rightarrow>
                       if os_connect os new a (word_of_int pt) < 0
                       then (- 1, Some p', map (Sock_Close \<circ> socket_fd) old @ [Sock_Close new])
                       else (new, Some p', map (Sock_Close \<circ> socket_fd) old @ [Sock_Connect new a (word_of_int pt)])))
           \<and> idle_conns (connections p) = idle_conns (connections p') + mset (map conn_of old)
               + (case hit of None \<Rightarrow> {#} | Some c \<Rightarrow> {#conn_of c#})
           \<and> busy_conns (connections p') = busy_conns (connections p)
               + (case hit of None \<Rightarrow> {#} | Some c \<Rightarrow> {#conn_of c#})"
proof -
  let ?m = "\<lambda>c. 0 < socket_fd c \<and> in_use c = 0 \<and> conn_host c = h \<and> conn_port c = pt"
  let ?old = "map (Sock_Close \<circ> socket_fd) (takeWhile (\<lambda>c. 30 \<le> now - last_used c) (filter ?m (connections p)))"
  have m: "idle_for h pt = ?m" by (simp add: idle_for_def fun_eq_iff)
  have new: "(fst (create_persistent_connection os h pt), q, ?old @ snd (create_persistent_connection os h pt)) =
      (if os_socket os < 0 then (- 1, q, ?old)
       else case os_resolve os h of
         None \<Rightarrow> (- 1, q, ?old @ [Sock_Close (os_socket os)])
       | Some a \<Rightarrow>
           if os_connect os (os_socket os) a (word_of_int pt) < 0
           then (- 1, q, ?old @ [Sock_Close (os_socket os)])
           else (os_socket os, q, ?old @ [Sock_Connect (os_socket os) a (word_of_int pt)]))" for q
    by (simp add: create_persistent_connection_def socket_close_def Let_def split: option.split)
  show ?thesis using pool_get_cases [of h pt p now os] unfolding m Let_def new find_filter [of _ ?m] .
qed

lemma pool_full_iff:
  assumes "pool_inv p"
  shows "pool_size p = 20 \<longleftrightarrow> (\<forall>conn \<in> set (connections p). 0 < socket_fd conn)"
proof -
  have "length (live_fds cs) = length cs \<longleftrightarrow> (\<forall>conn \<in> set cs. 0 < socket_fd conn)" for cs
  proof (induction cs)
    case (Cons c cs)
    with live_fds_le [of cs] show ?case by auto
  qed simp
  from this [of "connections p"] assms show ?thesis by (simp add: pool_inv_def MAX_POOL_SIZE_def)
qed

text \<open>C23. A new socket that is returned for reuse gets a slot, filed under its host and port, while
  there is one; when all 20 are taken it is closed and the pool stays as it is.\<close>

theorem connection_pool_return_correct:
  assumes "pool_inv p" and "0 < fd" and "fd \<notin> set (live_fds (connections p))" and "length h \<le> 255"
    and "keep_alive \<noteq> 0"
  shows "\<exists>p'. connection_pool_return now (Some p) fd (Some h) pt keep_alive =
       (Some p', if pool_size p < 20 then [] else [Sock_Close fd])
     \<and> (if pool_size p < 20
        then pool_size p' = pool_size p + 1
          \<and> idle_conns (connections p') = add_mset (fd, h, pt) (idle_conns (connections p))
          \<and> busy_conns (connections p') = busy_conns (connections p)
        else p' = p)"
proof -
  have "length (live_fds cs) \<le> length cs" for cs
    by (rule live_fds_le)
  from this [of "connections p"] assms(1) have le: "pool_size p \<le> 20" by (simp add: pool_inv_def MAX_POOL_SIZE_def)
  have none: "pool_mark_idle now fd (connections p) = None"
    using assms(2,3) by (auto simp: pool_mark_idle_None live_fds_def)
  show ?thesis
  proof (cases "pool_store now fd h pt (connections p)")
    case None
    with pool_full_iff [OF assms(1)] have "pool_size p = 20" by (simp add: pool_store_None)
    with None none assms(2,5) show ?thesis
      by (simp add: connection_pool_return_def pool_return_locked_def socket_close_def)
  next
    case (Some cs)
    then have "\<not> (\<forall>conn \<in> set (connections p). 0 < socket_fd conn)" using pool_store_None by (metis option.distinct(1))
    with pool_full_iff [OF assms(1)] le have "pool_size p < 20" by simp
    with Some none assms(2,4,5) pool_store_ok [OF Some assms(2)] show ?thesis
      by (simp add: connection_pool_return_def pool_return_locked_def)
  qed
qed

theorem connection_pool_return_correct_witness:
  "\<exists>p'. connection_pool_return 7 (Some new_pool) 5 (Some ''a'') 80 1 = (Some p', [])
     \<and> idle_conns (connections p') = {#(5, ''a'', 80)#}"
proof -
  have "5 \<notin> set (live_fds (connections new_pool))" by (simp add: live_fds_conns)
  moreover have "pool_size new_pool = 0" by (simp add: new_pool_def)
  ultimately show ?thesis
    using connection_pool_return_correct [OF new_pool_inv, of 5 "''a''" 1 7 80] by auto
qed

subsection \<open>Who is connected to whom\<close>

text \<open>C13. As long as clients close connections only by returning them, the socket a lookup hands
  out is connected to the host and port that were asked for, and no other client holds it.\<close>

theorem pool_get_exclusive:
  assumes "pool_reachable False s" and "os_fresh os now h pt s"
    and "connection_pool_get os now (Some (ps_pool s)) (Some h) pt = (fd, Some p, evs)" and "0 \<le> fd"
  shows "0 < fd \<and> peers_after (h, pt) evs (ps_peers s) fd = Some (h, pt) \<and> fd \<notin> fst ` set_mset (ps_lent s)"
  using get_step [OF pool_reachable_ok [OF assms(1)] assms(2-4)] by blast

definition plain_net :: "int \<Rightarrow> os_net" where
  "plain_net fd = \<lparr>os_socket = fd, os_resolve = (\<lambda>h. Some 7), os_connect = (\<lambda>s a p. 0)\<rparr>"

definition one_slot :: "int \<Rightarrow> string \<Rightarrow> int \<Rightarrow> int \<Rightarrow> connection_pool" where
  "one_slot fd h t u = \<lparr>connections = \<lparr>socket_fd = fd, conn_host = h, conn_port = 80, last_used = t, in_use = u\<rparr>
     # replicate 19 empty_slot, pool_size = 1\<rparr>"

lemma plain_connection:
  "0 < fd \<Longrightarrow> create_persistent_connection (plain_net fd) h pt = (fd, [Sock_Connect fd 7 (word_of_int pt)])"
  by (simp add: create_persistent_connection_def plain_net_def)

lemma get_loop_empty [simp]: "pool_get_loop now h pt (replicate k empty_slot) = (None, replicate k empty_slot, [])"
  by (induction k) (simp_all add: idle_for_def)

theorem pool_get_exclusive_witness:
  "peers_after (''a'', 80) [Sock_Connect 5 7 80] Map.empty 5 = Some (''a'', 80)"
proof -
  have "connection_pool_get (plain_net 5) 0 (Some new_pool) (Some ''a'') 80 = (5, Some new_pool, [Sock_Connect 5 7 80])"
    by (simp add: connection_pool_get_def pool_get_locked_def new_pool_def plain_connection)
  then show ?thesis
    using pool_get_exclusive [OF pool_start, of "plain_net 5" 0 "''a''" 80 5 new_pool]
    by (simp add: os_fresh_def pool_get_locked_def new_pool_def plain_net_def)
qed

subsection \<open>What the direct closing of a socket breaks\<close>

lemma one_slot_get:
  "0 < fd \<Longrightarrow> pool_get_locked t h 80 (one_slot fd h t 0) = (Some fd, one_slot fd h t 1, [])"
  "h \<noteq> g \<Longrightarrow> pool_get_locked t g 80 (one_slot fd h t' u) = (None, one_slot fd h t' u, [])"
  by (simp_all add: pool_get_locked_def one_slot_def idle_for_def CONNECTION_TIMEOUT_def)

lemma one_slot_return:
  "0 < fd \<Longrightarrow> pool_return_locked t fd g pt 1 (one_slot fd h t' 1) = (one_slot fd h t 0, [])"
  "0 < fd \<Longrightarrow> length h \<le> 255 \<Longrightarrow> pool_return_locked t fd h 80 1 new_pool = (one_slot fd h t 0, [])"
  by (simp_all add: pool_return_locked_def one_slot_def new_pool_def MAX_POOL_SIZE_def numeral_eq_Suc)

lemma new_pool_get: "pool_get_locked t h pt new_pool = (None, new_pool, [])"
  by (simp add: pool_get_locked_def new_pool_def)

text \<open>The run: one client takes, returns and takes again a connection to \<open>a\<close>, then closes it after
  a failed send; the descriptor is reused for a new connection to \<open>b\<close>, and its return marks the
  slot of \<open>a\<close> as idle.\<close>

lemma dropped_slot_run:
  "pool_reachable True \<lparr>ps_pool = one_slot 5 ''a'' 0 0, ps_lent = {#}, ps_peers = [5 \<mapsto> (''b'', 80)]\<rparr>"
proof -
  note simps = connection_pool_get_def connection_pool_return_def new_pool_get one_slot_get one_slot_return
    plain_connection os_fresh_def plain_net_def
  have "pool_reachable True \<lparr>ps_pool = new_pool, ps_lent = {#(5, ''a'', 80)#}, ps_peers = [5 \<mapsto> (''a'', 80)]\<rparr>"
    using pool_get [OF pool_start, of "plain_net 5" 0 "''a''" 80 5 new_pool "[Sock_Connect 5 7 80]" True]
    by (simp add: simps plain_connection [unfolded plain_net_def])
  from pool_return [OF this, of 5 "''a''" 80 0]
  have "pool_reachable True \<lparr>ps_pool = one_slot 5 ''a'' 0 0, ps_lent = {#}, ps_peers = [5 \<mapsto> (''a'', 80)]\<rparr>"
    by (simp add: simps)
  from pool_get [OF this, of "plain_net 6" 0 "''a''" 80 5]
  have "pool_reachable True \<lparr>ps_pool = one_slot 5 ''a'' 0 1, ps_lent = {#(5, ''a'', 80)#}, ps_peers = [5 \<mapsto> (''a'', 80)]\<rparr>"
    by (simp add: simps)
  from pool_drop [OF _ this, of 5 "''a''" 80]
  have "pool_reachable True \<lparr>ps_pool = one_slot 5 ''a'' 0 1, ps_lent = {#}, ps_peers = Map.empty\<rparr>"
    by simp
  from pool_get [OF this, of "plain_net 5" 0 "''b''" 80 5]
  have "pool_reachable True \<lparr>ps_pool = one_slot 5 ''a'' 0 1, ps_lent = {#(5, ''b'', 80)#}, ps_peers = [5 \<mapsto> (''b'', 80)]\<rparr>"
    by (simp add: simps plain_connection [unfolded plain_net_def])
  from pool_return [OF this, of 5 "''b''" 80 0] show ?thesis by (simp add: simps)
qed

text \<open>C34. A client that closes a broken connection itself, as \<open>forward_request_to_server\<close> does,
  leaves a slot in use with a stale descriptor. In a pool reached this way a lookup for one
  host returns a socket that is connected to another.\<close>

theorem pool_get_wrong_peer:
  "\<exists>s p'. pool_reachable True s
     \<and> connection_pool_get (plain_net 6) 0 (Some (ps_pool s)) (Some ''a'') 80 = (5, Some p', [])
     \<and> ps_peers s 5 = Some (''b'', 80)"
  using dropped_slot_run by (intro exI conjI, assumption) (simp_all add: connection_pool_get_def one_slot_get)

text \<open>Slots lost this way stay lost: when all 20 are marked in use, every lookup opens a new
  connection, every returned new socket is closed, and the cleanup frees nothing.\<close>

theorem leaked_slots_disable_pool:
  assumes "\<forall>conn \<in> set (connections p). 0 < socket_fd conn \<and> in_use conn \<noteq> 0"
    and "0 < fd" and "fd \<notin> set (live_fds (connections p))"
  shows "connection_pool_get os now (Some p) (Some h) pt =
       (fst (create_persistent_connection os h pt), Some p, snd (create_persistent_connection os h pt))
     \<and> connection_pool_return now (Some p) fd (Some h) pt keep_alive = (Some p, [Sock_Close fd])
     \<and> connection_pool_cleanup now (Some p) = (Some p, [])"
proof -
  have get: "pool_get_loop now h pt cs = (None, cs, [])" if "\<forall>conn \<in> set cs. in_use conn \<noteq> 0" for cs
    using that by (induction cs) (auto simp: idle_for_def)
  have clean: "pool_cleanup_loop now cs = (cs, [])" if "\<forall>conn \<in> set cs. in_use conn \<noteq> 0" for cs
    using that by (induction cs) (auto simp: timed_out_def)
  have "pool_mark_idle now fd (connections p) = None"
    using assms(2,3) by (auto simp: pool_mark_idle_None live_fds_def)
  moreover have "pool_store now fd h pt (connections p) = None" using assms(1) by (auto simp: pool_store_None)
  ultimately show ?thesis using get [of "connections p"] clean [of "connections p"] assms(1,2)
    by (auto simp: connection_pool_get_def pool_get_locked_def connection_pool_return_def
        pool_return_locked_def connection_pool_cleanup_def socket_close_def split: prod.split)
qed

theorem leaked_slots_disable_pool_witness:
  "connection_pool_return 0 (Some \<lparr>connections = replicate 20 \<lparr>socket_fd = 4, conn_host = ''a'', conn_port = 80,
     last_used = 0, in_use = 1\<rparr>, pool_size = 20\<rparr>) 5 (Some ''a'') 80 1 =
     (Some \<lparr>connections = replicate 20 \<lparr>socket_fd = 4, conn_host = ''a'', conn_port = 80,
     last_used = 0, in_use = 1\<rparr>, pool_size = 20\<rparr>, [Sock_Close 5])"
  by (rule leaked_slots_disable_pool [THEN conjunct2, THEN conjunct1]) (simp_all add: live_fds_def)

subsection \<open>Cleanup and destruction\<close>

text \<open>The cleanup closes exactly the idle connections not used for 30 seconds, and keeps every
  other one; the destruction closes every socket of the pool exactly once.\<close>

theorem pool_closes_exactly:
  assumes "pool_inv p"
  shows "(\<exists>p'. connection_pool_cleanup now (Some p) =
         (Some p', map Sock_Close (map socket_fd (filter (timed_out now) (connections p))))
       \<and> pool_inv p' \<and> busy_conns (connections p') = busy_conns (connections p)
       \<and> idle_conns (connections p) = idle_conns (connections p') + mset (map conn_of (filter (timed_out now) (connections p))))
     \<and> closed_socks (connection_pool_destroy (Some p)) = live_fds (connections p)
     \<and> distinct (closed_socks (connection_pool_destroy (Some p)))"
proof -
  obtain cs closed where l: "pool_cleanup_loop now (connections p) = (cs, closed)" by fastforce
  from code_sweep_ok [OF assms, of now] pool_cleanup_loop_ok [OF l] l assms show ?thesis
    by (auto simp: cleanup_sweep code_sweep_def connection_pool_destroy_def live_fds_def pool_inv_def)
qed

theorem pool_closes_exactly_witness:
  "closed_socks (connection_pool_destroy (Some (one_slot 5 ''a'' 0 0))) = [5]"
proof -
  have "pool_inv (one_slot 5 ''a'' 0 0)"
    by (simp add: pool_inv_def one_slot_def MAX_POOL_SIZE_def numeral_eq_Suc)
  from pool_closes_exactly [OF this, of 0] show ?thesis by (simp add: one_slot_def live_fds_def)
qed

end
