(* ===== verification/C_Strings.thy ===== *)
theory C_Strings
  imports Proxy_Prelude "HOL-Library.Word"
begin

section \<open>The C string functions the program uses\<close>

text \<open>
  A C string is the list of its bytes before the NUL. The functions follow the C standard and,
  where it leaves the behaviour open, glibc: \<open>atoi\<close> is \<open>strtol\<close> with the result cut to an
  \<open>int\<close>, and \<open>strtok\<close> keeps one saved position, which all threads of the process share.
  Positions are offsets into the string.
\<close>

abbreviation CRLF :: string where
  "CRLF \<equiv> [CHR 0x0D, CHR 0x0A]"

definition cstr :: "string \<Rightarrow> string" where
  "cstr s = takeWhile (\<lambda>c. c \<noteq> CHR 0x00) s"

fun strstr :: "string \<Rightarrow> string \<Rightarrow> nat option" where
  "strstr [] pat = (if pat = [] then Some 0 else None)"
| "strstr (c # cs) pat = (if take (length pat) (c # cs) = pat then Some 0 else map_option Suc (strstr cs pat))"

fun strchr :: "string \<Rightarrow> char \<Rightarrow> nat option" where
  "strchr [] x = None"
| "strchr (c # cs) x = (if c = x then Some 0 else map_option Suc (strchr cs x))"

definition strncmp_eq :: "nat \<Rightarrow> string \<Rightarrow> string \<Rightarrow> bool" where
  "strncmp_eq n s t \<longleftrightarrow> take n s = take n t"

abbreviation code :: "char \<Rightarrow> nat" where
  "code c \<equiv> of_char c"

definition lower :: "char \<Rightarrow> char" where
  "lower c = (if 65 \<le> code c \<and> code c \<le> 90 then char_of (code c + 32) else c)"

definition strcasecmp_eq :: "string \<Rightarrow> string \<Rightarrow> bool" where
  "strcasecmp_eq s t \<longleftrightarrow> map lower s = map lower t"

text \<open>\<open>strtok(s, d)\<close> with a one-character delimiter: the token, and the new saved position.\<close>

definition strtok :: "string option \<Rightarrow> char \<Rightarrow> string \<Rightarrow> string option \<times> string" where
  "strtok s d saved =
     (let rest = dropWhile (\<lambda>c. c = d) (case s of Some t \<Rightarrow> t | None \<Rightarrow> saved) in
      if rest = [] then (None, [])
      else (Some (takeWhile (\<lambda>c. c \<noteq> d) rest), tl (dropWhile (\<lambda>c. c \<noteq> d) rest)))"

subsection \<open>Numbers\<close>

definition isspace :: "char \<Rightarrow> bool" where
  "isspace c \<longleftrightarrow> c \<in> {CHR 0x20, CHR 0x09, CHR 0x0A, CHR 0x0B, CHR 0x0C, CHR 0x0D}"

definition isdigit :: "char \<Rightarrow> bool" where
  "isdigit c \<longleftrightarrow> 48 \<le> code c \<and> code c \<le> 57"

definition digit_val :: "char \<Rightarrow> nat" where
  "digit_val c = code c - 48"

fun read_digits :: "nat \<Rightarrow> string \<Rightarrow> nat" where
  "read_digits v [] = v"
| "read_digits v (c # cs) = (if isdigit c then read_digits (v * 10 + digit_val c) cs else v)"

definition clamp64 :: "int \<Rightarrow> int" where
  "clamp64 v = max (- (2 ^ 63)) (min (2 ^ 63 - 1) v)"

definition to_int32 :: "int \<Rightarrow> int" where
  "to_int32 v = sint (word_of_int v :: 32 word)"

definition atoi :: "string \<Rightarrow> int" where
  "atoi s =
     (case dropWhile isspace s of
        [] \<Rightarrow> 0
      | c # cs \<Rightarrow>
          to_int32 (clamp64
            (if c = CHR ''-'' then - int (read_digits 0 cs)
             else if c = CHR ''+'' then int (read_digits 0 cs)
             else int (read_digits 0 (c # cs)))))"

text \<open>What \<open>printf\<close> writes for \<open>%d\<close>.\<close>

definition digit_char :: "nat \<Rightarrow> char" where
  "digit_char d = char_of (48 + d)"

fun dec_nat :: "nat \<Rightarrow> string" where
  "dec_nat n = (if n < 10 then [digit_char n] else dec_nat (n div 10) @ [digit_char (n mod 10)])"

declare dec_nat.simps [simp del]

definition dec_int :: "int \<Rightarrow> string" where
  "dec_int v = (if v < 0 then CHR ''-'' # dec_nat (nat (- v)) else dec_nat (nat v))"

text \<open>What \<open>snprintf\<close> leaves in a buffer of \<open>n\<close> bytes: all of the text but for a NUL.\<close>

definition snprintf_text :: "nat \<Rightarrow> string \<Rightarrow> string" where
  "snprintf_text n s = take (n - 1) s"

subsection \<open>Facts\<close>

lemma cstr_id [simp]: "CHR 0x00 \<notin> set s \<Longrightarrow> cstr s = s"
  by (auto simp: cstr_def takeWhile_eq_all_conv)

lemma cstr_no_nul: "CHR 0x00 \<notin> set (cstr s)"
  by (auto simp: cstr_def dest: set_takeWhileD)

lemma strstr_Some:
  "strstr s pat = Some i \<Longrightarrow> i + length pat \<le> length s \<and> take (length pat) (drop i s) = pat"
proof (induction s pat arbitrary: i rule: strstr.induct)
  case (2 c cs pat)
  show ?case
  proof (cases "take (length pat) (c # cs) = pat")
    case True
    then have "length pat \<le> length (c # cs)" by (metis length_take min.cobounded1)
    with 2 True show ?thesis by auto
  next
    case False
    with 2 show ?thesis by (cases i) auto
  qed
qed (auto split: if_splits)

lemma strstr_append:
  "strstr s pat = Some i \<Longrightarrow> strstr (s @ t) pat = Some i"
proof (induction s pat arbitrary: i rule: strstr.induct)
  case (1 pat)
  then show ?case by (cases t) (auto split: if_splits)
next
  case (2 c cs pat)
  show ?case
  proof (cases "take (length pat) (c # cs) = pat")
    case True
    then have "length pat \<le> length (c # cs)" by (metis length_take min.cobounded1)
    with True take_append [of "length pat" "c # cs" t] 2(2) show ?thesis by simp
  next
    case False
    with 2(2) obtain j where j: "strstr cs pat = Some j" "i = Suc j" by auto
    from strstr_Some [OF j(1)] have "length pat \<le> length (c # cs)" by simp
    with False 2(1) [OF False j(1)] j(2) take_append [of "length pat" "c # cs" t] show ?thesis by simp
  qed
qed

lemma strchr_Some: "strchr s x = Some i \<Longrightarrow> i < length s \<and> s ! i = x \<and> x \<notin> set (take i s)"
  by (induction s x arbitrary: i rule: strchr.induct) (auto split: if_splits)

lemma strchr_None: "strchr s x = None \<longleftrightarrow> x \<notin> set s"
  by (induction s x rule: strchr.induct) auto

lemma strchr_first: "x \<notin> set s \<Longrightarrow> strchr (s @ x # t) x = Some (length s)"
  by (induction s) auto

lemma strstr_crlf_first: "CHR 0x0D \<notin> set s \<Longrightarrow> strstr (s @ CRLF @ t) CRLF = Some (length s)"
  by (induction s) auto

lemma isdigit_char [simp]: "d < 10 \<Longrightarrow> isdigit (digit_char d)" "d < 10 \<Longrightarrow> digit_val (digit_char d) = d"
  by (simp_all add: isdigit_def digit_val_def digit_char_def)

lemma read_digits_append:
  "\<forall>c \<in> set s. isdigit c \<Longrightarrow> read_digits v (s @ t) = read_digits (read_digits v s) t"
  by (induction v s rule: read_digits.induct) simp_all

lemma dec_nat_digits: "\<forall>c \<in> set (dec_nat n). isdigit c"
  by (induction n rule: dec_nat.induct) (subst dec_nat.simps, auto)

lemma read_dec_nat: "read_digits 0 (dec_nat n) = n"
proof (induction n rule: dec_nat.induct)
  case (1 n)
  then show ?case
    by (subst dec_nat.simps) (simp add: read_digits_append dec_nat_digits)
qed

lemma dec_nat_nonempty [simp]: "dec_nat n \<noteq> []"
  by (subst dec_nat.simps) simp

lemma to_int32_small: "0 \<le> v \<Longrightarrow> v < 2 ^ 31 \<Longrightarrow> to_int32 v = v"
  by (simp add: to_int32_def sint_sbintrunc' signed_take_bit_int_eq_self)

lemma to_int32_range: "- (2 ^ 31) \<le> to_int32 v \<and> to_int32 v < 2 ^ 31"
  using sint_range_size [of "word_of_int v :: 32 word"] by (simp add: to_int32_def word_size)

lemma isdigit_not_sign: "isdigit c \<Longrightarrow> \<not> isspace c \<and> c \<noteq> CHR ''-'' \<and> c \<noteq> CHR ''+''"
  by (auto simp: isdigit_def isspace_def)

lemma atoi_dec_nat_append:
  assumes "n < 2 ^ 31" and "t = [] \<or> \<not> isdigit (hd t)"
  shows "atoi (dec_nat n @ t) = int n"
proof -
  obtain c cs where cs: "dec_nat n = c # cs" by (cases "dec_nat n") simp_all
  then have "isdigit c" using dec_nat_digits [of n] by simp
  with cs isdigit_not_sign [of c] have "atoi (dec_nat n @ t) = to_int32 (clamp64 (int (read_digits 0 (dec_nat n @ t))))"
    by (simp add: atoi_def)
  moreover have "read_digits 0 (dec_nat n @ t) = n"
    using assms(2) by (cases t) (simp_all add: read_digits_append dec_nat_digits read_dec_nat)
  ultimately show ?thesis using assms(1) by (simp add: clamp64_def to_int32_small)
qed

lemma atoi_dec_nat: "n < 2 ^ 31 \<Longrightarrow> atoi (dec_nat n) = int n"
  using atoi_dec_nat_append [of n "[]"] by simp

lemma strtok_token:
  assumes "CHR '' '' \<notin> set w" and "w \<noteq> []"
  shows "strtok (Some (w @ CHR '' '' # r)) (CHR '' '') sv = (Some w, r)"
    "strtok (Some w) (CHR '' '') sv = (Some w, [])"
    "strtok None (CHR '' '') (w @ CHR '' '' # r) = (Some w, r)"
    "strtok None (CHR '' '') w = (Some w, [])"
proof -
  have d: "dropWhile (\<lambda>c. c = CHR '' '') (w @ t) = w @ t" for t using assms by (cases w) auto
  from assms(1) have a: "\<And>x. x \<in> set w \<Longrightarrow> x \<noteq> CHR '' ''" by auto
  have t: "takeWhile (\<lambda>c. c \<noteq> CHR '' '') (w @ CHR '' '' # r) = w"
      "dropWhile (\<lambda>c. c \<noteq> CHR '' '') (w @ CHR '' '' # r) = CHR '' '' # r"
      "takeWhile (\<lambda>c. c \<noteq> CHR '' '') w = w"
    using a by (simp_all add: takeWhile_append2 dropWhile_append2 takeWhile_eq_all_conv dropWhile_eq_Nil_conv)
  have e: "dropWhile (\<lambda>c. c \<noteq> CHR '' '') w = []" unfolding dropWhile_eq_Nil_conv using a by blast
  have n: "tl (dropWhile (\<lambda>c. c \<noteq> CHR '' '') w) = []" unfolding e by simp
  show "strtok (Some (w @ CHR '' '' # r)) (CHR '' '') sv = (Some w, r)"
    "strtok (Some w) (CHR '' '') sv = (Some w, [])"
    "strtok None (CHR '' '') (w @ CHR '' '' # r) = (Some w, r)"
    "strtok None (CHR '' '') w = (Some w, [])"
    using d [of "CHR '' '' # r"] d [of "[]"] t n assms(2) by (simp_all add: strtok_def)
qed

end
