(* ===== verification/Http_Parser.thy ===== *)
theory Http_Parser
  imports C_Strings
begin

section \<open>The HTTP parser: data and operations\<close>

text \<open>
  Models \<^verbatim>\<open>src/components/http_parser.c\<close>, \<open>struct ParsedRequest\<close> and
  \<open>struct ParsedHeader\<close> of \<^verbatim>\<open>include/proxy_parse.h\<close>, and \<open>parse_request_url\<close> of \<^verbatim>\<open>src/components/proxy_server.c\<close>.
  A \<open>char *\<close> field is a \<open>string option\<close>, \<open>None\<close> for NULL; \<open>pr_buf\<close> holds the \<open>buflen\<close> bytes
  copied, which may contain NULs, without the NUL added after them. A \<open>malloc\<close> succeeds or
  not by its place in the code; only the first one of the parser is checked, so a failure of
  any other is a NULL dereference, which is undefined (\<open>None\<close>), as is every write past the
  end of a buffer, allocated ones included (\<open>copy_to\<close>); the copies end in the NUL that the code writes. The position that \<open>strtok\<close> saves is an argument and a result.
\<close>

record ParsedHeader =
  ph_key :: "string option"
  ph_keylen :: nat
  ph_value :: "string option"
  ph_valuelen :: nat

record ParsedRequest =
  pr_method :: "string option"
  pr_protocol :: "string option"
  pr_host :: "string option"
  pr_port :: "string option"
  pr_path :: "string option"
  pr_version :: "string option"
  pr_buf :: "string option"
  pr_buflen :: int
  pr_headers :: "ParsedHeader option"
  pr_headersused :: nat
  pr_headerslen :: nat

datatype malloc_site = M_buf | M_request_line | M_method | M_path | M_version
  | M_header_line nat | M_host | M_port

type_synonym mallocs = "malloc_site \<Rightarrow> bool"

text \<open>\<open>calloc\<close>: all fields NULL or 0.\<close>

definition empty_request :: ParsedRequest where
  "empty_request = \<lparr>pr_method = None, pr_protocol = None, pr_host = None, pr_port = None,
     pr_path = None, pr_version = None, pr_buf = None, pr_buflen = 0, pr_headers = None, pr_headersused = 0, pr_headerslen = 0\<rparr>"

definition ParsedRequest_create :: "bool \<Rightarrow> ParsedRequest option" where
  "ParsedRequest_create calloc_ok = (if calloc_ok then Some empty_request else None)"

text \<open>The strings that are freed, in the order of the code.\<close>

definition ParsedRequest_destroy :: "ParsedRequest option \<Rightarrow> string list" where
  "ParsedRequest_destroy pr =
     (case pr of None \<Rightarrow> []
      | Some r \<Rightarrow> List.map_filter id
          [pr_buf r, pr_method r, pr_protocol r, pr_host r, pr_port r, pr_path r, pr_version r])"

subsection \<open>Parsing\<close>

text \<open>A string and its NUL written to a buffer of \<open>cap\<close> bytes.\<close>

definition copy_to :: "nat \<Rightarrow> string \<Rightarrow> string option" where
  "copy_to cap s = (if cap < length s + 1 then None else Some s)"

text \<open>An unchecked \<open>malloc\<close> of \<open>strlen + 1\<close> bytes for a copy of a string, when there is one to copy.\<close>

definition dup_field :: "mallocs \<Rightarrow> malloc_site \<Rightarrow> string option \<Rightarrow> string option \<Rightarrow> string option option" where
  "dup_field mem site s old =
     (case s of None \<Rightarrow> Some old | Some t \<Rightarrow> if mem site then map_option Some (copy_to (length t + 1) t) else None)"

text \<open>The header loop on the bytes from \<open>current_pos\<close> on: the value of the first \<open>Host\<close> header.\<close>

function header_loop :: "mallocs \<Rightarrow> nat \<Rightarrow> string \<Rightarrow> string option option" where
  "header_loop mem pos rest =
     (if rest = [] then Some None
      else case strstr (cstr rest) CRLF of
        None \<Rightarrow> Some None
      | Some j \<Rightarrow>
          if j = 0 then Some None
          else if \<not> mem (M_header_line pos) then None
          else if copy_to (j + 1) (take j rest) = None then None
          else
            (case strchr (take j rest) CHR '':'' of
               None \<Rightarrow> header_loop mem (pos + j + 2) (drop (j + 2) rest)
             | Some k \<Rightarrow>
                 let header_name = take k (take j rest);
                     header_value = dropWhile (\<lambda>c. c = CHR '' '') (drop (k + 1) (take j rest)) in
                 if strcasecmp_eq header_name ''Host''
                 then (if mem M_host then map_option Some (copy_to (length header_value + 1) header_value) else None)
                 else header_loop mem (pos + j + 2) (drop (j + 2) rest)))"
  by pat_completeness auto

termination
  by (relation "measure (\<lambda>(mem, pos, rest). length rest)") auto

declare header_loop.simps [simp del]

text \<open>The copies of the three tokens and the headers.\<close>

definition parse_fields ::
    "mallocs \<Rightarrow> ParsedRequest \<Rightarrow> string \<Rightarrow> nat \<Rightarrow> string option \<Rightarrow> string option \<Rightarrow> string option \<Rightarrow> ParsedRequest option" where
  "parse_fields mem parse bytes line_end method path version =
     do {
       m \<leftarrow> dup_field mem M_method method (pr_method parse);
       p \<leftarrow> dup_field mem M_path path (pr_path parse);
       v \<leftarrow> dup_field mem M_version version (pr_version parse);
       h \<leftarrow> header_loop mem (line_end + 2) (drop (line_end + 2) bytes);
       port \<leftarrow> (if pr_port parse = None
               then if mem M_port then map_option Some (copy_to 3 ''80'') else None else Some (pr_port parse));
       Some (parse\<lparr>pr_method := m, pr_path := p, pr_version := v,
         pr_host := (if h = None then pr_host parse else h), pr_port := port\<rparr>)
     }"

text \<open>From the second \<open>strtok\<close> on, with the method already found.\<close>

definition parse_from_method ::
    "mallocs \<Rightarrow> ParsedRequest \<Rightarrow> string \<Rightarrow> nat \<Rightarrow> string option \<Rightarrow> string \<Rightarrow> (int \<times> ParsedRequest option \<times> string) option" where
  "parse_from_method mem parse bytes line_end method saved =
     (let (path, saved) = strtok None CHR '' '' saved;
          (version, saved) = strtok None CHR '' '' saved in
      map_option (\<lambda>p. (0, Some p, saved)) (parse_fields mem parse bytes line_end method path version))"

definition parse_after_line ::
    "mallocs \<Rightarrow> ParsedRequest \<Rightarrow> string \<Rightarrow> nat \<Rightarrow> string \<Rightarrow> (int \<times> ParsedRequest option \<times> string) option" where
  "parse_after_line mem parse bytes line_end saved =
     (if \<not> mem M_request_line then None
      else if copy_to (line_end + 1) (take line_end bytes) = None then None
      else
        (let request_line = take line_end bytes;
             (method, saved) = strtok (Some request_line) CHR '' '' saved in
         parse_from_method mem parse bytes line_end method saved))"

definition ParsedRequest_parse ::
    "mallocs \<Rightarrow> ParsedRequest option \<Rightarrow> string option \<Rightarrow> int \<Rightarrow> string
      \<Rightarrow> (int \<times> ParsedRequest option \<times> string) option" where
  "ParsedRequest_parse mem parse buf buflen saved =
     (case (parse, buf) of
        (Some p, Some b) \<Rightarrow>
          if buflen \<le> 0 then Some (- 1, parse, saved)
          else if \<not> mem M_buf then Some (- 1, Some (p\<lparr>pr_buf := None\<rparr>), saved)
          else if length b < nat buflen then None
          else if copy_to (nat buflen + 1) (take (nat buflen) b) = None then None
          else
            (let bytes = take (nat buflen) b; p = p\<lparr>pr_buf := Some bytes, pr_buflen := buflen\<rparr> in
             (case strstr (cstr bytes) CRLF of
                None \<Rightarrow> Some (- 1, Some p, saved)
              | Some line_end \<Rightarrow> parse_after_line mem p bytes line_end saved))
      | _ \<Rightarrow> Some (- 1, parse, saved))"

text \<open>The text in the buffer of \<open>buflen\<close> bytes; with \<open>buflen = 0\<close> nothing is written.\<close>

definition ParsedRequest_unparse_headers :: "ParsedRequest option \<Rightarrow> nat \<Rightarrow> int \<times> string" where
  "ParsedRequest_unparse_headers pr buflen =
     (case pr of None \<Rightarrow> (- 1, [])
      | Some r \<Rightarrow>
          (0, snprintf_text buflen
            ((case pr_method r of None \<Rightarrow> ''GET'' | Some m \<Rightarrow> m) @ '' ''
             @ (case pr_path r of None \<Rightarrow> ''/'' | Some p \<Rightarrow> p) @ '' ''
             @ (case pr_version r of None \<Rightarrow> ''HTTP/1.1'' | Some v \<Rightarrow> v) @ CRLF @ CRLF)))"

definition ParsedHeader_set :: "ParsedRequest option \<Rightarrow> string \<Rightarrow> string \<Rightarrow> int" where
  "ParsedHeader_set pr key value = 0"

definition ParsedHeader_get :: "ParsedRequest option \<Rightarrow> string \<Rightarrow> ParsedHeader option" where
  "ParsedHeader_get pr key = None"

subsection \<open>Validation and the Host header\<close>

definition validate_http_request :: "string option \<Rightarrow> int \<Rightarrow> int" where
  "validate_http_request request len =
     (case request of None \<Rightarrow> 0
      | Some r \<Rightarrow>
          if len \<le> 0 then 0
          else if strncmp_eq 4 r ''GET '' \<or> strncmp_eq 5 r ''POST '' \<or> strncmp_eq 4 r ''PUT ''
             \<or> strncmp_eq 7 r ''DELETE '' \<or> strncmp_eq 5 r ''HEAD ''
          then 1 else 0)"

text \<open>
  \<open>cap\<close> is the size of the buffer that \<open>host\<close> points to. The result is the return value and
  what is written through the two pointers.
\<close>

definition extract_host_port :: "nat \<Rightarrow> string option \<Rightarrow> (int \<times> (string \<times> int) option) option" where
  "extract_host_port cap host_header =
     (case host_header of None \<Rightarrow> Some (- 1, None)
      | Some s \<Rightarrow>
          (case strchr s CHR '':'' of
             Some host_len \<Rightarrow>
               if cap < host_len + 1 then None
               else let port = atoi (drop (host_len + 1) s) in
                 Some (0, Some (take host_len s, if port \<le> 0 \<or> 65535 < port then 80 else port))
           | None \<Rightarrow> if cap < length s + 1 then None else Some (0, Some (s, 80))))"

subsection \<open>URLs\<close>

text \<open>\<open>hcap\<close> and \<open>pcap\<close> are the sizes of the buffers of \<open>host\<close> and \<open>path\<close>.\<close>

definition parse_request_url ::
    "nat \<Rightarrow> nat \<Rightarrow> string option \<Rightarrow> (int \<times> (string \<times> int \<times> string) option) option" where
  "parse_request_url hcap pcap url =
     (case url of None \<Rightarrow> Some (- 1, None)
      | Some u \<Rightarrow> do {
          path \<leftarrow> copy_to pcap ''/'';
          let start = (if strncmp_eq 7 u ''http://'' then drop 7 u else u);
          (case (strchr start CHR '':'', strchr start CHR ''/'') of
             (Some c, None) \<Rightarrow> do {
               host \<leftarrow> copy_to hcap (take c start);
               Some (0, Some (host, atoi (drop (c + 1) start), path))
             }
           | (Some c, Some s) \<Rightarrow>
               if c < s then do {
                 host \<leftarrow> copy_to hcap (take c start);
                 path \<leftarrow> copy_to pcap (drop s start);
                 Some (0, Some (host, atoi (drop (c + 1) start), path))
               }
               else do {
                 host \<leftarrow> copy_to hcap (take s start);
                 path \<leftarrow> copy_to pcap (drop s start);
                 Some (0, Some (host, 80, path))
               }
           | (None, Some s) \<Rightarrow> do {
               host \<leftarrow> copy_to hcap (take s start);
               path \<leftarrow> copy_to pcap (drop s start);
               Some (0, Some (host, 80, path))
             }
           | (None, None) \<Rightarrow> do {
               host \<leftarrow> copy_to hcap start;
               Some (0, Some (host, 80, path))
             })
        })"

end
