(* ===== verification/Http_Facts.thy ===== *)
theory Http_Facts
  imports Http_Parser
begin

section \<open>Facts about parsing\<close>

text \<open>
  How a request is written (\<open>render_request\<close>), what the header loop and the request line
  parser make of such text, and that neither leaves defined behaviour when memory suffices.
\<close>

definition http_methods :: "string list" where
  "http_methods = [''GET'', ''POST'', ''PUT'', ''DELETE'', ''HEAD'']"

text \<open>Text without line ends, and a word of the request line.\<close>

definition line_text :: "string \<Rightarrow> bool" where
  "line_text s \<longleftrightarrow> CHR 0x0D \<notin> set s \<and> CHR 0x00 \<notin> set s"

definition word_text :: "string \<Rightarrow> bool" where
  "word_text s \<longleftrightarrow> s \<noteq> [] \<and> CHR '' '' \<notin> set s \<and> line_text s"

definition render_header :: "string \<times> string \<Rightarrow> string" where
  "render_header h = fst h @ CHR '':'' # snd h @ CRLF"

definition other_header :: "string \<times> string \<Rightarrow> bool" where
  "other_header h \<longleftrightarrow> line_text (fst h) \<and> CHR '':'' \<notin> set (fst h) \<and> line_text (snd h)
     \<and> \<not> strcasecmp_eq (fst h) ''Host''"

definition render_request :: "string \<Rightarrow> string \<Rightarrow> string \<Rightarrow> string \<Rightarrow> string" where
  "render_request m p v headers = m @ CHR '' '' # p @ CHR '' '' # v @ CRLF @ headers"

lemma line_text_simps [simp]:
  "line_text []" "line_text (c # s) \<longleftrightarrow> c \<noteq> CHR 0x0D \<and> c \<noteq> CHR 0x00 \<and> line_text s"
  "line_text (s @ t) \<longleftrightarrow> line_text s \<and> line_text t"
  by (auto simp: line_text_def)

lemma cstr_append: "CHR 0x00 \<notin> set s \<Longrightarrow> cstr (s @ t) = s @ cstr t"
  by (induction s) (auto simp: cstr_def)

lemma cstr_Cons: "c \<noteq> CHR 0x00 \<Longrightarrow> cstr (c # t) = c # cstr t"
  by (simp add: cstr_def)

lemma strstr_line:
  assumes "line_text s"
  shows "strstr (cstr (s @ CHR 0x0D # CHR 0x0A # t)) CRLF = Some (length s)"
proof -
  have "cstr (s @ CRLF @ t) = s @ CRLF @ cstr t"
    using assms cstr_append [of "s @ CRLF" t] by (simp add: line_text_def)
  with assms strstr_crlf_first [of s "cstr t"] show ?thesis by (simp add: line_text_def)
qed

subsection \<open>The header loop\<close>

text \<open>Every copy of the parser fits its allocation.\<close>

lemma copy_fits [simp]: "length t \<le> n \<Longrightarrow> copy_to (Suc n) t = Some t"
  by (simp add: copy_to_def)

lemma header_loop_line:
  assumes "line_text n" "CHR '':'' \<notin> set n" "line_text x" and "mem (M_header_line pos)"
  shows "header_loop mem pos (n @ CHR '':'' # x @ CRLF @ t) =
     (if strcasecmp_eq n ''Host''
      then (if mem M_host then Some (Some (dropWhile (\<lambda>c. c = CHR '' '') x)) else None)
      else header_loop mem (pos + length n + length x + 3) t)"
proof -
  let ?line = "n @ CHR '':'' # x"
  have "line_text ?line" using assms by simp
  from strstr_line [OF this, of t]
  have s: "strstr (cstr (?line @ CRLF @ t)) CRLF = Some (length ?line)" by simp
  have take: "take (length ?line) (?line @ CRLF @ t) = ?line" and drop: "drop (length ?line + 2) (?line @ CRLF @ t) = t"
    by (simp_all only: append_eq_conv_conj [symmetric] drop_append) simp_all
  have c: "strchr ?line CHR '':'' = Some (length n)" using assms(2) by (rule strchr_first)
  have "header_loop mem pos (?line @ CRLF @ t) =
     (if strcasecmp_eq n ''Host''
      then (if mem M_host then Some (Some (dropWhile (\<lambda>c. c = CHR '' '') x)) else None)
      else header_loop mem (pos + length ?line + 2) t)"
    unfolding header_loop.simps [of mem pos "?line @ CRLF @ t"] s option.case take drop c using assms(4)
    by (simp add: Let_def)
  then show ?thesis by (simp add: eval_nat_numeral ac_simps)
qed

lemma header_loop_skip:
  "\<forall>h \<in> set hs. other_header h \<Longrightarrow> \<exists>pos'. header_loop (\<lambda>_. True) pos (concat (map render_header hs) @ t)
    = header_loop (\<lambda>_. True) pos' t"
proof (induction hs arbitrary: pos)
  case Nil
  then show ?case by auto
next
  case (Cons h hs)
  let ?rest = "concat (map render_header hs) @ t"
  have "header_loop (\<lambda>_. True) pos (render_header h @ ?rest)
      = header_loop (\<lambda>_. True) (pos + length (fst h) + length (snd h) + 3) ?rest"
    using header_loop_line [of "fst h" "snd h" "\<lambda>_. True" pos ?rest] Cons.prems
    by (simp add: other_header_def render_header_def)
  with Cons.IH [of "pos + length (fst h) + length (snd h) + 3"] Cons.prems show ?case by simp
qed

lemma header_loop_total: "\<exists>r. header_loop (\<lambda>_. True) pos rest = Some r"
proof (induction "\<lambda>_::malloc_site. True" pos rest rule: header_loop.induct)
  case (1 pos rest)
  show ?case
  proof (cases "strstr (cstr rest) CRLF")
    case None
    then show ?thesis by (subst header_loop.simps) simp
  next
    case (Some j)
    show ?thesis
    proof (cases "strchr (take j rest) CHR '':''")
      case None
      with 1(1) [OF _ Some] Some show ?thesis by (subst header_loop.simps) auto
    next
      case (Some k)
      with 1(2) [OF _ \<open>strstr (cstr rest) CRLF = Some j\<close> _ _ _ Some refl refl] \<open>strstr (cstr rest) CRLF = Some j\<close>
      show ?thesis by (subst header_loop.simps) (auto simp: Let_def)
    qed
  qed
qed

text \<open>A Host value is a piece of the bytes that were received, without spaces in front.\<close>

lemma header_loop_value:
  "header_loop mem pos rest = Some (Some h) \<Longrightarrow>
    (\<exists>a b. rest = a @ h @ b) \<and> CHR 0x00 \<notin> set h \<and> (h = [] \<or> hd h \<noteq> CHR '' '')"
proof (induction mem pos rest rule: header_loop.induct)
  case (1 mem pos rest)
  from 1(3) have "rest \<noteq> []" by (subst (asm) header_loop.simps) (auto split: if_splits)
  with 1(3) obtain j where j: "strstr (cstr rest) CRLF = Some j" "j \<noteq> 0" "mem (M_header_line pos)"
    by (subst (asm) header_loop.simps) (auto split: if_splits option.splits)
  let ?line = "take j rest"
  have nul: "CHR 0x00 \<notin> set ?line"
  proof -
    from strstr_Some [OF j(1)] have "j \<le> length (cstr rest)" by simp
    then have "?line = take j (cstr rest)" unfolding cstr_def by (metis takeWhile_eq_take take_take min.absorb1)
    with cstr_no_nul [of rest] show ?thesis by (metis in_set_takeD)
  qed
  have tail: "\<exists>a b. rest = a @ h @ b" if "\<exists>a b. drop (j + 2) rest = a @ h @ b"
  proof -
    from that obtain a b where "drop (j + 2) rest = a @ h @ b" by blast
    then have "rest = (take (j + 2) rest @ a) @ h @ b" by (metis append_assoc append_take_drop_id)
    then show ?thesis by blast
  qed
  have fits: "copy_to (j + 1) ?line \<noteq> None" by simp
  show ?case
  proof (cases "strchr ?line CHR '':''")
    case None
    have "header_loop mem (pos + j + 2) (drop (j + 2) rest) = Some (Some h)"
      using 1(3) j None \<open>rest \<noteq> []\<close> by (subst (asm) header_loop.simps) simp
    with 1(1) [OF \<open>rest \<noteq> []\<close> j(1,2) _ fits] j(3) None tail show ?thesis by blast
  next
    case (Some k)
    let ?v = "dropWhile (\<lambda>c. c = CHR '' '') (drop (k + 1) ?line)"
    show ?thesis
    proof (cases "strcasecmp_eq (take k ?line) ''Host''")
      case True
      with 1(3) j Some \<open>rest \<noteq> []\<close> have h: "h = ?v"
        by (subst (asm) header_loop.simps) (auto simp: Let_def split: if_splits)
      have "rest = take (k + 1) ?line @ takeWhile (\<lambda>c. c = CHR '' '') (drop (k + 1) ?line) @ h @ drop j rest"
        unfolding h by (simp only: append_assoc [symmetric] append_take_drop_id takeWhile_dropWhile_id)
      moreover have "CHR 0x00 \<notin> set h" using nul unfolding h by (auto dest!: set_dropWhileD in_set_dropD)
      moreover have "h = [] \<or> hd h \<noteq> CHR '' ''" unfolding h using hd_dropWhile by blast
      ultimately show ?thesis by (metis append_assoc)
    next
      case False
      have "header_loop mem (pos + j + 2) (drop (j + 2) rest) = Some (Some h)"
        using 1(3) j Some False \<open>rest \<noteq> []\<close> by (subst (asm) header_loop.simps) (simp add: Let_def)
      with 1(2) [OF \<open>rest \<noteq> []\<close> j(1,2) _ fits Some refl refl] j(3) False tail show ?thesis by blast
    qed
  qed
qed

subsection \<open>The request line\<close>

lemma strtok_result:
  assumes "strtok s d sv = (r, sv')"
  shows "\<exists>a b. (case s of Some t \<Rightarrow> t | None \<Rightarrow> sv) = a @ (case r of None \<Rightarrow> [] | Some w \<Rightarrow> w) @ b \<and> (\<exists>c. b = c @ sv')"
    and "r = Some w \<Longrightarrow> w \<noteq> [] \<and> d \<notin> set w"
proof -
  let ?s = "case s of Some t \<Rightarrow> t | None \<Rightarrow> sv"
  let ?rest = "dropWhile (\<lambda>c. c = d) ?s"
  have split: "?s = takeWhile (\<lambda>c. c = d) ?s @ takeWhile (\<lambda>c. c \<noteq> d) ?rest @ dropWhile (\<lambda>c. c \<noteq> d) ?rest" by simp
  show "\<exists>a b. ?s = a @ (case r of None \<Rightarrow> [] | Some w \<Rightarrow> w) @ b \<and> (\<exists>c. b = c @ sv')"
  proof (cases "?rest = []")
    case True
    with assms have "r = None" "sv' = []" by (auto simp: strtok_def)
    then show ?thesis by auto
  next
    case False
    have r: "r = Some (takeWhile (\<lambda>c. c \<noteq> d) ?rest)" "sv' = tl (dropWhile (\<lambda>c. c \<noteq> d) ?rest)"
      using assms unfolding strtok_def Let_def if_not_P [OF False] by simp_all
    have "\<exists>c. xs = c @ tl xs" for xs :: string
      by (metis append_Nil append_Cons list.collapse list.sel(2))
    from this [of "dropWhile (\<lambda>c. c \<noteq> d) ?rest"] split show ?thesis unfolding r option.case by blast
  qed
  assume w: "r = Some w"
  then have "?rest \<noteq> []" using assms by (auto simp: strtok_def Let_def split: if_splits)
  then have "w = takeWhile (\<lambda>c. c \<noteq> d) ?rest"
    using assms w unfolding strtok_def Let_def if_not_P [OF \<open>?rest \<noteq> []\<close>] by simp
  moreover have "hd ?rest \<noteq> d" using hd_dropWhile [OF \<open>?rest \<noteq> []\<close>] by simp
  ultimately show "w \<noteq> [] \<and> d \<notin> set w"
    using \<open>?rest \<noteq> []\<close> by (cases ?rest) (auto dest: set_takeWhileD)
qed

lemma strtok_subset:
  assumes "strtok s d sv = (r, sv')"
  shows "set sv' \<subseteq> set (case s of Some t \<Rightarrow> t | None \<Rightarrow> sv)"
    and "r = Some w \<Longrightarrow> set w \<subseteq> set (case s of Some t \<Rightarrow> t | None \<Rightarrow> sv)"
    and "length sv' \<le> length (case s of Some t \<Rightarrow> t | None \<Rightarrow> sv)"
    and "r = Some w \<Longrightarrow> length w \<le> length (case s of Some t \<Rightarrow> t | None \<Rightarrow> sv)"
  using strtok_result(1) [OF assms] by auto

lemma tokens_of_line:
  assumes t1: "strtok (Some line) d sv = (m, s1)" and t2: "strtok None d s1 = (pa, s2)"
    and t3: "strtok None d s2 = (v, s3)" and w: "m = Some w \<or> pa = Some w \<or> v = Some w"
  shows "w \<noteq> [] \<and> d \<notin> set w \<and> set w \<subseteq> set line \<and> length w \<le> length line"
proof -
  have s1: "set s1 \<subseteq> set line" "length s1 \<le> length line" using strtok_subset(1,3) [OF t1] by simp_all
  have s2: "set s2 \<subseteq> set line" "length s2 \<le> length line" using strtok_subset(1,3) [OF t2] s1 by auto
  from w show ?thesis
  proof (elim disjE)
    assume "m = Some w"
    from strtok_subset(2,4) [OF t1 this] strtok_result(2) [OF t1 this] show ?thesis by simp
  next
    assume "pa = Some w"
    from strtok_subset(2,4) [OF t2 this] strtok_result(2) [OF t2 this] s1 show ?thesis by auto
  next
    assume "v = Some w"
    from strtok_subset(2,4) [OF t3 this] strtok_result(2) [OF t3 this] s2 show ?thesis by auto
  qed
qed

text \<open>The three tokens of a canonical request line.\<close>

lemma request_line_tokens:
  assumes "word_text m" "word_text p" "word_text v"
  shows "strtok (Some (m @ CHR '' '' # p @ CHR '' '' # v)) CHR '' '' sv = (Some m, p @ CHR '' '' # v)"
    and "strtok None CHR '' '' (p @ CHR '' '' # v) = (Some p, v)"
    and "strtok None CHR '' '' v = (Some v, [])"
  using assms strtok_token by (simp_all add: word_text_def)

text \<open>A request that starts with a method and a space has that method in its request line.\<close>

lemma method_in_line:
  assumes "take (length m + 1) s = m @ '' ''" and "word_text m" and "strstr s CRLF = Some i"
  shows "\<exists>r. take i s = m @ CHR '' '' # r"
proof -
  let ?p = "m @ '' ''"
  have s: "s = ?p @ drop (length m + 1) s" using assms(1) by (metis append_take_drop_id)
  have "length m + 1 \<le> i"
  proof (rule ccontr)
    assume "\<not> length m + 1 \<le> i"
    then have i: "i < length ?p" by simp
    from strstr_Some [OF assms(3)] have "i + 2 \<le> length s" "take 2 (drop i s) = CRLF" by (simp_all add: eval_nat_numeral)
    then have "s ! i = CHR 0x0D" by (metis Cons_nth_drop_Suc add_lessD1 less_le_trans list.inject numeral_2_eq_2 take_Suc_Cons less_add_same_cancel1 zero_less_numeral)
    moreover have "s ! i = ?p ! i" using s i by (metis nth_append)
    ultimately have "CHR 0x0D \<in> set ?p" using i by (metis nth_mem)
    with assms(2) show False by (auto simp: word_text_def line_text_def)
  qed
  then obtain k where "i = length ?p + k" by (auto dest: le_Suc_ex)
  then have "take i s = ?p @ take k (drop (length m + 1) s)" by (subst s) simp
  then show ?thesis by simp
qed

lemma method_token:
  assumes "word_text m"
  shows "fst (strtok (Some (m @ CHR '' '' # r)) CHR '' '' sv) = Some m"
  using strtok_token(1) [of m r sv] assms by (simp add: word_text_def)

lemma methods_words: "m \<in> set http_methods \<Longrightarrow> word_text m"
  by (auto simp: http_methods_def word_text_def)

lemma validate_prefix:
  "validate_http_request (Some r) len = 1 \<longleftrightarrow>
    0 < len \<and> (\<exists>m \<in> set http_methods. take (length m + 1) r = m @ '' '')"
  by (auto simp: validate_http_request_def strncmp_eq_def http_methods_def eval_nat_numeral)

text \<open>With memory, the parser returns.\<close>

lemma dup_field_ok [simp]: "dup_field (\<lambda>_. True) site s old = Some (if s = None then old else s)"
  by (cases s) (simp_all add: dup_field_def)

lemma port_fits [simp]: "copy_to 3 ''80'' = Some ''80''"
  by (simp add: copy_to_def)

lemma parse_fields_ok:
  "header_loop (\<lambda>_. True) (i + 2) (drop (i + 2) bytes) = Some h \<Longrightarrow>
    parse_fields (\<lambda>_. True) p bytes i m pa v =
      Some (p\<lparr>pr_method := if m = None then pr_method p else m, pr_path := if pa = None then pr_path p else pa,
         pr_version := if v = None then pr_version p else v, pr_host := if h = None then pr_host p else h,
         pr_port := if pr_port p = None then Some ''80'' else pr_port p\<rparr>)"
  unfolding parse_fields_def dup_field_ok by simp

lemma parse_from_method_ok:
  assumes "strtok None CHR '' '' s1 = (pa, s2)" and "strtok None CHR '' '' s2 = (v, s3)"
    and "header_loop (\<lambda>_. True) (i + 2) (drop (i + 2) bytes) = Some h"
  shows "parse_from_method (\<lambda>_. True) p bytes i m s1 =
      Some (0, Some (p\<lparr>pr_method := if m = None then pr_method p else m, pr_path := if pa = None then pr_path p else pa,
         pr_version := if v = None then pr_version p else v, pr_host := if h = None then pr_host p else h,
         pr_port := if pr_port p = None then Some ''80'' else pr_port p\<rparr>), s3)"
  unfolding parse_from_method_def Let_def assms(1,2) prod.case parse_fields_ok [OF assms(3)] by simp

lemma parse_after_line_ok:
  assumes "strtok (Some (take i bytes)) CHR '' '' sv = (m, s1)" and "strtok None CHR '' '' s1 = (pa, s2)"
    and "strtok None CHR '' '' s2 = (v, s3)"
  obtains h where "header_loop (\<lambda>_. True) (i + 2) (drop (i + 2) bytes) = Some h"
    and "parse_after_line (\<lambda>_. True) p bytes i sv =
      Some (0, Some (p\<lparr>pr_method := if m = None then pr_method p else m, pr_path := if pa = None then pr_path p else pa,
         pr_version := if v = None then pr_version p else v, pr_host := if h = None then pr_host p else h,
         pr_port := if pr_port p = None then Some ''80'' else pr_port p\<rparr>), s3)"
proof -
  obtain h where h: "header_loop (\<lambda>_. True) (i + 2) (drop (i + 2) bytes) = Some h"
    using header_loop_total by blast
  have "parse_after_line (\<lambda>_. True) p bytes i sv = parse_from_method (\<lambda>_. True) p bytes i m s1"
    unfolding parse_after_line_def Let_def assms(1) prod.case by simp
  with h parse_from_method_ok [OF assms(2,3) h] that show thesis by simp
qed

lemma parsed_method:
  assumes "validate_http_request (Some (cstr b)) len = 1" and "length b = nat len"
    and "ParsedRequest_parse (\<lambda>_. True) (Some p) (Some b) len sv = Some (0, Some pr, sv')"
  shows "\<exists>m \<in> set http_methods. pr_method pr = Some m"
proof -
  from assms(1) validate_prefix obtain m where m: "0 < len" "m \<in> set http_methods"
      "take (length m + 1) (cstr b) = m @ '' ''" by blast
  let ?p = "p\<lparr>pr_buf := Some b, pr_buflen := len\<rparr>"
  from assms(2,3) m(1) obtain i where i: "strstr (cstr b) CRLF = Some i"
      "parse_after_line (\<lambda>_. True) ?p b i sv = Some (0, Some pr, sv')"
    by (auto simp: ParsedRequest_parse_def Let_def split: option.splits)
  from method_in_line [OF m(3) methods_words [OF m(2)] i(1)] obtain r where
    r: "take i (cstr b) = m @ CHR '' '' # r" by blast
  have "i \<le> length (cstr b)" using strstr_Some [OF i(1)] by simp
  then have "take i b = take i (cstr b)" unfolding cstr_def by (metis takeWhile_eq_take take_take min.absorb1)
  with r method_token [OF methods_words [OF m(2)], of r sv] obtain s1 where
    t1: "strtok (Some (take i b)) CHR '' '' sv = (Some m, s1)" by (metis prod.collapse)
  obtain pa s2 v s3 where t: "strtok None CHR '' '' s1 = (pa, s2)" "strtok None CHR '' '' s2 = (v, s3)" by fastforce
  obtain h where "parse_after_line (\<lambda>_. True) ?p b i sv = Some (0, Some (?p\<lparr>pr_method := Some m,
      pr_path := if pa = None then pr_path ?p else pa, pr_version := if v = None then pr_version ?p else v,
      pr_host := if h = None then pr_host ?p else h, pr_port := if pr_port ?p = None then Some ''80'' else pr_port ?p\<rparr>), s3)"
    by (rule parse_after_line_ok [OF t1 t, of ?p]) (use that in simp)
  with i(2) have "pr_method pr = Some m" by auto
  with m(2) show ?thesis by blast
qed

lemma parse_returns:
  assumes "0 < len" and "nat len \<le> length b"
  shows "\<exists>res pr sv'. ParsedRequest_parse (\<lambda>_. True) (Some p) (Some b) len sv = Some (res, Some pr, sv') \<and> (res = 0 \<or> res = - 1)"
proof (cases "strstr (cstr (take (nat len) b)) CRLF")
  case None
  with assms show ?thesis by (simp add: ParsedRequest_parse_def Let_def)
next
  case (Some i)
  let ?b = "take (nat len) b" and ?p = "p\<lparr>pr_buf := Some (take (nat len) b), pr_buflen := len\<rparr>"
  have e: "ParsedRequest_parse (\<lambda>_. True) (Some p) (Some b) len sv = parse_after_line (\<lambda>_. True) ?p ?b i sv"
    using assms Some by (simp add: ParsedRequest_parse_def Let_def)
  obtain m s1 pa s2 v s3 where t: "strtok (Some (take i ?b)) CHR '' '' sv = (m, s1)"
      "strtok None CHR '' '' s1 = (pa, s2)" "strtok None CHR '' '' s2 = (v, s3)" by (meson surj_pair)
  show ?thesis unfolding e by (rule parse_after_line_ok [OF t, of ?p]) simp
qed

subsection \<open>Canonical requests\<close>

definition parsed :: "string \<Rightarrow> string \<Rightarrow> string \<Rightarrow> string option \<Rightarrow> string \<Rightarrow> ParsedRequest" where
  "parsed m p v host bytes = empty_request\<lparr>pr_buf := Some bytes, pr_buflen := int (length bytes), pr_method := Some m,
     pr_path := Some p, pr_version := Some v, pr_host := host, pr_port := Some ''80''\<rparr>"

lemma parsed_simps [simp]:
  "pr_method (parsed m p v host bytes) = Some m" "pr_path (parsed m p v host bytes) = Some p"
  "pr_version (parsed m p v host bytes) = Some v" "pr_host (parsed m p v host bytes) = host"
  "pr_port (parsed m p v host bytes) = Some ''80''" "pr_buf (parsed m p v host bytes) = Some bytes"
  by (simp_all add: parsed_def)

lemma render_request_line:
  assumes "word_text m" "word_text p" "word_text v"
  shows "strstr (cstr (render_request m p v headers)) CRLF = Some (length (m @ '' '' @ p @ '' '' @ v))"
    and "take (length (m @ '' '' @ p @ '' '' @ v)) (render_request m p v headers) = m @ '' '' @ p @ '' '' @ v"
    and "drop (length (m @ '' '' @ p @ '' '' @ v) + 2) (render_request m p v headers) = headers"
proof -
  let ?line = "m @ '' '' @ p @ '' '' @ v"
  have r: "render_request m p v headers = ?line @ CRLF @ headers" by (simp add: render_request_def)
  have "line_text ?line" using assms by (simp add: word_text_def)
  from strstr_line [OF this, of headers]
  show "strstr (cstr (render_request m p v headers)) CRLF = Some (length ?line)" by (simp add: r)
  show "take (length ?line) (render_request m p v headers) = ?line" unfolding r by (metis append_eq_conv_conj)
  show "drop (length ?line + 2) (render_request m p v headers) = headers" unfolding r drop_append by simp
qed

lemma parse_render:
  assumes w: "word_text m" "word_text p" "word_text v"
    and h: "header_loop (\<lambda>_. True) (length (m @ '' '' @ p @ '' '' @ v) + 2) headers = Some host"
  shows "ParsedRequest_parse (\<lambda>_. True) (Some empty_request) (Some (render_request m p v headers))
      (int (length (render_request m p v headers))) sv =
    Some (0, Some (parsed m p v host (render_request m p v headers)), [])"
proof -
  let ?r = "render_request m p v headers" and ?i = "length (m @ '' '' @ p @ '' '' @ v)"
  let ?p = "empty_request\<lparr>pr_buf := Some ?r, pr_buflen := int (length ?r)\<rparr>"
  note l = render_request_line [OF w, of headers]
  have "?r \<noteq> []" using w by (simp add: render_request_def word_text_def)
  then have "0 < int (length ?r)" by simp
  then have e: "ParsedRequest_parse (\<lambda>_. True) (Some empty_request) (Some ?r) (int (length ?r)) sv
      = parse_after_line (\<lambda>_. True) ?p ?r ?i sv"
    unfolding ParsedRequest_parse_def Let_def by (simp add: l(1) del: length_append)
  have t: "strtok (Some (take ?i ?r)) CHR '' '' sv = (Some m, p @ CHR '' '' # v)"
    unfolding l(2) using request_line_tokens(1) [OF w, of sv] by simp
  have hs: "header_loop (\<lambda>_. True) (?i + 2) (drop (?i + 2) ?r) = Some host" unfolding l(3) by (rule h)
  show ?thesis unfolding e
    by (rule parse_after_line_ok [OF t request_line_tokens(2,3) [OF w], of ?p])
      (use hs in \<open>simp add: parsed_def empty_request_def\<close>)
qed

lemma header_loop_end: "header_loop mem pos (CHR 0x0D # CHR 0x0A # t) = Some None"
  by (subst header_loop.simps) (simp add: cstr_Cons)

lemma header_loop_host:
  assumes "\<forall>h \<in> set hs. other_header h" and "line_text hn" "CHR '':'' \<notin> set hn" "strcasecmp_eq hn ''Host''"
    and "line_text host" and "host = [] \<or> hd host \<noteq> CHR '' ''"
  shows "header_loop (\<lambda>_. True) pos (concat (map render_header hs) @ hn @ CHR '':'' # replicate k CHR '' '' @ host @ CRLF @ rest)
    = Some (Some host)"
proof -
  have l: "line_text (replicate k CHR '' '' @ host)" using assms(5) by (induction k) auto
  have "dropWhile (\<lambda>c. c = CHR '' '') (replicate k CHR '' '' @ host) = host"
    using assms(6) by (induction k) (cases host, auto)+
  with header_loop_line [OF assms(2,3) l, of "\<lambda>_. True" _ rest] assms(4)
  have "header_loop (\<lambda>_. True) pos' (hn @ CHR '':'' # replicate k CHR '' '' @ host @ CRLF @ rest) = Some (Some host)" for pos'
    by simp
  with header_loop_skip [OF assms(1)] show ?thesis by metis
qed

text \<open>A request line with a method alone passes validation and is parsed with success, but the
  parsed request has no path.\<close>

lemma method_only_has_no_path:
  assumes "m \<in> set http_methods" and r: "r = m @ '' '' @ CRLF @ rest"
  shows "validate_http_request (Some (cstr r)) (int (length r)) = 1
     \<and> (\<exists>pr. ParsedRequest_parse (\<lambda>_. True) (Some empty_request) (Some r) (int (length r)) sv = Some (0, Some pr, [])
           \<and> pr_method pr = Some m \<and> pr_path pr = None)"
proof -
  note m = assms(1)
  have w: "word_text m" using methods_words [OF m] .
  let ?line = "m @ '' ''"
  have rl: "r = ?line @ CRLF @ rest" using r by simp
  have lt: "line_text ?line" using w by (simp add: word_text_def)
  have s: "strstr (cstr r) CRLF = Some (length ?line)" using strstr_line [OF lt, of rest] rl by simp
  have t: "take (length ?line) r = ?line" unfolding rl by (metis append_eq_conv_conj)
  have "cstr r = ?line @ cstr (CRLF @ rest)"
    unfolding rl using lt by (intro cstr_append) (simp add: line_text_def)
  then have "validate_http_request (Some (cstr r)) (int (length r)) = 1"
    unfolding validate_prefix using m rl by (auto intro!: bexI [of _ m])
  moreover have "\<exists>pr. ParsedRequest_parse (\<lambda>_. True) (Some empty_request) (Some r) (int (length r)) sv = Some (0, Some pr, [])
           \<and> pr_method pr = Some m \<and> pr_path pr = None"
  proof -
    let ?p = "empty_request\<lparr>pr_buf := Some r, pr_buflen := int (length r)\<rparr>"
    have "r \<noteq> []" using rl by simp
    then have e: "ParsedRequest_parse (\<lambda>_. True) (Some empty_request) (Some r) (int (length r)) sv
        = parse_after_line (\<lambda>_. True) ?p r (length ?line) sv"
      unfolding ParsedRequest_parse_def Let_def by (simp add: s del: length_append)
    have t1: "strtok (Some (take (length ?line) r)) CHR '' '' sv = (Some m, [])"
      unfolding t using strtok_token(1) [of m "[]" sv] w by (simp add: word_text_def)
    have t2: "strtok None CHR '' '' [] = (None, [])" by (simp add: strtok_def)
    show ?thesis unfolding e
      by (rule parse_after_line_ok [OF t1 t2 t2, of ?p]) (simp add: empty_request_def)
  qed
  ultimately show ?thesis by blast
qed

subsection \<open>The Host header\<close>

definition host_part :: "string \<Rightarrow> string" where
  "host_part h = takeWhile (\<lambda>c. c \<noteq> CHR '':'') h"

lemma takeWhile_strchr: "strchr s x = Some k \<Longrightarrow> takeWhile (\<lambda>c. c \<noteq> x) s = take k s"
  by (induction s x arbitrary: k rule: strchr.induct) (auto split: if_splits)

lemma takeWhile_strchr_None: "strchr s x = None \<Longrightarrow> takeWhile (\<lambda>c. c \<noteq> x) s = s"
  by (auto simp: strchr_None takeWhile_eq_all_conv)

lemma extract_fits:
  assumes "length (host_part s) < cap"
  shows "\<exists>port. extract_host_port cap (Some s) = Some (0, Some (host_part s, port)) \<and> 1 \<le> port \<and> port \<le> 65535"
proof (cases "strchr s CHR '':''")
  case None
  with assms show ?thesis by (simp add: extract_host_port_def takeWhile_strchr_None host_part_def)
next
  case (Some k)
  then have "k \<le> length s" by (auto dest: strchr_Some)
  with Some assms show ?thesis by (auto simp: extract_host_port_def takeWhile_strchr Let_def host_part_def)
qed

lemma extract_overflows:
  assumes "cap \<le> length (host_part s)"
  shows "extract_host_port cap (Some s) = None"
proof (cases "strchr s CHR '':''")
  case None
  with assms show ?thesis by (simp add: extract_host_port_def takeWhile_strchr_None host_part_def)
next
  case (Some k)
  then have "k \<le> length s" by (auto dest: strchr_Some)
  with Some assms show ?thesis by (simp add: extract_host_port_def takeWhile_strchr host_part_def)
qed

end
