(* ===== verification/Http_Properties.thy ===== *)
theory Http_Properties
  imports Http_Facts
begin

section \<open>Properties of the HTTP parser\<close>

text \<open>
  Round trips of requests, Host headers and URLs through the parsers, what validation
  guarantees to the code behind it, and the inputs on which the parsers leave their buffers or
  mix up the requests of two threads.
\<close>

subsection \<open>Validation\<close>

text \<open>If an accepted request is parsed successfully, its method is one of the five.\<close>

theorem validated_method:
  assumes "validate_http_request (Some (cstr b)) len = 1" and "length b = nat len"
    and "ParsedRequest_parse (\<lambda>_. True) (Some p) (Some b) len sv = Some (0, Some pr, sv')"
  shows "\<exists>m \<in> set [''GET'', ''POST'', ''PUT'', ''DELETE'', ''HEAD'']. pr_method pr = Some m"
  using parsed_method [OF assms] by (simp only: http_methods_def)

theorem validated_method_witness:
  "\<exists>m \<in> set [''GET'', ''POST'', ''PUT'', ''DELETE'', ''HEAD''].
     pr_method (parsed ''GET'' ''/x'' ''HTTP/1.1'' None (render_request ''GET'' ''/x'' ''HTTP/1.1'' CRLF)) = Some m"
proof -
  let ?b = "render_request ''GET'' ''/x'' ''HTTP/1.1'' CRLF"
  have p: "ParsedRequest_parse (\<lambda>_. True) (Some empty_request) (Some ?b) (int (length ?b)) [] =
      Some (0, Some (parsed ''GET'' ''/x'' ''HTTP/1.1'' None ?b), [])"
    by (rule parse_render) (simp_all add: word_text_def header_loop_end)
  have "validate_http_request (Some (cstr ?b)) (int (length ?b)) = 1"
    by (simp add: validate_http_request_def strncmp_eq_def cstr_def render_request_def)
  from validated_method [OF this _ p] show ?thesis by simp
qed

subsection \<open>Parsing\<close>

text \<open>C25. Parsing never leaves the request's bytes: on any bytes it returns, 0 exactly when a line
  end comes before the first NUL; the method and path it finds are words without spaces, no
  longer than the request, and no field contains a NUL.\<close>

theorem parse_total:
  assumes "0 < len" and "nat len \<le> length b"
  shows "\<exists>res pr sv'. ParsedRequest_parse (\<lambda>_. True) (Some empty_request) (Some b) len sv = Some (res, Some pr, sv')
     \<and> (res = 0 \<or> res = - 1) \<and> (res = 0 \<longleftrightarrow> strstr (cstr (take (nat len) b)) CRLF \<noteq> None)
     \<and> pr_buf pr = Some (take (nat len) b)
     \<and> (\<forall>w. pr_method pr = Some w \<or> pr_path pr = Some w \<or> pr_version pr = Some w \<longrightarrow>
          w \<noteq> [] \<and> CHR '' '' \<notin> set w \<and> CHR 0x00 \<notin> set w \<and> length w < nat len)
     \<and> (\<forall>h. pr_host pr = Some h \<longrightarrow> CHR 0x00 \<notin> set h \<and> (\<exists>a z. b = a @ h @ z))"
proof (cases "strstr (cstr (take (nat len) b)) CRLF")
  case None
  with assms show ?thesis by (simp add: ParsedRequest_parse_def Let_def empty_request_def)
next
  case (Some i)
  let ?b = "take (nat len) b"
  let ?p = "empty_request\<lparr>pr_buf := Some ?b, pr_buflen := len\<rparr>"
  let ?line = "take i ?b"
  have i: "i + 2 \<le> length (cstr ?b)" using strstr_Some [OF Some] by simp
  then have "?line = take i (cstr ?b)" unfolding cstr_def by (metis takeWhile_eq_take take_take min.absorb1 add_leD1)
  then have nul: "CHR 0x00 \<notin> set ?line" using cstr_no_nul [of ?b] by (metis in_set_takeD)
  have len: "length ?line < nat len"
    using i assms length_takeWhile_le [of "\<lambda>c. c \<noteq> CHR 0x00" ?b] by (simp add: cstr_def)
  obtain m s1 where t1: "strtok (Some ?line) CHR '' '' sv = (m, s1)" by fastforce
  obtain pa s2 where t2: "strtok None CHR '' '' s1 = (pa, s2)" by fastforce
  obtain v s3 where t3: "strtok None CHR '' '' s2 = (v, s3)" by fastforce
  have word: "w \<noteq> [] \<and> CHR '' '' \<notin> set w \<and> CHR 0x00 \<notin> set w \<and> length w < nat len"
    if "m = Some w \<or> pa = Some w \<or> v = Some w" for w
    using tokens_of_line [OF t1 t2 t3 that] nul len by auto
  obtain h where h: "header_loop (\<lambda>_. True) (i + 2) (drop (i + 2) ?b) = Some h"
    "parse_after_line (\<lambda>_. True) ?p ?b i sv = Some (0, Some (?p\<lparr>pr_method := m, pr_path := pa,
       pr_version := v, pr_host := h, pr_port := Some ''80''\<rparr>), s3)"
    by (rule parse_after_line_ok [OF t1 t2 t3, of ?p]) (use that in \<open>simp add: empty_request_def\<close>)
  have host: "CHR 0x00 \<notin> set x \<and> (\<exists>a z. b = a @ x @ z)" if "h = Some x" for x
  proof -
    from header_loop_value [OF h(1) [unfolded that]] obtain a z where
      az: "drop (i + 2) ?b = a @ x @ z" "CHR 0x00 \<notin> set x" by blast
    have "b = (take (i + 2) ?b @ a) @ x @ (z @ drop (nat len) b)"
      by (metis append_assoc append_take_drop_id az(1))
    with az(2) show ?thesis by blast
  qed
  from assms Some h(2) have "ParsedRequest_parse (\<lambda>_. True) (Some empty_request) (Some b) len sv =
      Some (0, Some (?p\<lparr>pr_method := m, pr_path := pa, pr_version := v, pr_host := h, pr_port := Some ''80''\<rparr>), s3)"
    by (simp add: ParsedRequest_parse_def Let_def)
  with Some word host show ?thesis by simp
qed

theorem parse_total_witness:
  "\<exists>res pr sv'. ParsedRequest_parse (\<lambda>_. True) (Some empty_request) (Some ''GET'') 3 [] = Some (res, Some pr, sv')
     \<and> pr_buf pr = Some ''GET''"
  using parse_total [of 3 "''GET''" "[]"] by auto

text \<open>The list of headers that \<^verbatim>\<open>include/proxy_parse.h\<close> describes does not exist: a parsed request has none,
  \<open>ParsedHeader_set\<close> reports success and stores nothing, and \<open>ParsedHeader_get\<close> is NULL, which the usage
  example of the header dereferences.\<close>

lemma headers_never_stored:
  assumes "ParsedRequest_parse mem (Some empty_request) b len sv = Some (res, Some pr, sv')"
  shows "pr_headers pr = None \<and> pr_headersused pr = 0 \<and> pr_headerslen pr = 0"
    and "ParsedHeader_set (Some pr) key val = 0 \<and> ParsedHeader_get (Some pr) key = None"
proof -
  have "pr_headers pr = pr_headers empty_request \<and> pr_headersused pr = pr_headersused empty_request
      \<and> pr_headerslen pr = pr_headerslen empty_request"
    using assms
    by (auto simp: ParsedRequest_parse_def parse_after_line_def Let_def parse_from_method_def parse_fields_def bind_eq_Some_conv
        split: option.splits if_splits prod.splits)
  then show "pr_headers pr = None \<and> pr_headersused pr = 0 \<and> pr_headerslen pr = 0" by (simp add: empty_request_def)
qed (simp add: ParsedHeader_set_def ParsedHeader_get_def)

text \<open>C8. Parsing inverts printing: of a request line of three words, any other headers, and a Host
  header with its name in any case and any spaces before its value, it finds exactly the three
  words and the host, whatever bytes follow.\<close>

theorem parse_round_trip:
  assumes "word_text m" "word_text p" "word_text v" and "\<forall>h \<in> set hs. other_header h"
    and "line_text hn" "CHR '':'' \<notin> set hn" "strcasecmp_eq hn ''Host''"
    and "line_text host" "host = [] \<or> hd host \<noteq> CHR '' ''"
    and r: "r = render_request m p v (concat (map render_header hs) @ hn @ CHR '':'' # replicate k CHR '' '' @ host @ CRLF @ rest)"
  shows "\<exists>pr. ParsedRequest_parse (\<lambda>_. True) (Some empty_request) (Some r) (int (length r)) sv = Some (0, Some pr, [])
     \<and> pr_method pr = Some m \<and> pr_path pr = Some p \<and> pr_version pr = Some v \<and> pr_host pr = Some host
     \<and> pr_port pr = Some ''80''"
  using parse_render [OF assms(1-3) header_loop_host [OF assms(4-9)], of k rest sv] r by simp

theorem parse_round_trip_witness:
  "\<exists>pr. ParsedRequest_parse (\<lambda>_. True) (Some empty_request)
       (Some (render_request ''GET'' ''/x'' ''HTTP/1.1'' (''Accept:*'' @ CRLF @ ''hOSt:  a:81'' @ CRLF @ CRLF)))
       (int (length (render_request ''GET'' ''/x'' ''HTTP/1.1'' (''Accept:*'' @ CRLF @ ''hOSt:  a:81'' @ CRLF @ CRLF)))) []
     = Some (0, Some pr, []) \<and> pr_path pr = Some ''/x'' \<and> pr_host pr = Some ''a:81''"
proof -
  have cases: "strcasecmp_eq ''hOSt'' ''Host''" "\<not> strcasecmp_eq ''Accept'' ''Host''" by code_simp+
  have e: "''Accept:*'' @ CRLF @ ''hOSt:  a:81'' @ CRLF @ CRLF =
      concat (map render_header [(''Accept'', ''*'')]) @ ''hOSt'' @ CHR '':'' # replicate 2 CHR '' '' @ ''a:81'' @ CRLF @ CRLF"
    by (simp add: render_header_def numeral_eq_Suc)
  let ?r = "render_request ''GET'' ''/x'' ''HTTP/1.1'' (concat (map render_header [(''Accept'', ''*'')])
      @ ''hOSt'' @ CHR '':'' # replicate 2 CHR '' '' @ ''a:81'' @ CRLF @ CRLF)"
  have "\<exists>pr. ParsedRequest_parse (\<lambda>_. True) (Some empty_request) (Some ?r) (int (length ?r)) [] = Some (0, Some pr, [])
     \<and> pr_method pr = Some ''GET'' \<and> pr_path pr = Some ''/x'' \<and> pr_version pr = Some ''HTTP/1.1''
     \<and> pr_host pr = Some ''a:81'' \<and> pr_port pr = Some ''80''"
    by (rule parse_round_trip [OF _ _ _ _ _ _ cases(1) _ _ refl])
      (simp_all add: word_text_def other_header_def cases(2))
  then show ?thesis unfolding e by blast
qed

text \<open>\<open>strtok\<close> has one saved position for all threads: when another worker starts on its request
  line after this one has taken its method, this one goes on with the other's line. Its request
  is parsed with success, with its own method and host and with the other client's path.\<close>

theorem strtok_interleaving:
  assumes "word_text m1" "word_text p1" "word_text v1" and "word_text m2" "word_text p2" "word_text v2"
    and "header_loop (\<lambda>_. True) (length (m1 @ '' '' @ p1 @ '' '' @ v1) + 2) headers = Some host"
  shows "let bytes = render_request m1 p1 v1 headers; end1 = length (m1 @ '' '' @ p1 @ '' '' @ v1);
           (method1, saved) = strtok (Some (take end1 bytes)) CHR '' '' saved0;
           (method2, saved) = strtok (Some (m2 @ '' '' @ p2 @ '' '' @ v2)) CHR '' '' saved
         in \<exists>pr saved'. parse_from_method (\<lambda>_. True) empty_request bytes end1 method1 saved = Some (0, Some pr, saved')
           \<and> pr_method pr = Some m1 \<and> pr_path pr = Some p2 \<and> pr_host pr = host"
proof -
  note l = render_request_line [OF assms(1-3), of headers]
  have t1: "strtok (Some (m1 @ '' '' @ p1 @ '' '' @ v1)) CHR '' '' saved0 = (Some m1, p1 @ '' '' @ v1)"
    using request_line_tokens(1) [OF assms(1-3)] by simp
  have t2: "strtok (Some (m2 @ '' '' @ p2 @ '' '' @ v2)) CHR '' '' sv = (Some m2, p2 @ '' '' @ v2)" for sv
    using request_line_tokens(1) [OF assms(4-6)] by simp
  have "strtok None CHR '' '' (p2 @ '' '' @ v2) = (Some p2, v2)"
    using request_line_tokens(2) [OF assms(4-6)] by simp
  moreover have "header_loop (\<lambda>_. True) (length (m1 @ '' '' @ p1 @ '' '' @ v1) + 2)
      (drop (length (m1 @ '' '' @ p1 @ '' '' @ v1) + 2) (render_request m1 p1 v1 headers)) = Some host"
    unfolding l(3) by (rule assms(7))
  ultimately have rest: "parse_from_method (\<lambda>_. True) empty_request (render_request m1 p1 v1 headers)
      (length (m1 @ '' '' @ p1 @ '' '' @ v1)) (Some m1) (p2 @ '' '' @ v2) = Some (0, Some (empty_request\<lparr>pr_method := Some m1,
        pr_path := Some p2, pr_version := Some v2, pr_host := host, pr_port := Some ''80''\<rparr>), [])"
    using parse_from_method_ok [OF _ request_line_tokens(3) [OF assms(4-6)]] by (simp add: empty_request_def)
  show ?thesis unfolding Let_def l(2) t1 prod.case t2 rest by simp
qed

theorem strtok_interleaving_witness:
  "\<exists>pr saved. parse_from_method (\<lambda>_. True) empty_request (render_request ''GET'' ''/mine'' ''HTTP/1.1'' CRLF) 18
      (Some ''GET'') ''/theirs HTTP/1.1'' = Some (0, Some pr, saved) \<and> pr_path pr = Some ''/theirs''"
proof -
  have w: "word_text ''GET''" "word_text ''/mine''" "word_text ''HTTP/1.1''" "word_text ''/theirs''" by (simp_all add: word_text_def)
  have "strtok (Some ''GET /mine HTTP/1.1'') CHR '' '' [] = (Some ''GET'', ''/mine HTTP/1.1'')"
    "strtok (Some ''GET /theirs HTTP/1.1'') CHR '' '' ''/mine HTTP/1.1'' = (Some ''GET'', ''/theirs HTTP/1.1'')" by code_simp+
  with strtok_interleaving [OF w(1-3) w(1) w(4) w(3) header_loop_end [of _ _ "[]"], of "[]"] show ?thesis
    by (auto simp: Let_def render_request_def eval_nat_numeral)
qed

subsection \<open>The Host header and URLs\<close>

text \<open>C39. When the host fits into its buffer, the Host header is split at its first colon and the
  port is between 1 and 65535, whatever the header says; otherwise the copy overflows the buffer.\<close>

theorem extract_host_port_correct:
  "(case extract_host_port cap (Some s) of
      None \<Rightarrow> cap \<le> length (takeWhile (\<lambda>c. c \<noteq> CHR '':'') s)
    | Some r \<Rightarrow> length (takeWhile (\<lambda>c. c \<noteq> CHR '':'') s) < cap
        \<and> (\<exists>port. r = (0, Some (takeWhile (\<lambda>c. c \<noteq> CHR '':'') s, port)) \<and> 1 \<le> port \<and> port \<le> 65535))"
  using extract_fits [of s cap] extract_overflows [of cap s] by (cases "length (host_part s) < cap") (auto simp: host_part_def)

text \<open>A host and a port printed as \<open>host:port\<close> are read back.\<close>

theorem host_port_round_trip:
  assumes "CHR '':'' \<notin> set h" and "length h < cap" and "1 \<le> port" "port \<le> 65535"
  shows "extract_host_port cap (Some (h @ '':'' @ dec_int port)) = Some (0, Some (h, port))"
proof -
  have "atoi (dec_int port) = port" using assms(3,4) atoi_dec_nat [of "nat port"] by (simp add: dec_int_def)
  with assms strchr_first [OF assms(1), of "dec_int port"] show ?thesis by (simp add: extract_host_port_def)
qed

theorem host_port_round_trip_witness:
  "extract_host_port 256 (Some (''a.b:'' @ dec_int 8080)) = Some (0, Some (''a.b'', 8080))"
  using host_port_round_trip [of "''a.b''" 256 8080] by simp

text \<open>A URL of the forms that \<open>parse_request_url\<close> reads.\<close>

definition port_part :: "int option \<Rightarrow> string" where
  "port_part port = (case port of None \<Rightarrow> [] | Some n \<Rightarrow> CHR '':'' # dec_int n)"

definition render_url :: "string \<Rightarrow> string \<Rightarrow> int option \<Rightarrow> string \<Rightarrow> string" where
  "render_url scheme host port path = scheme @ host @ port_part port @ path"

lemma strchr_skip: "x \<notin> set s \<Longrightarrow> strchr (s @ t) x = map_option (\<lambda>i. length s + i) (strchr t x)"
  by (induction s; cases "strchr t x") auto

lemma dec_int_chars: "0 \<le> n \<Longrightarrow> CHR ''/'' \<notin> set (dec_int n) \<and> dec_int n \<noteq> []"
  using dec_nat_digits [of "nat n"] by (auto simp: dec_int_def isdigit_def)

text \<open>Where the colon and the slash of such a URL are.\<close>

lemma url_marks:
  assumes "CHR '':'' \<notin> set h" "CHR ''/'' \<notin> set h" and "path = [] \<or> hd path = CHR ''/''"
    and "\<forall>n. port = Some n \<longrightarrow> 0 \<le> n"
  shows "strchr (h @ port_part port @ path) CHR ''/'' = (if path = [] then None else Some (length h + length (port_part port)))"
    and "port = Some n \<Longrightarrow> strchr (h @ port_part port @ path) CHR '':'' = Some (length h)"
    and "port = None \<Longrightarrow> (case strchr (h @ port_part port @ path) CHR '':'' of None \<Rightarrow> True
       | Some c \<Rightarrow> path \<noteq> [] \<and> length h \<le> c)"
proof -
  have "CHR ''/'' \<notin> set (h @ port_part port)"
    using assms(2,4) dec_int_chars by (auto simp: port_part_def split: option.split)
  from strchr_skip [OF this, of path] assms(3)
  show "strchr (h @ port_part port @ path) CHR ''/'' = (if path = [] then None else Some (length h + length (port_part port)))"
    by (cases path) auto
  show "strchr (h @ port_part port @ path) CHR '':'' = Some (length h)" if "port = Some n"
    using that strchr_first [OF assms(1)] by (simp add: port_part_def)
  show "case strchr (h @ port_part port @ path) CHR '':'' of None \<Rightarrow> True | Some c \<Rightarrow> path \<noteq> [] \<and> length h \<le> c"
    if "port = None"
    using that strchr_skip [OF assms(1), of path] by (auto simp: port_part_def split: option.split)
qed

lemma url_host_no_scheme:
  assumes "CHR '':'' \<notin> set h" "CHR ''/'' \<notin> set h" and "path = [] \<or> hd path = CHR ''/''"
    and "\<forall>n. port = Some n \<longrightarrow> 0 \<le> n"
  shows "\<not> strncmp_eq 7 (h @ port_part port @ path) ''http://''"
proof
  let ?s = "h @ port_part port @ path"
  assume "strncmp_eq 7 ?s ''http://''"
  then have "?s = ''http://'' @ drop 7 ?s"
    using append_take_drop_id [of 7 ?s] by (simp add: strncmp_eq_def)
  then have "strchr ?s CHR '':'' = strchr (''http://'' @ drop 7 ?s) CHR '':''"
    "strchr ?s CHR ''/'' = strchr (''http://'' @ drop 7 ?s) CHR ''/''" by (simp_all only:)
  then have m: "strchr ?s CHR '':'' = Some 4" "strchr ?s CHR ''/'' = Some 5" by simp_all
  note u = url_marks [OF assms]
  show False
  proof (cases port)
    case None
    with u(3) m u(1) show False by (auto simp: port_part_def split: if_splits)
  next
    case (Some n)
    with dec_int_chars [of n] assms(4) have "length (dec_int n) \<noteq> 0" by simp
    with u(2) [OF Some] m u(1) Some show False by (auto simp: port_part_def split: if_splits)
  qed
qed

text \<open>A URL printed from its parts, with or without \<open>http://\<close>, a port and a path, is split into
  the same host, port and path; the port defaults to 80 and the path to \<open>/\<close>. The buffers must be
  as large as the parts, which the function does not check.\<close>

theorem url_round_trip:
  assumes "scheme = [] \<or> scheme = ''http://''" and "CHR '':'' \<notin> set h" "CHR ''/'' \<notin> set h" and "length h < hcap"
    and "path = [] \<or> hd path = CHR ''/''" and "1 < pcap" "length path < pcap"
    and "\<forall>n. port = Some n \<longrightarrow> 0 \<le> n \<and> n \<le> 65535"
  shows "parse_request_url hcap pcap (Some (render_url scheme h port path)) =
     Some (0, Some (h, case port of None \<Rightarrow> 80 | Some n \<Rightarrow> n, if path = [] then ''/'' else path))"
proof -
  let ?s = "h @ port_part port @ path"
  have p: "\<forall>n. port = Some n \<longrightarrow> 0 \<le> n" using assms(8) by blast
  note u = url_marks [OF assms(2,3,5) p]
  have start: "(if strncmp_eq 7 (scheme @ ?s) ''http://'' then drop 7 (scheme @ ?s) else scheme @ ?s) = ?s"
    using assms(1) url_host_no_scheme [OF assms(2,3,5) p] by (auto simp: strncmp_eq_def)
  show ?thesis
  proof (cases port)
    case None
    with u(1) u(3) [OF None] assms(4-7) show ?thesis
      unfolding parse_request_url_def render_url_def option.case Let_def start
      by (auto simp: port_part_def copy_to_def split: option.splits)
  next
    case (Some n)
    have "path = [] \<or> \<not> isdigit (hd path)" using assms(5) by (auto simp: isdigit_def)
    then have "atoi (dec_int n @ path) = n"
      using assms(8) Some atoi_dec_nat_append [of "nat n" path] by (auto simp: dec_int_def)
    with u(1) u(2) [OF Some] Some assms(4-7) show ?thesis
      unfolding parse_request_url_def render_url_def option.case Let_def start
      by (auto simp: port_part_def copy_to_def split: option.splits)
  qed
qed

theorem url_round_trip_witness:
  "parse_request_url 256 256 (Some (render_url ''http://'' ''a.b'' (Some 8080) ''/x:y'')) =
     Some (0, Some (''a.b'', 8080, ''/x:y''))"
  by (subst url_round_trip) simp_all

end
