(* ===== verification/Task_Queue.thy ===== *)
theory Task_Queue
  imports Linked_Lists Platform
begin

section \<open>The task queue: data and operations\<close>

text \<open>
  Models the data of \<^verbatim>\<open>include/proxy/thread_pool.h\<close> and the parts of
  \<^verbatim>\<open>src/components/thread_pool.c\<close> that work on the queue: a singly linked list with a head
  and a tail pointer. Each definition is a stretch of code between two synchronisation calls,
  so that \<open>Thread_Pool\<close> can interleave them. The tasks live in the field \<open>tasks\<close>; a task that
  a worker has taken stays allocated until its request has been handled.
\<close>

definition MAX_CLIENTS :: nat where
  [consts_defs]: "MAX_CLIENTS = 200"

definition NUM_WORKER_THREADS :: nat where
  [consts_defs]: "NUM_WORKER_THREADS = 4"

record task =
  client_socket :: int
  t_next :: ptr

record thread_pool =
  task_queue_head :: ptr
  task_queue_tail :: ptr
  queue_size :: int
  shutdown :: int
  tasks :: "task heap"

text \<open>
  The outcomes of the allocation, of the two initialisations and of the \<open>pthread_create\<close> calls.
\<close>

definition thread_pool_create :: "bool \<Rightarrow> bool \<Rightarrow> bool \<Rightarrow> (nat \<Rightarrow> bool) \<Rightarrow> thread_pool option" where
  "thread_pool_create malloc_pool mutex_init cond_init create =
     (if \<not> malloc_pool then None
      else if \<not> mutex_init then None
      else if \<not> cond_init then None
      else if list_all create [0..<NUM_WORKER_THREADS]
      then Some \<lparr>task_queue_head = None, task_queue_tail = None, queue_size = 0, shutdown = 0, tasks = Map.empty\<rparr>
      else None)"

text \<open>The new task of \<open>thread_pool_add_task\<close>, before the mutex is taken.\<close>

definition new_task :: "task allocator \<Rightarrow> int \<Rightarrow> thread_pool \<Rightarrow> ptr \<times> thread_pool" where
  "new_task al fd pool =
     (case al (tasks pool) of
        None \<Rightarrow> (None, pool)
      | Some a \<Rightarrow> (Some a, pool\<lparr>tasks := (tasks pool)(a \<mapsto> \<lparr>client_socket = fd, t_next = None\<rparr>)\<rparr>))"

definition queue_push :: "addr \<Rightarrow> thread_pool \<Rightarrow> thread_pool option" where
  "queue_push a pool =
     do {
       pool \<leftarrow> (if task_queue_tail pool \<noteq> None
                then map_option (\<lambda>h. pool\<lparr>tasks := h\<rparr>)
                       (poke (task_queue_tail pool) (\<lambda>t. t\<lparr>t_next := Some a\<rparr>) (tasks pool))
                else Some (pool\<lparr>task_queue_head := Some a\<rparr>));
       Some (pool\<lparr>task_queue_tail := Some a, queue_size := queue_size pool + 1\<rparr>)
     }"

definition thread_pool_add_task ::
    "task allocator \<Rightarrow> thread_pool option \<Rightarrow> int \<Rightarrow> (int \<times> thread_pool option) option" where
  "thread_pool_add_task al pool fd =
     (case pool of None \<Rightarrow> Some (- 1, None)
      | Some pl \<Rightarrow>
          if fd \<le> 0 then Some (- 1, pool)
          else (case new_task al fd pl of
             (None, pl') \<Rightarrow> Some (- 1, Some pl')
           | (Some a, pl') \<Rightarrow> map_option (\<lambda>pl''. (0, Some pl'')) (queue_push a pl')))"

text \<open>
  The body of the loop of \<open>proxy_server_start\<close> on the result of \<open>accept\<close>: the pool, and the
  socket that is closed when the task could not be added.
\<close>

definition accept_client ::
    "task allocator \<Rightarrow> thread_pool option \<Rightarrow> int \<Rightarrow> (thread_pool option \<times> sys_event list) option" where
  "accept_client al pool fd =
     (if fd < 0 then Some (pool, [])
      else do {
        (res, pool) \<leftarrow> thread_pool_add_task al pool fd;
        Some (pool, if res \<noteq> 0 then socket_close fd else [])
      })"

text \<open>Lines 34 to 41 of \<open>worker_thread\<close>.\<close>

definition queue_take :: "thread_pool \<Rightarrow> (ptr \<times> thread_pool) option" where
  "queue_take pool =
     (case task_queue_head pool of
        None \<Rightarrow> Some (None, pool)
      | Some a \<Rightarrow> do {
          t \<leftarrow> deref (tasks pool) (Some a);
          let pool = pool\<lparr>task_queue_head := t_next t\<rparr>;
          let pool = (if task_queue_head pool = None then pool\<lparr>task_queue_tail := None\<rparr> else pool);
          Some (Some a, pool\<lparr>queue_size := queue_size pool - 1\<rparr>)
        })"

definition free_task :: "addr \<Rightarrow> thread_pool \<Rightarrow> thread_pool option" where
  "free_task a pool = map_option (\<lambda>h. pool\<lparr>tasks := h\<rparr>) (release (Some a) (tasks pool))"

text \<open>The loop of \<open>thread_pool_destroy\<close> over the tasks that are left: the sockets it closes.\<close>

partial_function (option) drain_tasks :: "task heap \<Rightarrow> ptr \<Rightarrow> (int list \<times> task heap) option" where
  "drain_tasks h current =
     (case current of
        None \<Rightarrow> Some ([], h)
      | Some a \<Rightarrow> do {
          t \<leftarrow> deref h current;
          h \<leftarrow> release current h;
          (fds, h) \<leftarrow> drain_tasks h (t_next t);
          Some (client_socket t # fds, h)
        })"

subsection \<open>A queue of cells: the interface\<close>

datatype queue_op = Q_Push addr | Q_Take

fun queue_run ::
    "(addr \<Rightarrow> 'q \<Rightarrow> 'q option) \<Rightarrow> ('q \<Rightarrow> (ptr \<times> 'q) option) \<Rightarrow> queue_op list \<Rightarrow> 'q \<Rightarrow> (addr list \<times> 'q) option" where
  "queue_run push tk [] q = Some ([], q)"
| "queue_run push tk (Q_Push a # ops) q = do { q \<leftarrow> push a q; queue_run push tk ops q }"
| "queue_run push tk (Q_Take # ops) q =
     do {
       (p, q) \<leftarrow> tk q;
       (as, q) \<leftarrow> queue_run push tk ops q;
       Some ((case p of None \<Rightarrow> as | Some a \<Rightarrow> a # as), q)
     }"

fun pushes :: "queue_op list \<Rightarrow> addr list" where
  "pushes [] = []"
| "pushes (Q_Push a # ops) = a # pushes ops"
| "pushes (Q_Take # ops) = pushes ops"

text \<open>
  \<open>queued q as\<close>: the queue is well linked and holds the cells \<open>as\<close>; \<open>spare q a\<close>: the cell \<open>a\<close> is
  allocated and may be pushed.
\<close>

locale cell_queue =
  fixes push :: "addr \<Rightarrow> 'q \<Rightarrow> 'q option"
    and tk :: "'q \<Rightarrow> (ptr \<times> 'q) option"
    and queued :: "'q \<Rightarrow> addr list \<Rightarrow> bool"
    and spare :: "'q \<Rightarrow> addr \<Rightarrow> bool"
  assumes push_ok: "queued q as \<Longrightarrow> spare q a \<Longrightarrow> a \<notin> set as \<Longrightarrow>
      \<exists>q'. push a q = Some q' \<and> queued q' (as @ [a]) \<and> (\<forall>b. b \<noteq> a \<and> b \<notin> set as \<longrightarrow> spare q' b = spare q b)"
    and take_ok: "queued q as \<Longrightarrow>
      \<exists>q'. tk q = Some (case as of [] \<Rightarrow> None | a # _ \<Rightarrow> Some a, q') \<and> queued q' (tl as) \<and> spare q' = spare q"
    and queued_distinct: "queued q as \<Longrightarrow> distinct as"
begin

text \<open>First in, first out, over any run.\<close>

lemma fifo:
  assumes "queued q as" and "\<forall>a \<in> set (pushes ops). spare q a" and "distinct (as @ pushes ops)"
  shows "\<exists>taken q' rest. queue_run push tk ops q = Some (taken, q') \<and> queued q' rest \<and> taken @ rest = as @ pushes ops"
  using assms
proof (induction ops arbitrary: q as)
  case Nil
  then show ?case by auto
next
  case (Cons op ops)
  show ?case
  proof (cases op)
    case (Q_Push a)
    with Cons.prems push_ok [of q as a] obtain q1 where q1: "push a q = Some q1" "queued q1 (as @ [a])"
        "\<forall>b. b \<noteq> a \<and> b \<notin> set as \<longrightarrow> spare q1 b = spare q b" by auto
    have "\<forall>b \<in> set (pushes ops). spare q1 b" using Cons.prems(2,3) q1(3) Q_Push by auto
    with Cons.IH [OF q1(2)] Cons.prems(3) Q_Push q1(1) show ?thesis by simp
  next
    case Q_Take
    with take_ok [OF Cons.prems(1)] obtain q1 where q1: "tk q = Some (case as of [] \<Rightarrow> None | a # _ \<Rightarrow> Some a, q1)"
        "queued q1 (tl as)" "spare q1 = spare q" by blast
    have "distinct (tl as @ pushes ops)" using Cons.prems(3) Q_Take by (cases as) simp_all
    with Cons.IH [OF q1(2)] Cons.prems(2) Q_Take q1(3) obtain taken q' rest where
      "queue_run push tk ops q1 = Some (taken, q')" "queued q' rest" "taken @ rest = tl as @ pushes ops" by auto
    with q1(1) Q_Take show ?thesis by (cases as) auto
  qed
qed

end

subsection \<open>The linked list implements the interface\<close>

definition queue_repr :: "thread_pool \<Rightarrow> addr list \<Rightarrow> bool" where
  "queue_repr pool as \<longleftrightarrow> lseg (tasks pool) t_next (task_queue_head pool) as None
     \<and> task_queue_tail pool = (if as = [] then None else Some (last as)) \<and> queue_size pool = int (length as)"

definition spare_task :: "thread_pool \<Rightarrow> addr \<Rightarrow> bool" where
  "spare_task pool a \<longleftrightarrow> (\<exists>fd. tasks pool a = Some \<lparr>client_socket = fd, t_next = None\<rparr>)"

lemma queue_push_ok:
  assumes "queue_repr pool as" and "spare_task pool a" and "a \<notin> set as"
  shows "\<exists>pool'. queue_push a pool = Some pool' \<and> queue_repr pool' (as @ [a])
     \<and> (\<forall>b. b \<notin> set as \<longrightarrow> tasks pool' b = tasks pool b) \<and> dom (tasks pool') = dom (tasks pool)
     \<and> (\<forall>b. map_option client_socket (tasks pool' b) = map_option client_socket (tasks pool b))
     \<and> shutdown pool' = shutdown pool"
proof (cases as rule: rev_cases)
  case Nil
  with assms show ?thesis by (auto simp: queue_push_def queue_repr_def spare_task_def)
next
  case (snoc bs b)
  with assms(1) lseg_distinct [of "tasks pool" t_next _ "bs @ [b]"] have d: "distinct (bs @ [b])"
    unfolding queue_repr_def by blast
  from assms(1) snoc obtain t where t: "tasks pool b = Some t" "task_queue_tail pool = Some b"
      "lseg (tasks pool) t_next (task_queue_head pool) bs (Some b)" by (auto simp: queue_repr_def)
  with assms snoc d show ?thesis
    by (auto simp: queue_push_def queue_repr_def spare_task_def mem_simps)
qed

lemma queue_take_ok:
  assumes "queue_repr pool as"
  shows "\<exists>pool'. queue_take pool = Some (case as of [] \<Rightarrow> None | a # _ \<Rightarrow> Some a, pool')
     \<and> queue_repr pool' (tl as) \<and> tasks pool' = tasks pool \<and> shutdown pool' = shutdown pool"
proof (cases as)
  case Nil
  with assms show ?thesis by (simp add: queue_take_def queue_repr_def)
next
  case (Cons a bs)
  with assms obtain t where t: "tasks pool a = Some t" "lseg (tasks pool) t_next (t_next t) bs None"
    "task_queue_head pool = Some a" by (auto simp: queue_repr_def)
  with Cons assms show ?thesis
    by (cases bs) (auto simp: queue_take_def queue_repr_def Let_def)
qed

interpretation tq: cell_queue queue_push queue_take queue_repr spare_task
proof unfold_locales
  fix q as a assume "queue_repr q as" "spare_task q a" "a \<notin> set as"
  from queue_push_ok [OF this] show "\<exists>q'. queue_push a q = Some q' \<and> queue_repr q' (as @ [a])
      \<and> (\<forall>b. b \<noteq> a \<and> b \<notin> set as \<longrightarrow> spare_task q' b = spare_task q b)"
    by (auto simp: spare_task_def)
next
  fix q as assume "queue_repr q as"
  from queue_take_ok [OF this] show "\<exists>q'. queue_take q = Some (case as of [] \<Rightarrow> None | a # _ \<Rightarrow> Some a, q')
      \<and> queue_repr q' (tl as) \<and> spare_task q' = spare_task q"
    by (auto simp: spare_task_def fun_eq_iff)
next
  fix q as assume "queue_repr q as"
  then show "distinct as" by (auto simp: queue_repr_def dest: lseg_distinct)
qed

lemma drain_tasks_ok:
  "lseg h t_next p as None \<Longrightarrow>
    drain_tasks h p = Some (map (client_socket \<circ> the \<circ> h) as, h |` (- set as))"
proof (induction as arbitrary: h p)
  case Nil
  then show ?case by (subst drain_tasks.simps) (simp add: restrict_map_def)
next
  case (Cons a as)
  then obtain t where t: "h a = Some t" "lseg h t_next (t_next t) as None" "p = Some a" by auto
  have a: "a \<notin> set as" using lseg_tail_notin [OF t(1,2)] .
  then have "lseg (h(a := None)) t_next (t_next t) as None" using t(2) by simp
  note ih = Cons.IH [OF this]
  have "map (client_socket \<circ> the \<circ> h(a := None)) as = map (client_socket \<circ> the \<circ> h) as" using a by simp
  moreover have "h(a := None) |` (- set as) = h |` (- set (a # as))" by (auto simp: restrict_map_def fun_eq_iff)
  ultimately have "drain_tasks (h(a := None)) (t_next t) = Some (map (client_socket \<circ> the \<circ> h) as, h |` (- set (a # as)))"
    using ih by (simp only:)
  with t show ?case by (subst drain_tasks.simps) (simp add: mem_simps del: fun_upd_apply)
qed

lemma empty_queue: "thread_pool_create m mi ci cr = Some pool \<Longrightarrow> queue_repr pool [] \<and> tasks pool = Map.empty \<and> shutdown pool = 0"
  by (auto simp: thread_pool_create_def queue_repr_def split: if_splits)

end
