(* ===== verification/Thread_Pool.thy ===== *)
theory Thread_Pool
  imports Task_Queue "HOL-Library.Multiset"
begin

section \<open>The thread pool: worker threads as a step relation\<close>

text \<open>
  The main thread (\<open>proxy_server_start\<close>, \<open>thread_pool_add_task\<close>, \<open>thread_pool_destroy\<close>) and
  the workers (\<open>worker_thread\<close>) of \<^verbatim>\<open>src/components/thread_pool.c\<close> interleaved. A thread's
  program counter stands before the synchronisation call it is about to make, or inside the
  critical section it holds \<open>queue_mutex\<close> for; a step takes it to its next one.
  \<open>pthread_cond_wait\<close> releases the mutex and waits in one step, may wake spuriously, and takes
  the mutex again before it returns; \<open>pthread_cond_signal\<close> wakes one waiting thread, if there is
  one. A failed \<open>accept\<close> is a step too, since the loop calls \<open>accept\<close> again at once. A connection
  and the \<open>malloc\<close> of its task are one step, as the main thread touches nothing of the other
  threads in between. A signal handler runs on the main thread: with \<open>sig\<close> it may come at any
  point of the accept loop, between \<open>accept\<close> and \<open>malloc\<close> too (\<open>m_signal_got\<close>); without it only
  while \<open>accept\<close> waits. \<open>thread_pool_create\<close> has returned before the first step;
  \<open>Thread_Create\<close> shows that this loses nothing. The five lists and the counter at the end of the
  state are logs the code does not keep.
\<close>

datatype worker_pc = W_Lock | W_Check | W_Wait | W_Woken | W_Sem addr | W_Handle addr | W_Exit

datatype main_pc = M_Accept | M_Lock addr | M_Push addr | M_Shut | M_Join | M_Drain | M_Done

datatype owner = By_Worker nat | By_Main

record tp_sys =
  pool :: thread_pool
  mutex :: "owner option"
  semaphore :: nat
  workers :: "worker_pc list"
  main :: main_pc
  accepted :: "int list"
  pushed :: "int list"
  taken :: "int list"
  handled :: "int list"
  refused :: "int list"
  failed :: nat

definition tp_init :: tp_sys where
  "tp_init = \<lparr>pool = \<lparr>task_queue_head = None, task_queue_tail = None, queue_size = 0, shutdown = 0, tasks = Map.empty\<rparr>,
     mutex = None, semaphore = MAX_CLIENTS, workers = replicate NUM_WORKER_THREADS W_Lock, main = M_Accept,
     accepted = [], pushed = [], taken = [], handled = [], refused = [], failed = 0\<rparr>"

definition pc_is :: "tp_sys \<Rightarrow> nat \<Rightarrow> worker_pc \<Rightarrow> bool" where
  "pc_is s w pc \<longleftrightarrow> w < length (workers s) \<and> workers s ! w = pc"

definition goto :: "nat \<Rightarrow> worker_pc \<Rightarrow> tp_sys \<Rightarrow> tp_sys" where
  "goto w pc s = s\<lparr>workers := (workers s)[w := pc]\<rparr>"

definition wake_all :: "worker_pc list \<Rightarrow> worker_pc list" where
  "wake_all = map (\<lambda>pc. if pc = W_Wait then W_Woken else pc)"

definition sock_of :: "tp_sys \<Rightarrow> addr \<Rightarrow> int" where
  "sock_of s a = client_socket (the (tasks (pool s) a))"

inductive worker_step :: "nat \<Rightarrow> tp_sys \<Rightarrow> tp_sys \<Rightarrow> bool" for w where
  w_lock: "pc_is s w W_Lock \<or> pc_is s w W_Woken \<Longrightarrow> mutex s = None \<Longrightarrow>
    worker_step w s (goto w W_Check s\<lparr>mutex := Some (By_Worker w)\<rparr>)"
| w_wait: "pc_is s w W_Check \<Longrightarrow> task_queue_head (pool s) = None \<Longrightarrow> shutdown (pool s) = 0 \<Longrightarrow>
    worker_step w s (goto w W_Wait s\<lparr>mutex := None\<rparr>)"
| w_spurious: "pc_is s w W_Wait \<Longrightarrow> worker_step w s (goto w W_Woken s)"
| w_exit: "pc_is s w W_Check \<Longrightarrow> shutdown (pool s) \<noteq> 0 \<Longrightarrow>
    worker_step w s (goto w W_Exit s\<lparr>mutex := None\<rparr>)"
| w_take: "pc_is s w W_Check \<Longrightarrow> shutdown (pool s) = 0 \<Longrightarrow> queue_take (pool s) = Some (Some a, p) \<Longrightarrow>
    worker_step w s (goto w (W_Sem a) s\<lparr>pool := p, mutex := None, taken := taken s @ [sock_of s a]\<rparr>)"
| w_sem: "pc_is s w (W_Sem a) \<Longrightarrow> 0 < semaphore s \<Longrightarrow>
    worker_step w s (goto w (W_Handle a) s\<lparr>semaphore := semaphore s - 1\<rparr>)"
| w_done: "pc_is s w (W_Handle a) \<Longrightarrow> free_task a (pool s) = Some p \<Longrightarrow>
    worker_step w s (goto w W_Lock s\<lparr>pool := p, semaphore := semaphore s + 1, handled := handled s @ [sock_of s a]\<rparr>)"

inductive main_step :: "bool \<Rightarrow> tp_sys \<Rightarrow> tp_sys \<Rightarrow> bool" for sig where
  m_accept: "main s = M_Accept \<Longrightarrow> 0 < fd \<Longrightarrow> alloc_fresh al \<Longrightarrow> new_task al fd (pool s) = (Some a, p) \<Longrightarrow>
    main_step sig s (s\<lparr>main := M_Lock a, pool := p, accepted := accepted s @ [fd]\<rparr>)"
| m_refuse: "main s = M_Accept \<Longrightarrow> 0 \<le> fd \<Longrightarrow> fd = 0 \<or> new_task al fd (pool s) = (None, pool s) \<Longrightarrow>
    main_step sig s (s\<lparr>accepted := accepted s @ [fd], refused := refused s @ [fd]\<rparr>)"
| m_failed: "main s = M_Accept \<Longrightarrow> main_step sig s (s\<lparr>failed := failed s + 1\<rparr>)"
| m_lock: "main s = M_Lock a \<Longrightarrow> mutex s = None \<Longrightarrow> main_step sig s (s\<lparr>main := M_Push a, mutex := Some By_Main\<rparr>)"
| m_push: "main s = M_Push a \<Longrightarrow> queue_push a (pool s) = Some p \<Longrightarrow>
    (if W_Wait \<in> set (workers s) then \<exists>w. pc_is s w W_Wait \<and> pcs = (workers s)[w := W_Woken] else pcs = workers s) \<Longrightarrow>
    main_step sig s (s\<lparr>main := M_Accept, pool := p, mutex := None, workers := pcs, pushed := pushed s @ [sock_of s a]\<rparr>)"
| m_signal: "main s = M_Accept \<Longrightarrow> main_step sig s (s\<lparr>main := M_Shut\<rparr>)"
| m_signal_held: "sig \<Longrightarrow> main s = M_Lock a \<or> main s = M_Push a \<Longrightarrow> main_step sig s (s\<lparr>main := M_Shut\<rparr>)"
| m_signal_got: "sig \<Longrightarrow> main s = M_Accept \<Longrightarrow> 0 \<le> fd \<Longrightarrow>
    main_step sig s (s\<lparr>main := M_Shut, accepted := accepted s @ [fd]\<rparr>)"
| m_shut: "main s = M_Shut \<Longrightarrow> mutex s = None \<Longrightarrow>
    main_step sig s (s\<lparr>main := M_Join, pool := (pool s)\<lparr>shutdown := 1\<rparr>, workers := wake_all (workers s)\<rparr>)"
| m_join: "main s = M_Join \<Longrightarrow> \<forall>pc \<in> set (workers s). pc = W_Exit \<Longrightarrow> main_step sig s (s\<lparr>main := M_Drain\<rparr>)"
| m_drain: "main s = M_Drain \<Longrightarrow> mutex s = None \<Longrightarrow>
    drain_tasks (tasks (pool s)) (task_queue_head (pool s)) = Some (fds, h) \<Longrightarrow>
    main_step sig s (s\<lparr>main := M_Done, pool := (pool s)\<lparr>tasks := h\<rparr>, refused := refused s @ fds\<rparr>)"

inductive tp_step :: "bool \<Rightarrow> tp_sys \<Rightarrow> tp_sys \<Rightarrow> bool" for sig where
  by_worker: "worker_step w s s' \<Longrightarrow> tp_step sig s s'"
| by_main: "main_step sig s s' \<Longrightarrow> tp_step sig s s'"

inductive tp_reachable :: "bool \<Rightarrow> tp_sys \<Rightarrow> bool" for sig where
  tp_start: "tp_reachable sig tp_init"
| tp_next: "tp_reachable sig s \<Longrightarrow> tp_step sig s s' \<Longrightarrow> tp_reachable sig s'"

inductive_cases worker_stepE: "worker_step w s s'"
inductive_cases main_stepE: "main_step sig s s'"
inductive_simps tp_step_iff: "tp_step sig s s'"

text \<open>
  The main thread's steps, when nobody interrupts them, are \<open>accept_client\<close>: a socket is refused
  and closed in one step, or its task is created, the mutex taken, and the task queued.
\<close>

lemma accept_client_steps:
  assumes s: "main s = M_Accept" "mutex s = None" and "alloc_fresh al" and "0 \<le> fd"
    and a: "accept_client al (Some (pool s)) fd = Some (Some p, evs)"
  shows "\<exists>s'. (main_step sig)\<^sup>*\<^sup>* s s' \<and> pool s' = p \<and> main s' = M_Accept \<and> mutex s' = None
     \<and> refused s' = refused s @ closed_socks evs \<and> accepted s' = accepted s @ [fd] \<and> failed s' = failed s"
proof (cases "fd = 0 \<or> new_task al fd (pool s) = (None, pool s)")
  case True
  then have "p = pool s" "closed_socks evs = [fd]"
    using a assms(4) by (auto simp: accept_client_def thread_pool_add_task_def split: if_splits)
  then show ?thesis using m_refuse [OF s(1) assms(4) True, of sig] s
    by (intro exI [of _ "s\<lparr>accepted := accepted s @ [fd], refused := refused s @ [fd]\<rparr>"]) auto
next
  case False
  then obtain b p1 where n: "new_task al fd (pool s) = (Some b, p1)"
    by (auto simp: new_task_def split: option.splits)
  with False a assms(4) have q: "queue_push b p1 = Some p" "evs = []"
    by (cases "queue_push b p1"; auto simp: accept_client_def thread_pool_add_task_def)+
  let ?s1 = "s\<lparr>main := M_Lock b, pool := p1, accepted := accepted s @ [fd]\<rparr>"
  let ?s2 = "?s1\<lparr>main := M_Push b, mutex := Some By_Main\<rparr>"
  have "main_step sig s ?s1" using m_accept [OF s(1) _ assms(3) n] False assms(4) by simp
  moreover have "main_step sig ?s1 ?s2" by (rule m_lock) (use s in simp_all)
  moreover obtain pcs where pcs: "if W_Wait \<in> set (workers ?s2)
      then \<exists>w. pc_is ?s2 w W_Wait \<and> pcs = (workers ?s2)[w := W_Woken] else pcs = workers ?s2"
  proof (cases "W_Wait \<in> set (workers s)")
    case True
    then obtain w where "pc_is ?s2 w W_Wait" by (auto simp: pc_is_def in_set_conv_nth)
    with True that show thesis by auto
  qed (use that in auto)
  moreover have "main_step sig ?s2 (?s2\<lparr>main := M_Accept, pool := p, mutex := None, workers := pcs,
      pushed := pushed ?s2 @ [sock_of ?s2 b]\<rparr>)"
    by (rule m_push [OF _ _ pcs]) (use q in simp_all)
  ultimately have "(main_step sig)\<^sup>*\<^sup>* s (?s2\<lparr>main := M_Accept, pool := p, mutex := None, workers := pcs,
      pushed := pushed ?s2 @ [sock_of ?s2 b]\<rparr>)" 
    by (intro converse_rtranclp_into_rtranclp [of "main_step sig" s ?s1] converse_rtranclp_into_rtranclp [of "main_step sig" ?s1 ?s2]
        r_into_rtranclp)
  then show ?thesis using q(2) by (intro exI conjI) (assumption | simp)+
qed

subsection \<open>Sums over the workers\<close>

definition tally :: "('p \<Rightarrow> 'b::comm_monoid_add) \<Rightarrow> 'p list \<Rightarrow> 'b" where
  "tally f pcs = sum_list (map f pcs)"

lemma tally_simps [simp]: "tally f [] = 0" "tally f (pc # pcs) = f pc + tally f pcs"
  by (simp_all add: tally_def)

lemma tally_update: "w < length pcs \<Longrightarrow> tally f (pcs[w := pc]) + f (pcs ! w) = tally f pcs + f pc"
proof (induction pcs arbitrary: w)
  case (Cons x xs)
  then show ?case by (cases w) (simp_all add: ac_simps)
qed simp

fun pc_addrs :: "worker_pc \<Rightarrow> addr multiset" where
  "pc_addrs (W_Sem a) = {#a#}"
| "pc_addrs (W_Handle a) = {#a#}"
| "pc_addrs _ = {#}"

fun main_addrs :: "main_pc \<Rightarrow> addr multiset" where
  "main_addrs (M_Lock a) = {#a#}"
| "main_addrs (M_Push a) = {#a#}"
| "main_addrs _ = {#}"

definition handling :: "worker_pc \<Rightarrow> nat" where
  "handling pc = (case pc of W_Handle a \<Rightarrow> 1 | _ \<Rightarrow> 0)"

definition awake :: "worker_pc \<Rightarrow> nat" where
  "awake pc = (if pc \<in> {W_Lock, W_Check, W_Woken} then 1 else 0)"

end
