(* ===== verification/Thread_Invariant.thy ===== *)
theory Thread_Invariant
  imports Thread_Pool
begin

section \<open>The invariant of the thread pool\<close>

text \<open>
  Five predicates on a state and the addresses of its queue, each kept by every step: who holds
  the mutex, which tasks are allocated and where their sockets are, how many handlers run, which
  phase of the shutdown has been reached, and who will take the queued tasks.
\<close>

definition inv_mutex :: "tp_sys \<Rightarrow> bool" where
  "inv_mutex s \<longleftrightarrow> (\<forall>w. mutex s = Some (By_Worker w) \<longleftrightarrow> pc_is s w W_Check)
     \<and> (mutex s = Some By_Main \<longleftrightarrow> (\<exists>a. main s = M_Push a))"

definition inv_tasks :: "tp_sys \<Rightarrow> addr list \<Rightarrow> bool" where
  "inv_tasks s as \<longleftrightarrow> (if main s = M_Done then as = [] else queue_repr (pool s) as)
     \<and> finite (dom (tasks (pool s)))
     \<and> mset_set (dom (tasks (pool s))) = mset as + tally pc_addrs (workers s) + main_addrs (main s)
     \<and> (\<forall>a \<in># main_addrs (main s). spare_task (pool s) a)"

definition inv_socks :: "tp_sys \<Rightarrow> addr list \<Rightarrow> bool" where
  "inv_socks s as \<longleftrightarrow>
     mset (accepted s) = mset (refused s) + mset (handled s) + image_mset (sock_of s) (mset_set (dom (tasks (pool s))))
     \<and> (main s \<noteq> M_Done \<longrightarrow> pushed s = taken s @ map (sock_of s) as)
     \<and> mset (taken s) = mset (handled s) + image_mset (sock_of s) (tally pc_addrs (workers s))"

definition inv_count :: "tp_sys \<Rightarrow> bool" where
  "inv_count s \<longleftrightarrow> length (workers s) = NUM_WORKER_THREADS \<and> semaphore s + tally handling (workers s) = MAX_CLIENTS"

definition inv_phase :: "tp_sys \<Rightarrow> bool" where
  "inv_phase s \<longleftrightarrow> (shutdown (pool s) \<noteq> 0 \<longleftrightarrow> main s \<in> {M_Join, M_Drain, M_Done})
     \<and> (W_Exit \<in> set (workers s) \<longrightarrow> shutdown (pool s) \<noteq> 0)
     \<and> (W_Wait \<in> set (workers s) \<longrightarrow> shutdown (pool s) = 0)
     \<and> (main s \<in> {M_Drain, M_Done} \<longrightarrow> (\<forall>pc \<in> set (workers s). pc = W_Exit))"

definition inv_wake :: "tp_sys \<Rightarrow> addr list \<Rightarrow> bool" where
  "inv_wake s as \<longleftrightarrow> (shutdown (pool s) = 0 \<and> W_Wait \<in> set (workers s) \<longrightarrow> length as \<le> tally awake (workers s))"

definition tp_inv :: "tp_sys \<Rightarrow> addr list \<Rightarrow> bool" where
  "tp_inv s as \<longleftrightarrow> inv_mutex s \<and> inv_tasks s as \<and> inv_socks s as \<and> inv_count s \<and> inv_phase s \<and> inv_wake s as"

lemmas tp_inv_parts = inv_mutex_def inv_tasks_def inv_socks_def inv_count_def inv_phase_def inv_wake_def

subsection \<open>Moving one worker\<close>

lemma goto_simps [simp]:
  "pool (goto w pc s) = pool s" "mutex (goto w pc s) = mutex s" "semaphore (goto w pc s) = semaphore s"
  "workers (goto w pc s) = (workers s)[w := pc]" "main (goto w pc s) = main s" "accepted (goto w pc s) = accepted s"
  "pushed (goto w pc s) = pushed s" "taken (goto w pc s) = taken s" "handled (goto w pc s) = handled s"
  "refused (goto w pc s) = refused s" "failed (goto w pc s) = failed s"
  by (simp_all add: goto_def)

lemma tally_goto: "pc_is s w pc \<Longrightarrow> tally f ((workers s)[w := pc']) + f pc = tally f (workers s) + f pc'"
  using tally_update [of w "workers s" f pc'] by (auto simp: pc_is_def)

lemma pc_is_upd:
  "pc_is s w pc0 \<Longrightarrow> workers s' = (workers s)[w := pc] \<Longrightarrow> pc_is s' v p \<longleftrightarrow> (if v = w then p = pc else pc_is s v p)"
  by (auto simp: pc_is_def nth_list_update)

lemma pc_is_in: "pc_is s w pc \<Longrightarrow> pc \<in> set (workers s)"
  by (auto simp: pc_is_def)

lemma pc_is_unique: "pc_is s w p \<Longrightarrow> pc_is s w q \<longleftrightarrow> q = p"
  by (auto simp: pc_is_def)

lemma in_set_update: "p \<in> set ((workers s)[w := pc]) \<Longrightarrow> p = pc \<or> p \<in> set (workers s)"
  using set_update_subset_insert [of "workers s" w pc] by blast

lemma sock_of_cong: "tasks (pool s') = tasks (pool s) \<Longrightarrow> sock_of s' = sock_of s"
  by (simp add: sock_of_def fun_eq_iff)

lemma tally_zero: "(\<forall>pc \<in> set pcs. f pc = 0) \<Longrightarrow> tally f pcs = 0"
  by (induction pcs) simp_all

lemma tally_in: "pc \<in> set pcs \<Longrightarrow> (f pc :: nat) \<le> tally f pcs"
  by (induction pcs) auto

lemma tally_in_mset: "pc \<in> set pcs \<Longrightarrow> f pc \<subseteq># (tally f pcs :: 'b multiset)"
  by (induction pcs) (auto intro: subset_mset.add_increasing subset_mset.add_increasing2)

subsection \<open>The initial state\<close>

lemma tp_init_inv: "tp_inv tp_init []"
proof -
  have "\<not> pc_is tp_init w W_Check" for w by (simp add: pc_is_def tp_init_def)
  moreover have "tally pc_addrs (workers tp_init) = {#}" "tally handling (workers tp_init) = 0"
    by (simp_all add: tp_init_def tally_zero handling_def)
  ultimately show ?thesis
    by (simp add: tp_inv_def tp_inv_parts) (simp add: tp_init_def queue_repr_def)
qed

subsection \<open>Steps that leave the queue and the tasks alone\<close>

text \<open>One worker moves between two points where it holds no task; the mutex may change hands.\<close>

lemma quiet_move_inv:
  assumes i: "tp_inv s as" and pc: "pc_is s w pc" and s': "s' = (goto w pc' s)\<lparr>mutex := m\<rparr>"
    and q: "pc_addrs pc = {#}" "pc_addrs pc' = {#}" "handling pc = 0" "handling pc' = 0"
    and m: "inv_mutex s'" and ph: "inv_phase s'" and wk: "inv_wake s' as"
  shows "tp_inv s' as"
proof -
  have "tally pc_addrs (workers s') = tally pc_addrs (workers s)" "tally handling (workers s') = tally handling (workers s)"
    using tally_goto [OF pc, of pc_addrs pc'] tally_goto [OF pc, of handling pc'] q s' by simp_all
  moreover have "sock_of s' = sock_of s" using s' by (intro sock_of_cong) simp
  ultimately show ?thesis using i m ph wk s'
    by (simp add: tp_inv_def inv_tasks_def inv_socks_def inv_count_def)
qed

lemma inv_mutex_release:
  assumes "inv_mutex s" and "pc_is s w W_Check" and "workers s' = (workers s)[w := pc]" and "pc \<noteq> W_Check"
    and "mutex s' = None" and "main s' = main s"
  shows "inv_mutex s'"
proof -
  from assms(1,2) have me: "mutex s = Some (By_Worker w)" by (simp add: inv_mutex_def)
  have only: "v = w" if "pc_is s v W_Check" for v
  proof -
    from assms(1) that have "mutex s = Some (By_Worker v)" by (simp add: inv_mutex_def)
    with me show ?thesis by simp
  qed
  have "\<not> pc_is s' v W_Check" for v
    unfolding pc_is_upd [OF assms(2,3)] using only assms(4) by auto
  moreover have "\<nexists>a. main s = M_Push a" using assms(1) me by (simp add: inv_mutex_def)
  ultimately show ?thesis unfolding inv_mutex_def assms(5,6) by simp
qed

lemma w_lock_inv:
  assumes i: "tp_inv s as" and pc: "pc_is s w pc" "pc = W_Lock \<or> pc = W_Woken" and mx: "mutex s = None"
  shows "tp_inv (goto w W_Check s\<lparr>mutex := Some (By_Worker w)\<rparr>) as"
proof (rule quiet_move_inv [OF i pc(1) refl])
  let ?s = "goto w W_Check s\<lparr>mutex := Some (By_Worker w)\<rparr>"
  have nobody: "\<not> pc_is s v W_Check" for v using i mx by (auto simp: tp_inv_def inv_mutex_def)
  show "inv_mutex ?s"
    using i mx nobody pc_is_upd [OF pc(1), of ?s W_Check] by (auto simp: tp_inv_def inv_mutex_def)
  show "inv_phase ?s"
    using i pc pc_is_in [OF pc(1)] by (auto simp: tp_inv_def inv_phase_def dest!: in_set_update)
  show "inv_wake ?s as"
    using i pc(2) tally_goto [OF pc(1), of awake W_Check]
    by (auto simp: tp_inv_def inv_wake_def awake_def dest!: in_set_update)
qed (use pc(2) in \<open>auto simp: handling_def\<close>)

lemma w_wait_inv:
  assumes i: "tp_inv s as" and pc: "pc_is s w W_Check" and h: "task_queue_head (pool s) = None" and sh: "shutdown (pool s) = 0"
  shows "tp_inv (goto w W_Wait s\<lparr>mutex := None\<rparr>) as"
proof (rule quiet_move_inv [OF i pc refl])
  let ?s = "goto w W_Wait s\<lparr>mutex := None\<rparr>"
  show "inv_mutex ?s"
    by (rule inv_mutex_release [OF _ pc, where pc = W_Wait]) (use i in \<open>simp_all add: tp_inv_def\<close>)
  show "inv_phase ?s"
    using i sh by (auto simp: tp_inv_def inv_phase_def dest!: in_set_update)
  have "main s \<noteq> M_Done" using i sh by (auto simp: tp_inv_def inv_phase_def)
  then have "as = []" using i h by (auto simp: tp_inv_def inv_tasks_def queue_repr_def)
  then show "inv_wake ?s as" by (simp add: inv_wake_def)
qed (auto simp: handling_def)

lemma w_spurious_inv:
  assumes i: "tp_inv s as" and pc: "pc_is s w W_Wait"
  shows "tp_inv (goto w W_Woken s) as"
proof -
  have "tp_inv (goto w W_Woken s\<lparr>mutex := mutex s\<rparr>) as"
  proof (rule quiet_move_inv [OF i pc refl])
    let ?s = "goto w W_Woken s\<lparr>mutex := mutex s\<rparr>"
    show "inv_mutex ?s"
      using i pc pc_is_unique [OF pc] pc_is_upd [OF pc, of ?s W_Woken] by (auto simp: tp_inv_def inv_mutex_def)
    show "inv_phase ?s"
      using i pc pc_is_in [OF pc] by (auto simp: tp_inv_def inv_phase_def dest!: in_set_update)
    show "inv_wake ?s as"
      using i pc pc_is_in [OF pc] tally_goto [OF pc, of awake W_Woken]
      by (auto simp: tp_inv_def inv_wake_def awake_def)
  qed (auto simp: handling_def)
  then show ?thesis by (simp add: goto_def)
qed

lemma w_exit_inv:
  assumes i: "tp_inv s as" and pc: "pc_is s w W_Check" and sh: "shutdown (pool s) \<noteq> 0"
  shows "tp_inv (goto w W_Exit s\<lparr>mutex := None\<rparr>) as"
proof (rule quiet_move_inv [OF i pc refl])
  let ?s = "goto w W_Exit s\<lparr>mutex := None\<rparr>"
  show "inv_mutex ?s"
    by (rule inv_mutex_release [OF _ pc, where pc = W_Exit]) (use i in \<open>simp_all add: tp_inv_def\<close>)
  show "inv_phase ?s"
    using i sh by (auto simp: tp_inv_def inv_phase_def dest!: in_set_update)
  show "inv_wake ?s as" using sh by (simp add: inv_wake_def)
qed (auto simp: handling_def)

subsection \<open>Steps on the tasks\<close>

lemma tasks_apart:
  assumes "inv_tasks s as" and "a \<in># tally pc_addrs (workers s)"
  shows "a \<in> dom (tasks (pool s)) \<and> a \<notin> set as \<and> a \<notin># main_addrs (main s)
     \<and> count (tally pc_addrs (workers s)) a = 1"
proof -
  let ?D = "dom (tasks (pool s))"
  have eq: "mset_set ?D = mset as + tally pc_addrs (workers s) + main_addrs (main s)" and fin: "finite ?D"
    using assms(1) by (auto simp: inv_tasks_def)
  have "a \<in># mset_set ?D" unfolding eq using assms(2) by simp
  then have d: "a \<in> ?D" using fin by simp
  then have "count (mset_set ?D) a = 1" using fin by simp
  then have "count (mset as) a + count (tally pc_addrs (workers s)) a + count (main_addrs (main s)) a = 1"
    unfolding eq by simp
  moreover have "0 < count (tally pc_addrs (workers s)) a" using assms(2) by simp
  ultimately have "count (mset as) a = 0" "count (main_addrs (main s)) a = 0" "count (tally pc_addrs (workers s)) a = 1"
    by linarith+
  with d show ?thesis by (simp add: count_eq_zero_iff)
qed

lemma pc_addrs_tally: "pc_is s w pc \<Longrightarrow> a \<in># pc_addrs pc \<Longrightarrow> a \<in># tally pc_addrs (workers s)"
  using tally_in_mset [OF pc_is_in, of s w pc pc_addrs] by (auto dest: mset_subset_eqD)

lemma w_take_inv:
  assumes i: "tp_inv s as" and pc: "pc_is s w W_Check" and sh: "shutdown (pool s) = 0"
    and t: "queue_take (pool s) = Some (Some a, p)"
  shows "tp_inv (goto w (W_Sem a) s\<lparr>pool := p, mutex := None, taken := taken s @ [sock_of s a]\<rparr>) (tl as)"
proof -
  let ?s = "goto w (W_Sem a) s\<lparr>pool := p, mutex := None, taken := taken s @ [sock_of s a]\<rparr>"
  have nd: "main s \<noteq> M_Done" using i sh by (auto simp: tp_inv_def inv_phase_def)
  then have q: "queue_repr (pool s) as" using i by (simp add: tp_inv_def inv_tasks_def)
  from queue_take_ok [OF q] t obtain bs where as: "as = a # bs" and p: "queue_repr p bs" "tasks p = tasks (pool s)"
      "shutdown p = shutdown (pool s)" by (cases as) auto
  have so: "sock_of ?s = sock_of s" using p(2) by (intro sock_of_cong) simp
  have tot: "tally pc_addrs (workers ?s) = add_mset a (tally pc_addrs (workers s))"
    "tally handling (workers ?s) = tally handling (workers s)"
    "Suc (tally awake (workers ?s)) = tally awake (workers s)"
    using tally_goto [OF pc, of pc_addrs "W_Sem a"] tally_goto [OF pc, of handling "W_Sem a"]
      tally_goto [OF pc, of awake "W_Sem a"] by (simp_all add: handling_def awake_def)
  have "inv_mutex ?s"
    by (rule inv_mutex_release [OF _ pc, where pc = "W_Sem a"]) (use i in \<open>simp_all add: tp_inv_def\<close>)
  moreover have "inv_tasks ?s bs"
    using i nd p tot(1) as by (simp add: tp_inv_def inv_tasks_def spare_task_def)
  moreover have "inv_socks ?s bs"
    using i nd p(2) tot(1) as so by (simp add: tp_inv_def inv_socks_def)
  moreover have "inv_count ?s" using i tot(2) by (simp add: tp_inv_def inv_count_def)
  moreover have "inv_phase ?s" using i p(3) sh by (auto simp: tp_inv_def inv_phase_def dest!: in_set_update)
  moreover have "inv_wake ?s bs"
    using i p(3) tot(3) as by (auto simp: tp_inv_def inv_wake_def dest!: in_set_update)
  ultimately show ?thesis by (simp add: tp_inv_def as)
qed

lemma w_sem_inv:
  assumes i: "tp_inv s as" and pc: "pc_is s w (W_Sem a)" and sem: "0 < semaphore s"
  shows "tp_inv (goto w (W_Handle a) s\<lparr>semaphore := semaphore s - 1\<rparr>) as"
proof -
  let ?s = "goto w (W_Handle a) s\<lparr>semaphore := semaphore s - 1\<rparr>"
  have so: "sock_of ?s = sock_of s" by (intro sock_of_cong) simp
  have tot: "tally pc_addrs (workers ?s) = tally pc_addrs (workers s)"
    "tally handling (workers ?s) = Suc (tally handling (workers s))" "tally awake (workers ?s) = tally awake (workers s)"
    using tally_goto [OF pc, of pc_addrs "W_Handle a"] tally_goto [OF pc, of handling "W_Handle a"]
      tally_goto [OF pc, of awake "W_Handle a"] by (simp_all add: handling_def awake_def)
  have "inv_mutex ?s"
    using i pc_is_unique [OF pc] pc_is_upd [OF pc, of ?s "W_Handle a"] by (auto simp: tp_inv_def inv_mutex_def)
  moreover have "inv_tasks ?s as \<and> inv_socks ?s as" using i tot(1) so by (simp add: tp_inv_def inv_tasks_def inv_socks_def)
  moreover have "inv_count ?s" using i tot(2) sem by (simp add: tp_inv_def inv_count_def)
  moreover have "inv_phase ?s"
    using i pc_is_in [OF pc] by (auto simp: tp_inv_def inv_phase_def dest!: in_set_update)
  moreover have "inv_wake ?s as" using i tot(3) by (auto simp: tp_inv_def inv_wake_def dest!: in_set_update)
  ultimately show ?thesis by (simp add: tp_inv_def)
qed

lemma image_sock_cong:
  "(\<And>b. b \<in># M \<Longrightarrow> tasks (pool s') b = tasks (pool s) b) \<Longrightarrow> image_mset (sock_of s') M = image_mset (sock_of s) M"
  by (intro image_mset_cong) (simp add: sock_of_def)

lemma w_done_inv:
  assumes i: "tp_inv s as" and pc: "pc_is s w (W_Handle a)" and f: "free_task a (pool s) = Some p"
  shows "tp_inv (goto w W_Lock s\<lparr>pool := p, semaphore := semaphore s + 1, handled := handled s @ [sock_of s a]\<rparr>) as"
proof -
  let ?s = "goto w W_Lock s\<lparr>pool := p, semaphore := semaphore s + 1, handled := handled s @ [sock_of s a]\<rparr>"
  have a: "a \<in># tally pc_addrs (workers s)" by (rule pc_addrs_tally [OF pc]) simp
  have it: "inv_tasks s as" and nd: "main s \<noteq> M_Done"
    using i pc_is_in [OF pc] by (auto simp: tp_inv_def inv_phase_def)
  note ap = tasks_apart [OF it a]
  from f have p: "p = (pool s)\<lparr>tasks := (tasks (pool s))(a := None)\<rparr>" using ap by (auto simp: free_task_def mem_simps)
  let ?D = "dom (tasks (pool s))"
  have D: "mset_set ?D = add_mset a (mset_set (?D - {a}))" using ap it by (intro mset_set.remove) (auto simp: inv_tasks_def)
  have tot: "tally pc_addrs (workers s) = add_mset a (tally pc_addrs (workers ?s))"
    "tally handling (workers s) = Suc (tally handling (workers ?s))"
    "tally awake (workers ?s) = Suc (tally awake (workers s))"
    using tally_goto [OF pc, of pc_addrs W_Lock] tally_goto [OF pc, of handling W_Lock]
      tally_goto [OF pc, of awake W_Lock] by (simp_all add: handling_def awake_def)
  have na: "a \<notin># tally pc_addrs (workers ?s)" using ap unfolding tot(1) by (simp add: count_eq_zero_iff)
  have same: "image_mset (sock_of ?s) M = image_mset (sock_of s) M" if "a \<notin># M" for M
    using that p by (intro image_sock_cong) auto
  have dp: "dom (tasks p) = ?D - {a}" using p by auto
  have q: "queue_repr (pool s) as" using it nd by (simp add: inv_tasks_def)
  have "inv_mutex ?s"
    using i pc_is_unique [OF pc] pc_is_upd [OF pc, of ?s W_Lock] by (auto simp: tp_inv_def inv_mutex_def)
  moreover have "inv_tasks ?s as"
  proof -
    have "queue_repr p as" using q ap p by (simp add: queue_repr_def)
    moreover have "mset_set (dom (tasks p)) = mset as + tally pc_addrs (workers ?s) + main_addrs (main s)"
      using it D tot(1) unfolding dp by (simp add: inv_tasks_def)
    moreover have "\<forall>b \<in># main_addrs (main s). spare_task p b" using it ap p by (auto simp: inv_tasks_def spare_task_def)
    ultimately show ?thesis using nd it dp by (simp add: inv_tasks_def)
  qed
  moreover have "inv_socks ?s as"
  proof -
    have "map (sock_of ?s) as = map (sock_of s) as" using ap p by (auto simp: sock_of_def)
    moreover have "image_mset (sock_of ?s) (mset_set (dom (tasks p))) = image_mset (sock_of s) (mset_set (?D - {a}))"
      unfolding dp by (rule same) (use it in \<open>auto simp: inv_tasks_def\<close>)
    ultimately show ?thesis using i D tot(1) same [OF na] nd by (simp add: tp_inv_def inv_socks_def)
  qed
  moreover have "inv_count ?s" using i tot(2) by (simp add: tp_inv_def inv_count_def)
  moreover have "inv_phase ?s"
    using i p pc_is_in [OF pc] by (auto simp: tp_inv_def inv_phase_def dest!: in_set_update)
  moreover have "inv_wake ?s as" using i tot(3) p by (auto simp: tp_inv_def inv_wake_def dest!: in_set_update)
  ultimately show ?thesis by (simp add: tp_inv_def)
qed

lemma worker_step_inv:
  assumes "worker_step w s s'" and i: "tp_inv s as"
  shows "\<exists>as'. tp_inv s' as'"
  using assms(1)
proof cases
  case w_lock
  then show ?thesis using w_lock_inv [OF i] by blast
next
  case w_wait
  then show ?thesis using w_wait_inv [OF i] by blast
next
  case w_spurious
  then show ?thesis using w_spurious_inv [OF i] by blast
next
  case w_exit
  then show ?thesis using w_exit_inv [OF i] by blast
next
  case (w_take a p)
  then show ?thesis using w_take_inv [OF i] by blast
next
  case (w_sem a)
  then show ?thesis using w_sem_inv [OF i w_sem(2,3)] by auto
next
  case (w_done a p)
  then show ?thesis using w_done_inv [OF i w_done(2,3)] by auto
qed

subsection \<open>Steps of the main thread\<close>

lemma workers_same_pc: "workers s' = workers s \<Longrightarrow> pc_is s' w pc = pc_is s w pc"
  by (simp add: pc_is_def)

lemma m_accept_inv:
  assumes i: "tp_inv s as" and m: "main s = M_Accept" and al: "alloc_fresh al"
    and n: "new_task al fd (pool s) = (Some a, p)"
  shows "tp_inv (s\<lparr>main := M_Lock a, pool := p, accepted := accepted s @ [fd]\<rparr>) as"
proof -
  let ?s = "s\<lparr>main := M_Lock a, pool := p, accepted := accepted s @ [fd]\<rparr>"
  from n have p: "p = (pool s)\<lparr>tasks := (tasks (pool s))(a \<mapsto> \<lparr>client_socket = fd, t_next = None\<rparr>)\<rparr>"
    and a: "al (tasks (pool s)) = Some a" by (auto simp: new_task_def split: option.splits)
  have free: "tasks (pool s) a = None" using alloc_freshD [OF al a] .
  have it: "inv_tasks s as" using i by (simp add: tp_inv_def)
  then have q: "queue_repr (pool s) as" and fin: "finite (dom (tasks (pool s)))" using m by (simp_all add: inv_tasks_def)
  have "lseg (tasks (pool s)) t_next (task_queue_head (pool s)) as None" using q by (simp add: queue_repr_def)
  from lseg_subset_dom [OF this] have sub: "set as \<subseteq> dom (tasks (pool s))" .
  then have na: "a \<notin> set as" using free by auto
  have D: "mset_set (dom (tasks p)) = add_mset a (mset_set (dom (tasks (pool s))))"
    using free fin by (simp add: p domIff)
  have nt: "a \<notin># tally pc_addrs (workers s)" using tasks_apart [OF it, of a] free by auto
  have same: "image_mset (sock_of ?s) M = image_mset (sock_of s) M" if "a \<notin># M" for M
    using that p by (intro image_sock_cong) auto
  have "inv_mutex ?s" using i m by (simp add: tp_inv_def inv_mutex_def workers_same_pc [of ?s s])
  moreover have "inv_tasks ?s as"
  proof -
    have "queue_repr p as" using q na by (simp add: p queue_repr_def)
    moreover have "spare_task p a" by (simp add: p spare_task_def)
    ultimately show ?thesis using it m D fin by (simp add: inv_tasks_def p)
  qed
  moreover have "inv_socks ?s as"
  proof -
    have "map (sock_of ?s) as = map (sock_of s) as" using na p by (auto simp: sock_of_def)
    moreover have "sock_of ?s a = fd" by (simp add: sock_of_def p)
    moreover have "a \<notin># mset_set (dom (tasks (pool s)))" using free fin by auto
    ultimately show ?thesis using i m same [OF nt] same [of "mset_set (dom (tasks (pool s)))"] D
      by (simp add: tp_inv_def inv_socks_def)
  qed
  moreover have "inv_count ?s \<and> inv_phase ?s \<and> inv_wake ?s as"
    using i m by (auto simp: tp_inv_def inv_count_def inv_phase_def inv_wake_def p)
  ultimately show ?thesis by (simp add: tp_inv_def)
qed

lemma m_push_inv:
  assumes i: "tp_inv s as" and m: "main s = M_Push a" and q: "queue_push a (pool s) = Some p"
    and pcs: "if W_Wait \<in> set (workers s) then \<exists>w. pc_is s w W_Wait \<and> pcs = (workers s)[w := W_Woken] else pcs = workers s"
  shows "tp_inv (s\<lparr>main := M_Accept, pool := p, mutex := None, workers := pcs, pushed := pushed s @ [sock_of s a]\<rparr>) (as @ [a])"
proof -
  let ?s = "s\<lparr>main := M_Accept, pool := p, mutex := None, workers := pcs, pushed := pushed s @ [sock_of s a]\<rparr>"
  have it: "inv_tasks s as" using i by (simp add: tp_inv_def)
  then have qr: "queue_repr (pool s) as" and sp: "spare_task (pool s) a" and fin: "finite (dom (tasks (pool s)))"
    and eq: "mset_set (dom (tasks (pool s))) = mset as + tally pc_addrs (workers s) + {#a#}"
    using m by (auto simp: inv_tasks_def)
  have "count (mset_set (dom (tasks (pool s)))) a \<le> 1" by (simp add: count_mset_set')
  then have "count (mset as) a = 0" unfolding eq by simp
  then have na: "a \<notin> set as" by (simp add: count_eq_zero_iff)
  from queue_push_ok [OF qr sp na] q have p: "queue_repr p (as @ [a])" "dom (tasks p) = dom (tasks (pool s))"
      "\<And>b. map_option client_socket (tasks p b) = map_option client_socket (tasks (pool s) b)"
      "shutdown p = shutdown (pool s)" by auto
  have so: "b \<in> dom (tasks (pool s)) \<Longrightarrow> sock_of ?s b = sock_of s b" for b
    using p(2) p(3) [of b] by (auto simp: sock_of_def dom_def)
  have im: "image_mset (sock_of ?s) M = image_mset (sock_of s) M" if "M \<subseteq># mset_set (dom (tasks (pool s)))" for M
    using that so fin by (intro image_mset_cong) (auto dest!: mset_subset_eqD)
  have tot: "tally pc_addrs pcs = tally pc_addrs (workers s)" "tally handling pcs = tally handling (workers s)"
    "length pcs = length (workers s)" "W_Wait \<in> set (workers s) \<Longrightarrow> tally awake pcs = Suc (tally awake (workers s))"
    using pcs tally_goto [of s _ W_Wait pc_addrs W_Woken] tally_goto [of s _ W_Wait handling W_Woken]
      tally_goto [of s _ W_Wait awake W_Woken] by (auto simp: handling_def awake_def split: if_splits)
  have sub: "set pcs \<subseteq> insert W_Woken (set (workers s))" "W_Wait \<notin> set (workers s) \<Longrightarrow> pcs = workers s"
    using pcs by (auto split: if_splits dest: in_set_update)
  have mine: "mutex s = Some By_Main" using i m by (auto simp: tp_inv_def inv_mutex_def)
  then have nobody: "\<not> pc_is s v W_Check" for v using i by (auto simp: tp_inv_def inv_mutex_def)
  then have "W_Check \<notin> set (workers s)" by (auto simp: pc_is_def in_set_conv_nth)
  then have "W_Check \<notin> set pcs" using sub(1) by auto
  then have "\<not> pc_is ?s v W_Check" for v by (auto simp: pc_is_def dest: nth_mem)
  then have "inv_mutex ?s" by (simp add: inv_mutex_def)
  moreover have "inv_tasks ?s (as @ [a])" using p fin eq tot(1) by (simp add: inv_tasks_def)
  moreover have "inv_socks ?s (as @ [a])"
  proof -
    have "map (sock_of ?s) (as @ [a]) = map (sock_of s) (as @ [a])"
      using so qr sp lseg_subset_dom [of "tasks (pool s)" t_next "task_queue_head (pool s)" as None]
      by (auto simp: queue_repr_def spare_task_def)
    moreover have "image_mset (sock_of ?s) (tally pc_addrs (workers s)) = image_mset (sock_of s) (tally pc_addrs (workers s))"
      by (rule im) (simp add: eq)
    moreover have "image_mset (sock_of ?s) (mset_set (dom (tasks (pool s)))) = image_mset (sock_of s) (mset_set (dom (tasks (pool s))))"
      by (rule im) simp
    ultimately show ?thesis using i m p(2) tot(1) by (simp add: tp_inv_def inv_socks_def)
  qed
  moreover have "inv_count ?s" using i tot(2,3) by (simp add: tp_inv_def inv_count_def)
  moreover have "inv_phase ?s" using i m sub p(4) by (auto simp: tp_inv_def inv_phase_def)
  moreover have "inv_wake ?s (as @ [a])"
  proof (cases "W_Wait \<in> set (workers s)")
    case True
    with i tot(4) p(4) show ?thesis by (simp add: tp_inv_def inv_wake_def)
  next
    case False
    with sub(2) show ?thesis by (simp add: inv_wake_def)
  qed
  ultimately show ?thesis by (simp add: tp_inv_def)
qed

lemma wake_all_simps [simp]:
  "tally pc_addrs (wake_all pcs) = tally pc_addrs pcs" "tally handling (wake_all pcs) = tally handling pcs"
  "length (wake_all pcs) = length pcs" "W_Wait \<notin> set (wake_all pcs)" "W_Exit \<in> set (wake_all pcs) \<longleftrightarrow> W_Exit \<in> set pcs"
proof -
  show "tally pc_addrs (wake_all pcs) = tally pc_addrs pcs" "tally handling (wake_all pcs) = tally handling pcs"
    by (induction pcs) (auto simp: wake_all_def handling_def)
qed (auto simp: wake_all_def image_iff)

lemma pc_is_wake_all: "pc_is (s\<lparr>workers := wake_all (workers s)\<rparr>) w W_Check \<longleftrightarrow> pc_is s w W_Check"
  by (auto simp: pc_is_def wake_all_def split: if_splits)

lemma m_shut_inv:
  assumes i: "tp_inv s as" and m: "main s = M_Shut"
  shows "tp_inv (s\<lparr>main := M_Join, pool := (pool s)\<lparr>shutdown := 1\<rparr>, workers := wake_all (workers s)\<rparr>) as"
proof -
  let ?s = "s\<lparr>main := M_Join, pool := (pool s)\<lparr>shutdown := 1\<rparr>, workers := wake_all (workers s)\<rparr>"
  have so: "sock_of ?s = sock_of s" by (intro sock_of_cong) simp
  have "pc_is ?s w W_Check \<longleftrightarrow> pc_is s w W_Check" for w using pc_is_wake_all [of s w] by (simp add: pc_is_def)
  then have "inv_mutex ?s" using i m by (simp add: tp_inv_def inv_mutex_def)
  moreover have "inv_tasks ?s as \<and> inv_socks ?s as \<and> inv_count ?s"
    using i m so by (simp add: tp_inv_def inv_tasks_def inv_socks_def inv_count_def queue_repr_def)
  moreover have "inv_phase ?s \<and> inv_wake ?s as" by (simp add: inv_phase_def inv_wake_def)
  ultimately show ?thesis by (simp add: tp_inv_def)
qed

lemma m_drain_inv:
  assumes i: "tp_inv s as" and m: "main s = M_Drain"
    and d: "drain_tasks (tasks (pool s)) (task_queue_head (pool s)) = Some (fds, h)"
  shows "tp_inv (s\<lparr>main := M_Done, pool := (pool s)\<lparr>tasks := h\<rparr>, refused := refused s @ fds\<rparr>) []"
proof -
  let ?s = "s\<lparr>main := M_Done, pool := (pool s)\<lparr>tasks := h\<rparr>, refused := refused s @ fds\<rparr>"
  have it: "inv_tasks s as" and ph: "inv_phase s" using i by (simp_all add: tp_inv_def)
  have exits: "\<forall>pc \<in> set (workers s). pc = W_Exit" using ph m by (simp add: inv_phase_def)
  have none: "tally pc_addrs (workers s) = {#}" by (rule tally_zero) (use exits in auto)
  from it m have q: "queue_repr (pool s) as" and fin: "finite (dom (tasks (pool s)))"
    and eq: "mset_set (dom (tasks (pool s))) = mset as" using none by (simp_all add: inv_tasks_def)
  from eq have "set_mset (mset_set (dom (tasks (pool s)))) = set as" by simp
  then have dom: "dom (tasks (pool s)) = set as" using fin by simp
  from drain_tasks_ok q d have fds: "fds = map (sock_of s) as" and h: "h = tasks (pool s) |` (- set as)"
    by (auto simp: queue_repr_def sock_of_def)
  have empty: "dom h = {}" using dom h by auto
  have "inv_mutex ?s" using i m by (simp add: tp_inv_def inv_mutex_def workers_same_pc [of ?s s])
  moreover have "inv_tasks ?s []" using none empty by (simp add: inv_tasks_def)
  moreover have "inv_socks ?s []" using i none empty eq fds by (simp add: tp_inv_def inv_socks_def)
  moreover have "inv_count ?s \<and> inv_phase ?s \<and> inv_wake ?s []"
    using i m by (simp add: tp_inv_def inv_count_def inv_phase_def inv_wake_def)
  ultimately show ?thesis by (simp add: tp_inv_def)
qed

lemma main_step_inv:
  assumes "main_step False s s'" and i: "tp_inv s as"
  shows "\<exists>as'. tp_inv s' as'"
  using assms(1)
proof cases
  case (m_accept fd al a p)
  then show ?thesis using m_accept_inv [OF i] by blast
next
  case (m_refuse fd)
  then have "tp_inv s' as"
    using i workers_same_pc [of s' s] sock_of_cong [of s' s]
    by (auto simp: tp_inv_def tp_inv_parts)
  then show ?thesis by blast
next
  case m_failed
  then have "tp_inv s' as"
    using i workers_same_pc [of s' s] sock_of_cong [of s' s]
    by (auto simp: tp_inv_def tp_inv_parts)
  then show ?thesis by blast
next
  case (m_lock a)
  have "\<not> pc_is s w W_Check" for w using i m_lock by (auto simp: tp_inv_def inv_mutex_def)
  then have "tp_inv s' as"
    using i m_lock workers_same_pc [of s' s] sock_of_cong [of s' s] by (auto simp: tp_inv_def tp_inv_parts)
  then show ?thesis by blast
next
  case (m_push a p pcs)
  then show ?thesis using m_push_inv [OF i] by blast
next
  case m_signal
  then have "tp_inv s' as"
    using i workers_same_pc [of s' s] sock_of_cong [of s' s] by (auto simp: tp_inv_def tp_inv_parts)
  then show ?thesis by blast
next
  case m_shut
  then show ?thesis using m_shut_inv [OF i] by blast
next
  case m_join
  then have "tp_inv s' as"
    using i workers_same_pc [of s' s] sock_of_cong [of s' s] by (auto simp: tp_inv_def tp_inv_parts)
  then show ?thesis by blast
next
  case (m_drain fds h)
  then show ?thesis using m_drain_inv [OF i] by blast
qed simp_all

lemma tp_reachable_inv: "tp_reachable False s \<Longrightarrow> \<exists>as. tp_inv s as"
proof (induction rule: tp_reachable.induct)
  case tp_start
  then show ?case using tp_init_inv by blast
next
  case (tp_next s s')
  then show ?case using worker_step_inv main_step_inv by (auto simp: tp_step_iff)
qed

end
