(* ===== verification/Thread_Properties.thy ===== *)
theory Thread_Properties
  imports Thread_Invariant
begin

section \<open>Properties of the thread pool\<close>

text \<open>
  The queue is first-in first-out; in every interleaving the critical sections exclude each
  other, every accepted socket is handled or closed once and no wakeup is lost, as long as signals
  arrive only while \<open>accept\<close> waits; a signal inside \<open>thread_pool_add_task\<close> can stop the program
  for good. \<open>Thread_Signals\<close> shows what else a signal at another point can do.
\<close>

subsection \<open>The queue\<close>

text \<open>Over any sequence of insertions and removals the tasks leave the queue in the order in
  which they entered it, and none is lost.\<close>

theorem task_queue_fifo:
  assumes "queue_repr q as" and "\<forall>a \<in> set (pushes ops). spare_task q a" and "distinct (as @ pushes ops)"
  shows "\<exists>out q' rest. queue_run queue_push queue_take ops q = Some (out, q') \<and> queue_repr q' rest
     \<and> out @ rest = as @ pushes ops"
  using tq.fifo [OF assms] .

theorem task_queue_fifo_witness:
  "\<exists>out q' rest. queue_run queue_push queue_take [Q_Push 0, Q_Push 1, Q_Take]
      \<lparr>task_queue_head = None, task_queue_tail = None, queue_size = 0, shutdown = 0,
       tasks = [0 \<mapsto> \<lparr>client_socket = 5, t_next = None\<rparr>, 1 \<mapsto> \<lparr>client_socket = 6, t_next = None\<rparr>]\<rparr> = Some (out, q')
     \<and> out @ rest = [0, 1]"
  using task_queue_fifo [of "\<lparr>task_queue_head = None, task_queue_tail = None, queue_size = 0, shutdown = 0,
      tasks = [0 \<mapsto> \<lparr>client_socket = 5, t_next = None\<rparr>, 1 \<mapsto> \<lparr>client_socket = 6, t_next = None\<rparr>]\<rparr>" "[]"
      "[Q_Push 0, Q_Push 1, Q_Take]"]
  by (auto simp: queue_repr_def spare_task_def)

subsection \<open>Exclusion\<close>

lemma handling_tally: "tally handling pcs \<le> length pcs"
  by (induction pcs) (auto simp: handling_def split: worker_pc.split)

text \<open>C27. Signals arrive only while \<open>accept\<close> waits. At most one thread is inside the critical section, and at most four requests are handled at
  a time, so that the semaphore of 200 units never falls below 196 and never blocks.\<close>

theorem critical_sections_exclusive:
  assumes "tp_reachable False s"
  shows "(\<forall>v w. pc_is s v W_Check \<and> pc_is s w W_Check \<longrightarrow> v = w)
     \<and> (\<forall>w a. \<not> (pc_is s w W_Check \<and> main s = M_Push a))
     \<and> tally handling (workers s) \<le> 4 \<and> semaphore s + tally handling (workers s) = 200 \<and> 196 \<le> semaphore s"
proof -
  from tp_reachable_inv [OF assms] obtain as where "tp_inv s as" ..
  then have m: "inv_mutex s" and c: "inv_count s" by (simp_all add: tp_inv_def)
  have "v = w" if "pc_is s v W_Check" "pc_is s w W_Check" for v w
  proof -
    from m that have "mutex s = Some (By_Worker v)" "mutex s = Some (By_Worker w)" by (simp_all add: inv_mutex_def)
    then show ?thesis by simp
  qed
  moreover have "\<not> (pc_is s w W_Check \<and> main s = M_Push a)" for w a
  proof
    assume "pc_is s w W_Check \<and> main s = M_Push a"
    with m have "mutex s = Some (By_Worker w)" "mutex s = Some By_Main" unfolding inv_mutex_def by blast+
    then show False by simp
  qed
  moreover have "tally handling (workers s) \<le> 4"
    using handling_tally [of "workers s"] c by (simp add: inv_count_def NUM_WORKER_THREADS_def)
  ultimately show ?thesis using c by (auto simp: inv_count_def MAX_CLIENTS_def)
qed

theorem critical_sections_exclusive_witness: "196 \<le> semaphore tp_init"
  using critical_sections_exclusive [OF tp_start] by blast

subsection \<open>Every socket once\<close>

text \<open>C5. Signals arrive only while \<open>accept\<close> waits. Every accepted socket is in exactly one place: closed without being handled, handled, or in
  one allocated task; the workers take the tasks in the order in which they were queued, and
  what has been handled has been taken.\<close>

theorem sockets_accounted:
  assumes "tp_reachable False s"
  shows "mset (accepted s) = mset (refused s) + mset (handled s) + image_mset (sock_of s) (mset_set (dom (tasks (pool s))))
     \<and> (main s \<noteq> M_Done \<longrightarrow> (\<exists>as. queue_repr (pool s) as \<and> pushed s = taken s @ map (sock_of s) as))
     \<and> mset (handled s) \<subseteq># mset (taken s)"
proof -
  from tp_reachable_inv [OF assms] obtain as where "tp_inv s as" ..
  then show ?thesis by (auto simp: tp_inv_def inv_socks_def inv_tasks_def)
qed

theorem sockets_accounted_witness: "mset (accepted tp_init) = mset (refused tp_init) + mset (handled tp_init)"
  using sockets_accounted [OF tp_start] by (simp add: tp_init_def)

subsection \<open>Waking and progress\<close>

text \<open>C28. Signals arrive only while \<open>accept\<close> waits. No wakeup is lost: while a worker sleeps, there are at least as many workers on their way to
  the queue as tasks in it.\<close>

theorem no_lost_wakeup:
  assumes "tp_reachable False s" and "shutdown (pool s) = 0" and "pc_is s w W_Wait"
  shows "queue_size (pool s) \<le> int (tally awake (workers s))"
proof -
  from tp_reachable_inv [OF assms(1)] obtain as where i: "tp_inv s as" ..
  have "main s \<noteq> M_Done" using i assms(2) by (auto simp: tp_inv_def inv_phase_def)
  then have "queue_size (pool s) = int (length as)" using i by (simp add: tp_inv_def inv_tasks_def queue_repr_def)
  with i assms(2) pc_is_in [OF assms(3)] show ?thesis by (simp add: tp_inv_def inv_wake_def)
qed

text \<open>The four workers have found the queue empty and sleep.\<close>

definition one_asleep :: tp_sys where
  "one_asleep = goto 0 W_Wait (tp_init\<lparr>mutex := None\<rparr>)"

lemma one_asleep_reachable: "tp_reachable False one_asleep"
proof -
  let ?s1 = "goto 0 W_Check tp_init\<lparr>mutex := Some (By_Worker 0)\<rparr>"
  have "worker_step 0 tp_init ?s1"
    by (rule w_lock) (simp_all add: pc_is_def tp_init_def NUM_WORKER_THREADS_def)
  then have r: "tp_reachable False ?s1" by (rule tp_next [OF tp_start by_worker])
  have "worker_step 0 ?s1 (goto 0 W_Wait ?s1\<lparr>mutex := None\<rparr>)"
    by (rule w_wait) (simp_all add: pc_is_def tp_init_def NUM_WORKER_THREADS_def)
  from tp_next [OF r by_worker [OF this]] show ?thesis by (simp add: one_asleep_def goto_def tp_init_def)
qed

theorem no_lost_wakeup_witness: "queue_size (pool one_asleep) \<le> int (tally awake (workers one_asleep))"
  by (rule no_lost_wakeup [OF one_asleep_reachable, of 0])
    (simp_all add: one_asleep_def tp_init_def pc_is_def NUM_WORKER_THREADS_def)

lemma worker_can_step:
  assumes i: "tp_inv s as" and mx: "mutex s = None" and pc: "pc_is s w pc" and "pc \<noteq> W_Wait" "pc \<noteq> W_Exit"
  shows "\<exists>s'. worker_step w s s'"
proof (cases pc)
  case W_Check
  with i mx pc show ?thesis by (auto simp: tp_inv_def inv_mutex_def)
next
  case (W_Sem a)
  have "0 < semaphore s"
    using i handling_tally [of "workers s"] by (simp add: tp_inv_def inv_count_def NUM_WORKER_THREADS_def MAX_CLIENTS_def)
  with pc W_Sem w_sem show ?thesis by blast
next
  case (W_Handle a)
  have "a \<in># tally pc_addrs (workers s)" by (rule pc_addrs_tally [OF pc]) (simp add: W_Handle)
  with tasks_apart [of s as a] i have "a \<in> dom (tasks (pool s))" by (simp add: tp_inv_def)
  then obtain p where "free_task a (pool s) = Some p" by (auto simp: free_task_def mem_simps)
  with pc W_Handle w_done show ?thesis by blast
qed (use assms w_lock in blast)+

lemma holder_checks: "inv_mutex s \<Longrightarrow> mutex s = Some (By_Worker w) \<Longrightarrow> pc_is s w W_Check"
  unfolding inv_mutex_def by blast

lemma holder_can_step:
  assumes i: "tp_inv s as" and pc: "pc_is s w W_Check"
  shows "\<exists>s'. worker_step w s s'"
proof (cases "shutdown (pool s) = 0 \<and> task_queue_head (pool s) \<noteq> None")
  case True
  then have "main s \<noteq> M_Done" using i by (auto simp: tp_inv_def inv_phase_def)
  then have q: "queue_repr (pool s) as" using i by (simp add: tp_inv_def inv_tasks_def)
  then have "as \<noteq> []" using True by (auto simp: queue_repr_def)
  with queue_take_ok [OF q] obtain a p where "queue_take (pool s) = Some (Some a, p)" by (cases as) auto
  with pc True w_take show ?thesis by blast
qed (use pc w_exit w_wait in blast)

lemma main_can_push:
  assumes i: "tp_inv s as" and m: "main s = M_Push a"
  shows "\<exists>s'. main_step sig s s'"
proof -
  have it: "inv_tasks s as" using i by (simp add: tp_inv_def)
  then have q: "queue_repr (pool s) as" and sp: "spare_task (pool s) a"
    and eq: "mset_set (dom (tasks (pool s))) = mset as + tally pc_addrs (workers s) + {#a#}" using m by (auto simp: inv_tasks_def)
  have "count (mset_set (dom (tasks (pool s)))) a \<le> 1" by (simp add: count_mset_set')
  then have "count (mset as) a = 0" unfolding eq by simp
  then have "a \<notin> set as" by (simp add: count_eq_zero_iff)
  from queue_push_ok [OF q sp this] obtain p where p: "queue_push a (pool s) = Some p" by blast
  obtain pcs where "if W_Wait \<in> set (workers s) then \<exists>w. pc_is s w W_Wait \<and> pcs = (workers s)[w := W_Woken] else pcs = workers s"
  proof (cases "W_Wait \<in> set (workers s)")
    case True
    then obtain w where "pc_is s w W_Wait" by (auto simp: pc_is_def in_set_conv_nth)
    with True show thesis by (intro that [of "(workers s)[w := W_Woken]"]) auto
  next
    case False
    then show thesis by (intro that [of "workers s"]) simp
  qed
  from m_push [OF m p this] show ?thesis by blast
qed

lemma tally_pos: "(0::nat) < tally f pcs \<Longrightarrow> \<exists>pc \<in> set pcs. 0 < f pc"
  by (induction pcs) auto

lemma awake_can_step:
  assumes "tp_inv s as" and "mutex s = None" and "pc \<in> set (workers s)" and ne: "pc \<noteq> W_Wait" and "pc \<noteq> W_Exit"
  shows "\<exists>w s'. \<not> pc_is s w W_Wait \<and> worker_step w s s'"
proof -
  from assms(3) obtain w where w: "pc_is s w pc" by (auto simp: pc_is_def in_set_conv_nth)
  have "\<not> pc_is s w W_Wait" using pc_is_unique [OF w, of W_Wait] ne by simp
  with worker_can_step [OF assms(1,2) w ne assms(5)] show ?thesis by blast
qed

lemma holder_progress:
  assumes i: "tp_inv s as" and ow: "mutex s = Some ow"
  shows "(\<exists>w s'. \<not> pc_is s w W_Wait \<and> worker_step w s s') \<or> main s \<noteq> M_Accept \<and> (\<exists>s'. main_step False s s')"
proof (cases ow)
  case (By_Worker w)
  with i ow have w: "pc_is s w W_Check" by (auto simp: tp_inv_def intro: holder_checks)
  have "\<not> pc_is s w W_Wait" using pc_is_unique [OF w, of W_Wait] by simp
  with holder_can_step [OF i w] show ?thesis by blast
next
  case By_Main
  with i ow obtain a where "main s = M_Push a" by (auto simp: tp_inv_def inv_mutex_def)
  with main_can_push [OF i this] show ?thesis by simp
qed

lemma queued_progress:
  assumes i: "tp_inv s as" and mx: "mutex s = None" and m: "main s = M_Accept" and "as \<noteq> []"
  shows "\<exists>w s'. \<not> pc_is s w W_Wait \<and> worker_step w s s'"
proof -
  have sh: "shutdown (pool s) = 0" using i m by (auto simp: tp_inv_def inv_phase_def)
  with i have ne: "pc \<noteq> W_Exit" if "pc \<in> set (workers s)" for pc using that by (auto simp: tp_inv_def inv_phase_def)
  have "\<exists>pc \<in> set (workers s). pc \<noteq> W_Wait"
  proof (cases "W_Wait \<in> set (workers s)")
    case True
    with i sh have "length as \<le> tally awake (workers s)" by (simp add: tp_inv_def inv_wake_def)
    moreover have "0 < length as" using assms(4) by simp
    ultimately have "0 < tally awake (workers s)" by (rule less_le_trans [rotated])
    from tally_pos [OF this] show ?thesis by (auto simp: awake_def split: if_splits)
  next
    case False
    have "length (workers s) = 4" using i by (simp add: tp_inv_def inv_count_def NUM_WORKER_THREADS_def)
    then obtain pc where "pc \<in> set (workers s)" by (cases "workers s") auto
    with False show ?thesis by metis
  qed
  with ne awake_can_step [OF i mx] show ?thesis by blast
qed

lemma join_progress:
  assumes i: "tp_inv s as" and mx: "mutex s = None" and m: "main s = M_Join"
  shows "(\<exists>w s'. \<not> pc_is s w W_Wait \<and> worker_step w s s') \<or> (\<exists>s'. main_step False s s')"
proof (cases "\<forall>pc \<in> set (workers s). pc = W_Exit")
  case True
  from m_join [OF m True] show ?thesis by blast
next
  case False
  then obtain pc where "pc \<in> set (workers s)" "pc \<noteq> W_Exit" by blast
  moreover have "W_Wait \<notin> set (workers s)" using i m by (auto simp: tp_inv_def inv_phase_def)
  ultimately show ?thesis using awake_can_step [OF i mx] by metis
qed

lemma pool_can_step:
  assumes i: "tp_inv s as" and "main s \<noteq> M_Done" and q: "main s = M_Accept \<Longrightarrow> mutex s = None \<Longrightarrow> as \<noteq> []"
  shows "(\<exists>w s'. \<not> pc_is s w W_Wait \<and> worker_step w s s') \<or> main s \<noteq> M_Accept \<and> (\<exists>s'. main_step False s s')"
proof (cases "mutex s")
  case (Some ow)
  from holder_progress [OF i Some] show ?thesis .
next
  case None
  have r: "queue_repr (pool s) as" using i assms(2) by (simp add: tp_inv_def inv_tasks_def)
  show ?thesis
  proof (cases "main s")
    case M_Accept
    from queued_progress [OF i None M_Accept q [OF M_Accept None]] show ?thesis by blast
  next
    case M_Join
    from join_progress [OF i None M_Join] M_Join show ?thesis by auto
  next
    case M_Drain
    from r drain_tasks_ok obtain fds h where "drain_tasks (tasks (pool s)) (task_queue_head (pool s)) = Some (fds, h)"
      by (auto simp: queue_repr_def)
    from m_drain [OF M_Drain None this] M_Drain show ?thesis by auto
  next
    case (M_Lock a)
    from m_lock [OF M_Lock None] M_Lock show ?thesis by auto
  next
    case (M_Push a)
    with i None show ?thesis by (auto simp: tp_inv_def inv_mutex_def)
  next
    case M_Shut
    from m_shut [OF M_Shut None] M_Shut show ?thesis by auto
  qed (use assms(2) in simp)
qed

lemma pool_moves:
  assumes "tp_reachable False s" and "main s \<noteq> M_Done" and "main s = M_Accept \<longrightarrow> task_queue_head (pool s) \<noteq> None"
  shows "(\<exists>w s'. \<not> pc_is s w W_Wait \<and> worker_step w s s') \<or> main s \<noteq> M_Accept \<and> (\<exists>s'. main_step False s s')"
proof -
  from tp_reachable_inv [OF assms(1)] obtain as where i: "tp_inv s as" ..
  have "queue_repr (pool s) as" using i assms(2) by (simp add: tp_inv_def inv_tasks_def)
  with assms(3) have "main s = M_Accept \<Longrightarrow> as \<noteq> []" by (auto simp: queue_repr_def)
  with pool_can_step [OF i assms(2)] show ?thesis by blast
qed

lemma shut_reachable: "tp_reachable False (tp_init\<lparr>main := M_Shut\<rparr>)"
  by (rule tp_next [OF tp_start by_main [OF m_signal]]) (simp add: tp_init_def)

subsection \<open>Shutdown\<close>

lemma destroyed_pool:
  assumes "tp_reachable False s" and "main s = M_Done"
  shows "(\<forall>pc \<in> set (workers s). pc = W_Exit) \<and> dom (tasks (pool s)) = {} \<and> mutex s = None \<and> semaphore s = 200
     \<and> mset (accepted s) = mset (refused s) + mset (handled s)"
proof -
  from tp_reachable_inv [OF assms(1)] obtain as where i: "tp_inv s as" ..
  then have ex: "\<forall>pc \<in> set (workers s). pc = W_Exit" using assms(2) by (simp add: tp_inv_def inv_phase_def)
  have none: "tally pc_addrs (workers s) = {#}" "tally handling (workers s) = 0"
    by (rule tally_zero, use ex in \<open>auto simp: handling_def\<close>)+
  have "mset_set (dom (tasks (pool s))) = {#}" "finite (dom (tasks (pool s)))"
    using i assms(2) none(1) by (simp_all add: tp_inv_def inv_tasks_def)
  then have d: "dom (tasks (pool s)) = {}" by (simp only: mset_set_empty_iff) simp
  have "mutex s = None"
  proof (cases "mutex s")
    case (Some ow)
    then show ?thesis
    proof (cases ow)
      case (By_Worker w)
      with i Some have "pc_is s w W_Check" by (auto simp: tp_inv_def intro: holder_checks)
      with ex pc_is_in show ?thesis by blast
    next
      case By_Main
      with i Some assms(2) show ?thesis by (auto simp: tp_inv_def inv_mutex_def)
    qed
  qed
  with i ex d none(2) show ?thesis by (simp add: tp_inv_def inv_socks_def inv_count_def MAX_CLIENTS_def)
qed

text \<open>The run in which the signal comes first.\<close>

fun all_exit :: "nat \<Rightarrow> tp_sys \<Rightarrow> tp_sys" where
  "all_exit 0 s = s"
| "all_exit (Suc k) s = goto k W_Exit (all_exit k s)"

abbreviation shut_run :: "tp_sys \<Rightarrow> bool" where
  "shut_run \<equiv> (tp_step False)\<^sup>*\<^sup>* (tp_init\<lparr>main := M_Shut\<rparr>)"

lemmas shut_start = rtranclp.rtrancl_refl [of "tp_step False" "tp_init\<lparr>main := M_Shut\<rparr>"]

lemmas shut_next = rtranclp.rtrancl_into_rtrancl [of "tp_step False" "tp_init\<lparr>main := M_Shut\<rparr>"]

lemma one_exits:
  assumes r: "shut_run s" and pc: "pc_is s w W_Lock" and mx: "mutex s = None" and sh: "shutdown (pool s) \<noteq> 0"
  shows "shut_run (goto w W_Exit s\<lparr>mutex := None\<rparr>)"
proof -
  let ?s1 = "goto w W_Check s\<lparr>mutex := Some (By_Worker w)\<rparr>"
  have "worker_step w s ?s1" using pc mx by (intro w_lock) simp_all
  then have r1: "shut_run ?s1" by (rule shut_next [OF r by_worker])
  have "worker_step w ?s1 (goto w W_Exit ?s1\<lparr>mutex := None\<rparr>)"
    by (rule w_exit) (use pc sh in \<open>simp_all add: pc_is_def\<close>)
  from shut_next [OF r1 by_worker [OF this]] show ?thesis by (simp add: goto_def)
qed

definition shut_now :: "worker_pc list \<Rightarrow> main_pc \<Rightarrow> tp_sys" where
  "shut_now pcs m = tp_init\<lparr>main := m, workers := pcs, pool := (pool tp_init)\<lparr>shutdown := 1\<rparr>\<rparr>"

lemma shut_now_exit:
  "shut_run (shut_now pcs M_Join) \<Longrightarrow> w < length pcs \<Longrightarrow> pcs ! w = W_Lock \<Longrightarrow>
    shut_run (shut_now (pcs[w := W_Exit]) M_Join)"
  using one_exits [of "shut_now pcs M_Join" w] by (simp add: shut_now_def goto_def pc_is_def tp_init_def)

lemma shut_now_run: "shut_run (shut_now [W_Exit, W_Exit, W_Exit, W_Exit] M_Done)"
proof -
  have "shut_run (tp_init\<lparr>main := M_Join, pool := (pool tp_init)\<lparr>shutdown := 1\<rparr>, workers := wake_all (workers tp_init)\<rparr>)"
    using shut_next [OF shut_start by_main [OF m_shut]] by (simp add: tp_init_def)
  then have "shut_run (shut_now [W_Lock, W_Lock, W_Lock, W_Lock] M_Join)"
    by (simp add: shut_now_def tp_init_def wake_all_def NUM_WORKER_THREADS_def numeral_eq_Suc)
  from shut_now_exit [OF this, of 0] have "shut_run (shut_now [W_Exit, W_Lock, W_Lock, W_Lock] M_Join)" by simp
  from shut_now_exit [OF this, of 1] have "shut_run (shut_now [W_Exit, W_Exit, W_Lock, W_Lock] M_Join)" by simp
  from shut_now_exit [OF this, of 2] have "shut_run (shut_now [W_Exit, W_Exit, W_Exit, W_Lock] M_Join)"
    by (simp add: numeral_eq_Suc)
  from shut_now_exit [OF this, of 3] have r: "shut_run (shut_now [W_Exit, W_Exit, W_Exit, W_Exit] M_Join)"
    by (simp add: numeral_eq_Suc)
  have "main_step False (shut_now [W_Exit, W_Exit, W_Exit, W_Exit] M_Join) (shut_now [W_Exit, W_Exit, W_Exit, W_Exit] M_Drain)"
    using m_join [of "shut_now [W_Exit, W_Exit, W_Exit, W_Exit] M_Join" False] by (simp add: shut_now_def tp_init_def)
  from shut_next [OF r by_main [OF this]] have r: "shut_run (shut_now [W_Exit, W_Exit, W_Exit, W_Exit] M_Drain)" .
  have "drain_tasks Map.empty None = Some ([], Map.empty)" by (subst drain_tasks.simps) simp
  then have "main_step False (shut_now [W_Exit, W_Exit, W_Exit, W_Exit] M_Drain) (shut_now [W_Exit, W_Exit, W_Exit, W_Exit] M_Done)"
    using m_drain [of "shut_now [W_Exit, W_Exit, W_Exit, W_Exit] M_Drain" "[]" Map.empty False]
    by (simp add: shut_now_def tp_init_def)
  from shut_next [OF r by_main [OF this]] show ?thesis .
qed

lemma reachable_run: "(tp_step sig)\<^sup>*\<^sup>* s s' \<Longrightarrow> tp_reachable sig s \<Longrightarrow> tp_reachable sig s'"
  by (induction rule: rtranclp_induct) (auto intro: tp_next)

lemma shut_now_done: "tp_reachable False (shut_now [W_Exit, W_Exit, W_Exit, W_Exit] M_Done)"
  by (rule reachable_run [OF shut_now_run shut_reachable])

text \<open>C35. The signal handler calls \<open>thread_pool_destroy\<close> on the thread it interrupts. If that thread
  is inside \<open>thread_pool_add_task\<close> it waits for the mutex it holds itself, and no step of any
  thread ever gets it out of there: the shutdown never happens.\<close>

theorem signal_self_deadlock:
  "\<exists>s. tp_reachable True s \<and> {s'. (tp_step True)\<^sup>*\<^sup>* s s'} \<subseteq> {s'. main s' = M_Shut \<and> shutdown (pool s') = 0}"
proof -
  let ?al = "first_fit 1 :: task allocator"
  let ?s1 = "tp_init\<lparr>main := M_Lock 0, pool := (pool tp_init)\<lparr>tasks := [0 \<mapsto> \<lparr>client_socket = 5, t_next = None\<rparr>]\<rparr>, accepted := [5]\<rparr>"
  have "main_step True tp_init ?s1"
    using m_accept [of tp_init 5 ?al 0 "pool ?s1" True]
    by (simp add: tp_init_def new_task_def first_fit_def)
  from tp_next [OF tp_start by_main [OF this]] have r1: "tp_reachable True ?s1" .
  have "main_step True ?s1 (?s1\<lparr>main := M_Push 0, mutex := Some By_Main\<rparr>)" by (rule m_lock) (simp_all add: tp_init_def)
  from tp_next [OF r1 by_main [OF this]] have r2: "tp_reachable True (?s1\<lparr>main := M_Push 0, mutex := Some By_Main\<rparr>)" .
  let ?s3 = "?s1\<lparr>main := M_Push 0, mutex := Some By_Main\<rparr>\<lparr>main := M_Shut\<rparr>"
  have "main_step True (?s1\<lparr>main := M_Push 0, mutex := Some By_Main\<rparr>) ?s3" by (rule m_signal_held) simp_all
  from tp_next [OF r2 by_main [OF this]] have r3: "tp_reachable True ?s3" .
  let ?stuck = "\<lambda>s. main s = M_Shut \<and> shutdown (pool s) = 0 \<and> mutex s = Some By_Main \<and> W_Check \<notin> set (workers s)"
  have worker: "?stuck s'" if "worker_step w s s'" "?stuck s" for w s s'
    using that
  proof cases
    case (w_done a p)
    have "shutdown p = shutdown (pool s)" using w_done(3) by (auto simp: free_task_def release_def split: option.splits)
    with w_done that(2) show ?thesis by (auto dest!: in_set_update)
  qed (use that(2) in \<open>auto dest: pc_is_in dest!: in_set_update\<close>)
  have main: "?stuck s'" if "main_step True s s'" "?stuck s" for s s'
    using that by cases auto
  have "?stuck s'" if "(tp_step True)\<^sup>*\<^sup>* ?s3 s'" for s'
    using that
  proof (induction rule: rtranclp_induct)
    case base
    show ?case by (simp add: tp_init_def)
  next
    case (step y z)
    then show ?case using worker main by (auto simp: tp_step_iff)
  qed
  with r3 show ?thesis by blast
qed

end
