(* ===== verification/Proxy_Core.thy ===== *)
theory Proxy_Core
  imports Cache Connection_Pool Http_Parser Task_Queue
begin

section \<open>The proxy server: data and operations\<close>

text \<open>
  Models \<^verbatim>\<open>src/components/proxy_server.c\<close>, \<^verbatim>\<open>include/proxy/proxy_server.h\<close> and
  \<^verbatim>\<open>src/proxy_server.c\<close>, one request at a time; the accept loop and the workers that run
  \<open>handle_client_request\<close> concurrently are in \<open>Thread_Pool\<close>, the same request in steps in
  \<open>Request_Steps\<close>, and \<open>main\<close> in \<open>Proxy_Main\<close>. The global pointers are the
  fields of \<open>proxy\<close>. What the operating system, the allocator and the clock return during one
  request is an argument (\<open>request_env\<close>), and what the request does to its sockets is the event
  list of the result. \<open>Sock_Send\<close> carries the bytes that are handed to \<open>send\<close>.
\<close>

definition DEFAULT_PORT :: int where
  [consts_defs]: "DEFAULT_PORT = 8080"

definition MAX_REQUEST_SIZE :: nat where
  [consts_defs]: "MAX_REQUEST_SIZE = 4096"

definition MAX_RESPONSE_SIZE :: nat where
  [consts_defs]: "MAX_RESPONSE_SIZE = 1048576"

record proxy =
  px_threads :: "thread_pool option"
  px_cache :: "optimized_cache option"
  px_conns :: "connection_pool option"
  px_strtok :: string

text \<open>
  The outcomes of one request: the pieces in which the client's and the server's bytes arrive
  (an empty piece is a \<open>recv\<close> that fails or times out, no more pieces the end of the stream),
  the two attempts to connect, whether the request could be sent, the allocations, and the
  values of \<open>time\<close> at the lookup, the connection, the insertion and the return.
\<close>

record request_env =
  env_client :: "bytes list"
  env_server :: "bytes list"
  env_net :: os_net
  env_net_again :: os_net
  env_send_ok :: bool
  env_calloc :: bool
  env_parse_mem :: mallocs
  env_cache_mem :: cache_mallocs
  env_t_lookup :: int
  env_t_connect :: int
  env_t_store :: int
  env_t_return :: int

subsection \<open>Receiving\<close>

text \<open>One \<open>recv\<close> of at most \<open>n\<close> bytes: what is read, and what is left.\<close>

fun recv_chunk :: "nat \<Rightarrow> bytes list \<Rightarrow> bytes \<times> bytes list" where
  "recv_chunk n [] = ([], [])"
| "recv_chunk n (c # cs) = (take n c, if length c \<le> n then cs else drop n c # cs)"

function recv_loop :: "bytes \<Rightarrow> bool \<Rightarrow> bytes list \<Rightarrow> bytes" where
  "recv_loop response header_end_found stream =
     (if length response < MAX_RESPONSE_SIZE - 1 then
        (let received = fst (recv_chunk (MAX_RESPONSE_SIZE - length response - 1) stream);
             stream' = snd (recv_chunk (MAX_RESPONSE_SIZE - length response - 1) stream);
             response' = response @ received;
             header_end = \<not> header_end_found \<and> 4 \<le> length response' \<and> strstr (cstr response') (CRLF @ CRLF) \<noteq> None in
         if received = [] then response
         else if header_end \<and> length response' < 2048 then response'
         else if (header_end_found \<or> header_end) \<and> 1024 < length response' then response'
         else recv_loop response' (header_end_found \<or> header_end) stream')
      else response)"
  by pat_completeness auto

termination
proof (relation "measure (\<lambda>(response, found, stream). MAX_RESPONSE_SIZE - length response)", goal_cases)
  case (2 response header_end_found stream received stream' response' header_end)
  have "length response < MAX_RESPONSE_SIZE - 1" "received \<noteq> []" "response' = response @ received"
    by (fact 2)+
  then have "0 < length received" "length response < MAX_RESPONSE_SIZE" "length response' = length response + length received"
    by simp_all
  then show ?case unfolding in_measure prod.case by linarith
qed simp

declare recv_loop.simps [simp del]

subsection \<open>Responses and requests as text\<close>

text \<open>
  A text that \<open>snprintf\<close> writes into a buffer of \<open>cap\<close> bytes and that is then sent with the length
  \<open>snprintf\<close> returned, which may be more than what was written.
\<close>

definition formatted :: "nat \<Rightarrow> string \<Rightarrow> bytes option" where
  "formatted cap text =
     (if cap < length text then None else Some (take (length text) (snprintf_text cap text @ [CHR 0x00])))"

definition send_error_response :: "int \<Rightarrow> int \<Rightarrow> string \<Rightarrow> sys_event list option" where
  "send_error_response client error_code message =
     map_option (\<lambda>response. [Sock_Send client response])
       (formatted 1024 (''HTTP/1.1 '' @ dec_int error_code @ '' '' @ message @ CRLF
            @ ''Content-Type: text/html'' @ CRLF
            @ ''Content-Length: '' @ dec_int (to_int32 (int (39 + length message + 20))) @ CRLF
            @ ''Connection: close'' @ CRLF
            @ CRLF
            @ ''<html><body><h1>'' @ dec_int error_code @ '' '' @ message @ ''</h1></body></html>''))"

text \<open>The part of the URL that is sent to the server, in a buffer of 256 bytes.\<close>

definition actual_path :: "string \<Rightarrow> string" where
  "actual_path path =
     (if strstr path ''http://'' \<noteq> None
      then (case strchr (drop 7 path) CHR ''/'' of
              None \<Rightarrow> ''/''
            | Some i \<Rightarrow> take 255 (drop i (drop 7 path)))
      else if take 1 path = ''/'' then take 255 path
      else ''/'')"

definition request_text :: "string \<Rightarrow> string \<Rightarrow> string \<Rightarrow> string" where
  "request_text method path host =
     method @ '' '' @ path @ '' HTTP/1.1'' @ CRLF
     @ ''Host: '' @ host @ CRLF
     @ ''User-Agent: ProxyServer/1.0'' @ CRLF
     @ ''Connection: close'' @ CRLF
     @ CRLF"

subsection \<open>Forwarding\<close>

text \<open>A connection to the server: from the pool, or, when that fails, in a second attempt.\<close>

definition open_server :: "request_env \<Rightarrow> connection_pool option \<Rightarrow> string \<Rightarrow> int
    \<Rightarrow> int \<times> connection_pool option \<times> sys_event list" where
  "open_server env conns host port =
     (case connection_pool_get (env_net env) (env_t_connect env) conns (Some host) port of
        (fd, conns', evs) \<Rightarrow>
          if fd < 0
          then (case create_persistent_connection (env_net_again env) host port of
                  (fd', evs') \<Rightarrow> (fd', conns', evs @ evs'))
          else (fd, conns', evs))"

text \<open>Lines 279 to 381: the exchange with the server on an open connection.\<close>

definition exchange :: "request_env \<Rightarrow> proxy \<Rightarrow> int \<Rightarrow> string \<Rightarrow> string \<Rightarrow> string \<Rightarrow> int \<Rightarrow> string \<Rightarrow> int
    \<Rightarrow> (int \<times> proxy \<times> sys_event list) option" where
  "exchange env g server method path host port cache_key client =
     do {
       request_buffer \<leftarrow> formatted MAX_REQUEST_SIZE (request_text method (actual_path path) host);
       (if \<not> env_send_ok env
        then Some (- 1, g, Sock_Send server request_buffer # socket_close server)
        else let response = recv_loop [] False (env_server env) in
          if response = []
          then Some (- 1, g, Sock_Send server request_buffer # socket_close server)
          else do {
            (res, cache) \<leftarrow> cache_add (env_cache_mem env) (env_t_store env) (px_cache g) (Some cache_key)
                              (Some response) (int (length response));
            let (conns, evs) = connection_pool_return (env_t_return env) (px_conns g) server (Some host) port 1;
            Some (0, g\<lparr>px_cache := cache, px_conns := conns\<rparr>,
              Sock_Send server request_buffer # Sock_Send client response # evs)
          })
     }"

definition forward_request_to_server :: "request_env \<Rightarrow> proxy \<Rightarrow> ParsedRequest option \<Rightarrow> int
    \<Rightarrow> (int \<times> proxy \<times> sys_event list) option" where
  "forward_request_to_server env g request client =
     (case request of None \<Rightarrow> Some (- 1, g, [])
      | Some rq \<Rightarrow>
          if client \<le> 0 then Some (- 1, g, [])
          else (case pr_host rq of None \<Rightarrow> Some (- 1, g, [])
            | Some host_header \<Rightarrow> do {
                (res, hp) \<leftarrow> extract_host_port 256 (Some host_header);
                (host, port) \<leftarrow> hp;
                path \<leftarrow> pr_path rq;
                let cache_key = snprintf_text 512 path;
                (cached, cache) \<leftarrow> cache_get (env_t_lookup env) (px_cache g) (Some cache_key);
                let g = g\<lparr>px_cache := cache\<rparr>;
                (if cached \<noteq> None
                 then do {
                   c \<leftarrow> cache;
                   n \<leftarrow> deref (heap c) cached;
                   (if length (data n) < nat (data_size n) then None
                    else Some (0, g, [Sock_Send client (take (nat (data_size n)) (data n))]))
                 }
                 else do {
                   let (server, conns, evs) = open_server env (px_conns g) host port;
                   let g = g\<lparr>px_conns := conns\<rparr>;
                   (if server < 0 then Some (- 1, g, evs)
                    else do {
                      method \<leftarrow> pr_method rq;
                      (res, g, evs') \<leftarrow> exchange env g server method path host port cache_key client;
                      Some (res, g, evs @ evs')
                    })
                 })
              }))"

subsection \<open>One client\<close>

definition handle_client_request :: "request_env \<Rightarrow> proxy \<Rightarrow> int \<Rightarrow> (proxy \<times> sys_event list) option" where
  "handle_client_request env g client =
     (let request_buffer = fst (recv_chunk (MAX_REQUEST_SIZE - 1) (env_client env));
          bytes_received = int (length request_buffer) in
      if bytes_received \<le> 0 then Some (g, socket_close client)
      else if validate_http_request (Some (cstr request_buffer)) bytes_received = 0
      then do {
        evs \<leftarrow> send_error_response client 400 ''Bad Request'';
        Some (g, evs @ socket_close client)
      }
      else (case ParsedRequest_create (env_calloc env) of
        None \<Rightarrow> do {
          evs \<leftarrow> send_error_response client 500 ''Internal Server Error'';
          Some (g, evs @ socket_close client)
        }
      | Some pr \<Rightarrow> do {
          (res, pr, saved) \<leftarrow> ParsedRequest_parse (env_parse_mem env) (Some pr) (Some request_buffer)
                               bytes_received (px_strtok g);
          let g = g\<lparr>px_strtok := saved\<rparr>;
          (if res < 0 then do {
             evs \<leftarrow> send_error_response client 400 ''Bad Request'';
             Some (g, evs @ socket_close client)
           }
           else do {
             (res, g, evs) \<leftarrow> forward_request_to_server env g pr client;
             (if res < 0 then do {
                evs' \<leftarrow> send_error_response client 502 ''Bad Gateway'';
                Some (g, evs @ evs' @ socket_close client)
              }
              else Some (g, evs @ socket_close client))
           })
        }))"

subsection \<open>Start and end of the server\<close>

text \<open>The outcomes of the calls of the initialisation, in the order of the code.\<close>

record init_env =
  ie_sem :: bool
  ie_lock :: bool
  ie_threads :: "bool \<times> bool \<times> bool \<times> (nat \<Rightarrow> bool)"
  ie_cache :: "bool \<times> bool \<times> bool"
  ie_conns :: "bool \<times> bool"

definition proxy_server_init :: "init_env \<Rightarrow> proxy \<Rightarrow> int \<times> proxy" where
  "proxy_server_init ie g =
     (if \<not> ie_sem ie then (- 1, g)
      else if \<not> ie_lock ie then (- 1, g)
      else let g = g\<lparr>px_threads := (case ie_threads ie of (m, mi, ci, cr) \<Rightarrow> thread_pool_create m mi ci cr)\<rparr> in
        if px_threads g = None then (- 1, g)
      else let g = g\<lparr>px_cache := (case ie_cache ie of (m1, m2, mi) \<Rightarrow> cache_create m1 m2 mi)\<rparr> in
        if px_cache g = None then (- 1, g)
      else let g = g\<lparr>px_conns := (case ie_conns ie of (m, mi) \<Rightarrow> connection_pool_create m mi (int MAX_POOL_SIZE))\<rparr> in
        if px_conns g = None then (- 1, g)
      else (0, g))"

definition create_server_socket :: "int \<Rightarrow> int \<Rightarrow> int \<Rightarrow> int \<Rightarrow> int \<times> sys_event list" where
  "create_server_socket sock_result setsockopt_result bind_result listen_result =
     (if sock_result < 0 then (- 1, [])
      else if setsockopt_result < 0 then (- 1, socket_close sock_result)
      else if bind_result < 0 then (- 1, socket_close sock_result)
      else if listen_result < 0 then (- 1, socket_close sock_result)
      else (sock_result, []))"

text \<open>
  The modules after the workers have been joined: the sockets of the queued tasks, the nodes
  left in the cache's heap, and the pooled sockets.
\<close>

definition proxy_server_shutdown :: "proxy \<Rightarrow> (proxy \<times> cache_node heap \<times> sys_event list) option" where
  "proxy_server_shutdown g =
     do {
       fds \<leftarrow> (case px_threads g of None \<Rightarrow> Some []
               | Some tp \<Rightarrow> map_option fst (drain_tasks (tasks tp) (task_queue_head tp)));
       nodes \<leftarrow> cache_destroy (px_cache g);
       Some (g\<lparr>px_threads := None, px_cache := None, px_conns := None\<rparr>, nodes,
         map Sock_Close fds @ connection_pool_destroy (px_conns g))
     }"

text \<open>The port of the command line: an exit with status 1, or the port to serve.\<close>

definition main_port :: "string list \<Rightarrow> int option" where
  "main_port argv =
     (if length argv = 2
      then (let port = atoi (argv ! 1) in if port \<le> 0 \<or> 65535 < port then None else Some port)
      else Some DEFAULT_PORT)"

end
