(* ===== verification/Proxy_Facts.thy ===== *)
theory Proxy_Facts
  imports Proxy_Core Cache_Contract Pool_Properties Http_Facts
begin

section \<open>Facts about one request\<close>

text \<open>
  The invariant of the global state, the bounds on the texts the proxy builds, what the receive
  loop returns, and the behaviour of the exchange and of the forwarding under the invariant.
\<close>

definition proxy_inv :: "proxy \<Rightarrow> bool" where
  "proxy_inv g \<longleftrightarrow> (\<exists>c p. px_cache g = Some c \<and> cache_inv c \<and> px_conns g = Some p \<and> pool_inv p)"

definition env_ok :: "request_env \<Rightarrow> bool" where
  "env_ok env \<longleftrightarrow> env_parse_mem env = (\<lambda>_. True) \<and> alloc_fresh (malloc_node (env_cache_mem env))"

subsection \<open>Texts\<close>

lemma formatted_fits: "length text < cap \<Longrightarrow> formatted cap text = Some text"
  by (simp add: formatted_def snprintf_text_def)

lemma actual_path_bound: "length (actual_path path) \<le> 255"
  by (auto simp: actual_path_def split: option.split)

lemma method_bound: "m \<in> set http_methods \<Longrightarrow> length m \<le> 6"
  by (auto simp: http_methods_def)

lemma request_text_fits:
  assumes "length m \<le> 6" and "length h < 256"
  shows "formatted MAX_REQUEST_SIZE (request_text m (actual_path path) h) = Some (request_text m (actual_path path) h)"
  using assms actual_path_bound [of path] by (intro formatted_fits) (simp add: request_text_def MAX_REQUEST_SIZE_def)

lemma dec_consts: "dec_int 400 = ''400''" "dec_int 500 = ''500''" "dec_int 502 = ''502''"
  "dec_int 70 = ''70''" "dec_int 80 = ''80''"
  by code_simp+

definition error_head :: "int \<Rightarrow> string \<Rightarrow> string" where
  "error_head k message = ''HTTP/1.1 '' @ dec_int k @ '' '' @ message @ CRLF @ ''Content-Type: text/html'' @ CRLF
     @ ''Content-Length: '' @ dec_int (to_int32 (int (39 + length message + 20))) @ CRLF
     @ ''Connection: close'' @ CRLF @ CRLF"

definition error_body :: "int \<Rightarrow> string \<Rightarrow> string" where
  "error_body k message = ''<html><body><h1>'' @ dec_int k @ '' '' @ message @ ''</h1></body></html>''"

lemma send_error_response_sends:
  "length (error_head k message @ error_body k message) < 1024 \<Longrightarrow>
    send_error_response client k message = Some [Sock_Send client (error_head k message @ error_body k message)]"
  using formatted_fits [of "error_head k message @ error_body k message" 1024]
  by (simp add: send_error_response_def error_head_def error_body_def)

lemma dec_nat_length: "n < 10 ^ Suc k \<Longrightarrow> length (dec_nat n) \<le> Suc k"
proof (induction k arbitrary: n)
  case 0
  then show ?case by (subst dec_nat.simps) simp
next
  case (Suc k)
  then have "n div 10 < 10 ^ Suc k" by (simp add: div_less_iff_less_mult)
  from Suc.IH [OF this] show ?case by (subst dec_nat.simps) simp
qed

lemma error_fits:
  assumes "k \<in> {400, 500, 502}" and "length message < 100"
  shows "length (error_head k message @ error_body k message) < 1024"
proof -
  have c: "length (dec_int k) = 3" using assms(1) dec_consts by auto
  have "to_int32 (int (39 + length message + 20)) = int (39 + length message + 20)"
    using assms(2) by (intro to_int32_small) simp_all
  moreover have "length (dec_nat (39 + length message + 20)) \<le> Suc 2"
    using assms(2) by (intro dec_nat_length) simp
  ultimately have "length (dec_int (to_int32 (int (39 + length message + 20)))) \<le> 3"
    by (simp add: dec_int_def nat_add_distrib)
  with assms(2) c show ?thesis by (simp add: error_head_def error_body_def)
qed

lemma error_400: "send_error_response client 400 ''Bad Request'' = Some [Sock_Send client (error_head 400 ''Bad Request'' @ error_body 400 ''Bad Request'')]"
  and error_500: "send_error_response client 500 ''Internal Server Error'' = Some [Sock_Send client (error_head 500 ''Internal Server Error'' @ error_body 500 ''Internal Server Error'')]"
  and error_502: "send_error_response client 502 ''Bad Gateway'' = Some [Sock_Send client (error_head 502 ''Bad Gateway'' @ error_body 502 ''Bad Gateway'')]"
  by (intro send_error_response_sends error_fits; simp)+

subsection \<open>Receiving\<close>

lemma recv_chunk_split: "fst (recv_chunk n cs) @ concat (snd (recv_chunk n cs)) = concat cs"
  by (cases cs) auto

lemma recv_chunk_length: "length (fst (recv_chunk n cs)) \<le> n"
  by (cases cs) auto

lemma recv_loop_prefix:
  "length response < MAX_RESPONSE_SIZE \<Longrightarrow>
    \<exists>more rest. recv_loop response found stream = response @ more \<and> concat stream = more @ rest
      \<and> length (response @ more) < MAX_RESPONSE_SIZE"
proof (induction response found stream rule: recv_loop.induct)
  case (1 response found stream)
  let ?n = "MAX_RESPONSE_SIZE - length response - 1"
  let ?d = "fst (recv_chunk ?n stream)" and ?s = "snd (recv_chunk ?n stream)"
  let ?hit = "\<not> found \<and> 4 \<le> length (response @ ?d) \<and> strstr (cstr (response @ ?d)) (CRLF @ CRLF) \<noteq> None"
  have split: "concat stream = ?d @ concat ?s" by (simp add: recv_chunk_split)
  show ?case
  proof (cases "length response < MAX_RESPONSE_SIZE - 1")
    case False
    then show ?thesis using "1.prems" by (subst recv_loop.simps) auto
  next
    case True
    have fits: "length (response @ ?d) < MAX_RESPONSE_SIZE"
      using True recv_chunk_length [of ?n stream] by simp
    consider "?d = []" | "?d \<noteq> []" "?hit \<and> length (response @ ?d) < 2048 \<or> (found \<or> ?hit) \<and> 1024 < length (response @ ?d)"
      | "?d \<noteq> []" "\<not> (?hit \<and> length (response @ ?d) < 2048)" "\<not> ((found \<or> ?hit) \<and> 1024 < length (response @ ?d))" by blast
    then show ?thesis
    proof cases
      case 1
      then have "recv_loop response found stream = response" using True by (subst recv_loop.simps) (simp add: Let_def)
      with fits 1 split show ?thesis by (metis append_Nil2)
    next
      case 2
      then have "recv_loop response found stream = response @ ?d"
        using True by (subst recv_loop.simps) (simp only: Let_def if_True, auto)
      with fits split show ?thesis by blast
    next
      case 3
      then have e: "recv_loop response found stream = recv_loop (response @ ?d) (found \<or> ?hit) ?s"
        using True by (subst recv_loop.simps) (simp only: Let_def if_True, auto)
      from "1.IH" [OF True refl refl refl refl 3 fits] obtain more rest where
        "recv_loop (response @ ?d) (found \<or> ?hit) ?s = (response @ ?d) @ more" "concat ?s = more @ rest"
          "length ((response @ ?d) @ more) < MAX_RESPONSE_SIZE" by blast
      with e split show ?thesis by (intro exI [of _ "?d @ more"] exI [of _ rest]) simp
    qed
  qed
qed

text \<open>A first piece with the whole header and less than 2048 bytes ends the reception.\<close>

lemma recv_loop_short:
  assumes "c \<noteq> []" and "length c < 2048" and "strstr (cstr c) (CRLF @ CRLF) \<noteq> None"
  shows "recv_loop [] False (c # cs) = c"
proof -
  have c: "fst (recv_chunk (MAX_RESPONSE_SIZE - 1) (c # cs)) = c" using assms(2) by (simp add: MAX_RESPONSE_SIZE_def)
  from assms(3) obtain i where i: "strstr (cstr c) (CRLF @ CRLF) = Some i" by blast
  have "length (cstr c) \<le> length c" by (simp add: cstr_def length_takeWhile_le)
  with strstr_Some [OF i] have "4 \<le> length c" by simp
  with assms c show ?thesis by (subst recv_loop.simps) (simp add: Let_def MAX_RESPONSE_SIZE_def)
qed

subsection \<open>The parts of a request\<close>

lemma return_ok:
  assumes "pool_inv p"
  shows "\<exists>p' evs. connection_pool_return now (Some p) fd (Some h) pt 1 = (Some p', evs) \<and> pool_inv p'
     \<and> set (closed_socks evs) \<subseteq> {fd} \<and> sent_on t evs = []"
proof (cases "fd \<le> 0")
  case True
  with assms show ?thesis by (simp add: connection_pool_return_def)
next
  case False
  obtain p' evs where r: "pool_return_locked now fd h pt 1 p = (p', evs)" by fastforce
  then have "evs = [] \<or> evs = socket_close fd" by (auto simp: pool_return_locked_def split: option.splits)
  with r False return_keeps_inv [OF assms _ r] show ?thesis by (auto simp: connection_pool_return_def)
qed

lemma cache_add_any:
  assumes "cache_inv c" and "alloc_fresh (malloc_node ms)" and "d \<noteq> []"
  shows "\<exists>res c'. cache_add ms t (Some c) (Some k) (Some d) (int (length d)) = Some (res, Some c') \<and> cache_inv c'"
  using cache_add_ok [OF assms(1,2), of "int (length d)" d t k] assms(3) by auto

definition proxy_socks :: "request_env \<Rightarrow> connection_pool \<Rightarrow> int set" where
  "proxy_socks env p = set (live_fds (connections p)) \<union> {os_socket (env_net env), os_socket (env_net_again env)}"

lemma create_socks:
  assumes "create_persistent_connection os h pt = (fd, evs)"
  shows "(0 \<le> fd \<longrightarrow> fd = os_socket os) \<and> set (closed_socks evs) \<subseteq> {os_socket os} \<and> sent_on t evs = []"
  using assms by (auto simp: create_persistent_connection_def Let_def split: if_splits option.splits)

lemma pool_get_socks:
  assumes "pool_inv p"
  shows "\<exists>fd p' evs. connection_pool_get os now (Some p) (Some h) pt = (fd, Some p', evs) \<and> pool_inv p'
     \<and> (0 \<le> fd \<longrightarrow> fd \<in> set (live_fds (connections p)) \<or> fd = os_socket os)
     \<and> set (closed_socks evs) \<subseteq> insert (os_socket os) (set (live_fds (connections p))) \<and> sent_on t evs = []"
proof -
  obtain r cs closed where l: "pool_get_loop now h pt (connections p) = (r, cs, closed)" by (cases rule: prod_cases3)
  note ok = pool_get_loop_ok [OF l]
  then have "mset (live_fds (connections p)) = mset (live_fds cs @ closed)" by blast
  then have "set (live_fds (connections p)) = set (live_fds cs @ closed)" by (rule mset_eq_setD)
  then have sub: "set closed \<subseteq> set (live_fds (connections p))" by simp
  let ?p' = "p\<lparr>connections := cs, pool_size := pool_size p - int (length closed)\<rparr>"
  have t: "pool_get_locked now h pt p = (r, ?p', map Sock_Close closed)" by (simp add: pool_get_locked_def l)
  have i: "pool_inv ?p'" using code_take_ok [OF assms t] by simp
  show ?thesis
  proof (cases r)
    case (Some fd)
    with ok have "(fd, h, pt) \<in># idle_conns (connections p)" by simp
    then have "fd \<in> set (live_fds (connections p))" by (force simp: live_fds_conns)
    with Some t i sub show ?thesis by (auto simp: connection_pool_get_def)
  next
    case None
    obtain fd evs where c: "create_persistent_connection os h pt = (fd, evs)" by fastforce
    from create_socks [OF c, of t] None t i sub c show ?thesis by (auto simp: connection_pool_get_def)
  qed
qed

lemma open_server_ok:
  assumes "pool_inv p"
  shows "\<exists>fd p' evs. open_server env (Some p) h pt = (fd, Some p', evs) \<and> pool_inv p'
     \<and> (0 \<le> fd \<longrightarrow> fd \<in> proxy_socks env p) \<and> set (closed_socks evs) \<subseteq> proxy_socks env p \<and> sent_on t evs = []"
proof -
  from pool_get_socks [OF assms, of "env_net env" "env_t_connect env" h pt t] obtain fd p' evs where
    g: "connection_pool_get (env_net env) (env_t_connect env) (Some p) (Some h) pt = (fd, Some p', evs)" "pool_inv p'"
      "0 \<le> fd \<longrightarrow> fd \<in> set (live_fds (connections p)) \<or> fd = os_socket (env_net env)"
      "set (closed_socks evs) \<subseteq> insert (os_socket (env_net env)) (set (live_fds (connections p)))" "sent_on t evs = []" by blast
  obtain fd2 evs2 where c: "create_persistent_connection (env_net_again env) h pt = (fd2, evs2)" by fastforce
  from g c create_socks [OF c, of t] show ?thesis
    by (cases "fd < 0") (auto simp: open_server_def proxy_socks_def)
qed

lemma exchange_ok:
  assumes "px_cache g = Some c" "cache_inv c" "px_conns g = Some p" "pool_inv p" and "env_ok env"
    and "length m \<le> 6" and "length h < 256"
  shows "\<exists>res g' evs. exchange env g server m path h pt key client = Some (res, g', evs) \<and> proxy_inv g'
     \<and> set (closed_socks evs) \<subseteq> {server}"
proof -
  let ?text = "request_text m (actual_path path) h" and ?r = "recv_loop [] False (env_server env)"
  have f: "formatted MAX_REQUEST_SIZE ?text = Some ?text" using request_text_fits [OF assms(6,7)] .
  have i: "proxy_inv g" using assms(1-4) by (auto simp: proxy_inv_def)
  show ?thesis
  proof (cases "env_send_ok env \<and> ?r \<noteq> []")
    case False
    with f i show ?thesis by (auto simp: exchange_def Let_def)
  next
    case True
    from cache_add_any [OF assms(2), of "env_cache_mem env" ?r "env_t_store env" key] assms(5) True obtain res c' where
      a: "cache_add (env_cache_mem env) (env_t_store env) (Some c) (Some key) (Some ?r) (int (length ?r)) = Some (res, Some c')"
        "cache_inv c'" by (auto simp: env_ok_def)
    from return_ok [OF assms(4), of "env_t_return env" server h pt] obtain p' evs where
      r: "connection_pool_return (env_t_return env) (Some p) server (Some h) pt 1 = (Some p', evs)" "pool_inv p'"
        "set (closed_socks evs) \<subseteq> {server}" by blast
    from True f a r assms(1,3) show ?thesis by (simp add: exchange_def Let_def proxy_inv_def)
  qed
qed

text \<open>A hit: the cached bytes go to the client, and nothing else happens.\<close>

lemma spec_get_hit:
  "spec_find u es = Some e \<Longrightarrow> now - e_time e < 300 \<Longrightarrow>
    spec_get now u es = (Some (touch e), touch e # without_first (\<lambda>e. e_url e = u) es)"
  by (simp add: spec_get_def fresh_def CACHE_EXPIRY_TIME_def)

lemma cached_node_ok:
  assumes "cache_inv c" and "cache_get now (Some c) (Some u) = Some (Some a, Some c')"
  shows "\<exists>n. heap c' a = Some n \<and> nat (data_size n) = length (data n) \<and> data n = e_data (entry_at c' a)"
proof -
  from cache_get_ok [OF assms(1), of now u] assms(2) have i: "cache_inv c'"
    and addrs: "cache_addrs c' = a # filter (\<lambda>x. x \<noteq> a) (cache_addrs c)" by auto
  from cache_inv_repr [OF i] obtain chs where r: "cache_repr c' (cache_addrs c') chs" by blast
  with repr_node [OF r, of a] addrs obtain n where n: "heap c' a = Some n" by auto
  with r have "node_ok n" by (auto simp: cache_repr_def nodes_ok_def)
  with n show ?thesis by (auto simp: node_ok_def entry_at_def entry_of_def)
qed

lemma forward_ok:
  assumes g: "px_cache g = Some c" "cache_inv c" "px_conns g = Some p" "pool_inv p" and e: "env_ok env"
    and rq: "0 < client" "pr_host rq = Some hh" "length (host_part hh) < 256" "pr_path rq = Some path"
      "pr_method rq = Some m" "length m \<le> 6"
  shows "\<exists>res g' evs. forward_request_to_server env g (Some rq) client = Some (res, g', evs) \<and> proxy_inv g'
     \<and> set (closed_socks evs) \<subseteq> proxy_socks env p"
proof -
  from extract_fits [OF rq(3)] obtain pt where x: "extract_host_port 256 (Some hh) = Some (0, Some (host_part hh, pt))" by blast
  let ?key = "snprintf_text 512 path"
  from cache_get_ok [OF g(2), of "env_t_lookup env" ?key] obtain q c' where
    cg: "cache_get (env_t_lookup env) (Some c) (Some ?key) = Some (q, Some c')" "cache_inv c'" by blast
  show ?thesis
  proof (cases q)
    case (Some a)
    with cached_node_ok [OF g(2)] cg(1) obtain n where "heap c' a = Some n" "nat (data_size n) = length (data n)" by blast
    with Some x cg g rq show ?thesis by (simp add: forward_request_to_server_def Let_def proxy_inv_def)
  next
    case None
    from open_server_ok [OF g(4), of env "host_part hh" pt] obtain fd p' evs where
      o: "open_server env (Some p) (host_part hh) pt = (fd, Some p', evs)" "pool_inv p'"
        "0 \<le> fd \<longrightarrow> fd \<in> proxy_socks env p" "set (closed_socks evs) \<subseteq> proxy_socks env p" by blast
    let ?g = "g\<lparr>px_cache := Some c', px_conns := Some p'\<rparr>"
    show ?thesis
    proof (cases "fd < 0")
      case True
      with None x cg o rq g show ?thesis by (simp add: forward_request_to_server_def Let_def proxy_inv_def)
    next
      case False
      from exchange_ok [of ?g c' p' env m "host_part hh" fd path pt ?key client] cg(2) o(2) e rq obtain res g' evs' where
        "exchange env ?g fd m path (host_part hh) pt ?key client = Some (res, g', evs')" "proxy_inv g'"
          "set (closed_socks evs') \<subseteq> {fd}" by auto
      with False None x cg o rq g show ?thesis by (auto simp: forward_request_to_server_def Let_def)
    qed
  qed
qed

lemma forward_undefined:
  assumes "0 < client" and "pr_host rq = Some hh" and "256 \<le> length (host_part hh) \<or> pr_path rq = None"
  shows "forward_request_to_server env g (Some rq) client = None"
proof (cases "256 \<le> length (host_part hh)")
  case True
  with assms(1,2) extract_overflows [OF True] show ?thesis by (simp add: forward_request_to_server_def)
next
  case False
  then obtain pt where "extract_host_port 256 (Some hh) = Some (0, Some (host_part hh, pt))" using extract_fits [of hh 256] by auto
  with assms False show ?thesis by (simp add: forward_request_to_server_def)
qed

lemma forward_no_host:
  "pr_host rq = None \<Longrightarrow> forward_request_to_server env g (Some rq) client = Some (- 1, g, [])"
  by (simp add: forward_request_to_server_def)

end
