(* ===== verification/Proxy_Requests.thy ===== *)
theory Proxy_Requests
  imports Proxy_Facts
begin

section \<open>Whole requests\<close>

text \<open>
  \<open>handle_client_request\<close> on its branches: requests that are refused, requests whose response
  is in the cache, and requests that are forwarded.
\<close>

definition received :: "request_env \<Rightarrow> bytes" where
  "received env = fst (recv_chunk (MAX_REQUEST_SIZE - 1) (env_client env))"

text \<open>The request passes validation and is parsed to \<open>pr\<close>.\<close>

definition accepts :: "request_env \<Rightarrow> string \<Rightarrow> ParsedRequest \<Rightarrow> bool" where
  "accepts env saved pr \<longleftrightarrow>
     validate_http_request (Some (cstr (received env))) (int (length (received env))) = 1 \<and> env_calloc env \<and>
     (\<exists>saved'. ParsedRequest_parse (env_parse_mem env) (Some empty_request) (Some (received env))
        (int (length (received env))) saved = Some (0, Some pr, saved'))"

lemma validate_0_1: "validate_http_request r n = 0 \<or> validate_http_request r n = 1"
  by (auto simp: validate_http_request_def split: option.split)

lemma handle_nothing: "received env = [] \<Longrightarrow> handle_client_request env g client = Some (g, [Sock_Close client])"
  by (simp add: handle_client_request_def received_def socket_close_def)

lemma handle_invalid:
  "received env \<noteq> [] \<Longrightarrow> validate_http_request (Some (cstr (received env))) (int (length (received env))) = 0 \<Longrightarrow>
    handle_client_request env g client =
      Some (g, [Sock_Send client (error_head 400 ''Bad Request'' @ error_body 400 ''Bad Request''), Sock_Close client])"
  by (simp add: handle_client_request_def received_def socket_close_def error_400)

lemma validated_nonempty: "validate_http_request r (int (length d)) = 1 \<Longrightarrow> d \<noteq> []"
  by (auto simp: validate_http_request_def split: option.splits)

lemma handle_no_memory:
  "validate_http_request (Some (cstr (received env))) (int (length (received env))) = 1 \<Longrightarrow> \<not> env_calloc env \<Longrightarrow>
    handle_client_request env g client = Some (g, [Sock_Send client
      (error_head 500 ''Internal Server Error'' @ error_body 500 ''Internal Server Error''), Sock_Close client])"
  using validated_nonempty [of _ "received env"]
  by (auto simp: handle_client_request_def received_def socket_close_def error_500 ParsedRequest_create_def Let_def)

lemma handle_unparsed:
  assumes "validate_http_request (Some (cstr (received env))) (int (length (received env))) = 1" and "env_calloc env"
    and "ParsedRequest_parse (env_parse_mem env) (Some empty_request) (Some (received env))
        (int (length (received env))) (px_strtok g) = Some (- 1, pr, saved)"
  shows "handle_client_request env g client = Some (g\<lparr>px_strtok := saved\<rparr>,
    [Sock_Send client (error_head 400 ''Bad Request'' @ error_body 400 ''Bad Request''), Sock_Close client])"
  using assms validated_nonempty [OF assms(1)]
  by (simp add: handle_client_request_def received_def socket_close_def error_400 ParsedRequest_create_def Let_def)

lemma handle_accepts:
  assumes "accepts env (px_strtok g) pr"
  obtains saved where "handle_client_request env g client =
    do {
      (res, g', evs) \<leftarrow> forward_request_to_server env (g\<lparr>px_strtok := saved\<rparr>) (Some pr) client;
      Some (g', evs @ (if res < 0
        then [Sock_Send client (error_head 502 ''Bad Gateway'' @ error_body 502 ''Bad Gateway'')] else []) @ [Sock_Close client])
    }"
proof -
  from assms obtain saved where p: "ParsedRequest_parse (env_parse_mem env) (Some empty_request) (Some (received env))
        (int (length (received env))) (px_strtok g) = Some (0, Some pr, saved)"
    and v: "validate_http_request (Some (cstr (received env))) (int (length (received env))) = 1" and c: "env_calloc env"
    by (auto simp: accepts_def)
  have "handle_client_request env g client =
    do {
      (res, g', evs) \<leftarrow> forward_request_to_server env (g\<lparr>px_strtok := saved\<rparr>) (Some pr) client;
      Some (g', evs @ (if res < 0
        then [Sock_Send client (error_head 502 ''Bad Gateway'' @ error_body 502 ''Bad Gateway'')] else []) @ [Sock_Close client])
    }"
    using p v c validated_nonempty [OF v]
    by (cases "forward_request_to_server env (g\<lparr>px_strtok := saved\<rparr>) (Some pr) client")
      (auto simp: handle_client_request_def received_def socket_close_def error_502 ParsedRequest_create_def Let_def)
  then show thesis by (rule that)
qed

text \<open>Every received request is empty, refused, out of memory, not parsed, or accepted.\<close>

lemma request_cases:
  assumes "env_ok env"
  obtains "received env = []"
  | "received env \<noteq> []" "validate_http_request (Some (cstr (received env))) (int (length (received env))) = 0"
  | "validate_http_request (Some (cstr (received env))) (int (length (received env))) = 1" "\<not> env_calloc env"
  | pr saved where "validate_http_request (Some (cstr (received env))) (int (length (received env))) = 1" "env_calloc env"
      "ParsedRequest_parse (env_parse_mem env) (Some empty_request) (Some (received env))
        (int (length (received env))) sv = Some (- 1, pr, saved)"
  | pr where "accepts env sv pr"
proof -
  let ?d = "received env"
  consider "?d = []" | "?d \<noteq> []" "validate_http_request (Some (cstr ?d)) (int (length ?d)) = 0"
    | "validate_http_request (Some (cstr ?d)) (int (length ?d)) = 1" "\<not> env_calloc env"
    | "?d \<noteq> []" "validate_http_request (Some (cstr ?d)) (int (length ?d)) = 1" "env_calloc env"
    using validate_0_1 validated_nonempty by metis
  then show thesis
  proof cases
    case 4
    from parse_returns [of "int (length ?d)" ?d empty_request sv] 4(1) assms obtain res pr saved where
      p: "ParsedRequest_parse (env_parse_mem env) (Some empty_request) (Some ?d) (int (length ?d)) sv = Some (res, Some pr, saved)"
        "res = 0 \<or> res = - 1" by (auto simp: env_ok_def)
    from p(2) show thesis
    proof
      assume "res = 0"
      with p(1) 4 that(5) show thesis by (auto simp: accepts_def)
    next
      assume "res = - 1"
      with p(1) 4 that(4) show thesis by blast
    qed
  qed (use that in blast)+
qed

lemma accepted_method:
  assumes "env_ok env" and "accepts env sv pr"
  shows "\<exists>m \<in> set http_methods. pr_method pr = Some m"
  using assms parsed_method [of "received env" "int (length (received env))" empty_request sv pr]
  by (auto simp: accepts_def env_ok_def)

subsection \<open>Hits and misses\<close>

lemma forward_hit:
  assumes c: "px_cache g = Some c" "cache_inv c" and rq: "0 < client" "pr_host pr = Some hh" "length (host_part hh) < 256"
      "pr_path pr = Some path"
    and f: "spec_find (take 511 path) (cache_abs c) = Some e" "env_t_lookup env - e_time e < 300"
  shows "\<exists>c'. forward_request_to_server env g (Some pr) client = Some (0, g\<lparr>px_cache := Some c'\<rparr>, [Sock_Send client (e_data e)])
     \<and> cache_inv c'"
proof -
  from extract_fits [OF rq(3)] obtain pt where x: "extract_host_port 256 (Some hh) = Some (0, Some (host_part hh, pt))" by blast
  from cache_get_ok [OF c(2), of "env_t_lookup env" "take 511 path"] spec_get_hit [OF f] obtain a c' where
    cg: "cache_get (env_t_lookup env) (Some c) (Some (take 511 path)) = Some (Some a, Some c')" "cache_inv c'"
      "entry_at c' a = touch e" by auto
  from cached_node_ok [OF c(2) cg(1)] cg(3) obtain n where n: "heap c' a = Some n" "nat (data_size n) = length (data n)"
      "data n = e_data e" by (auto simp: touch_def)
  have k: "snprintf_text 512 path = take 511 path" by (simp add: snprintf_text_def)
  have "forward_request_to_server env g (Some pr) client = Some (0, g\<lparr>px_cache := Some c'\<rparr>, [Sock_Send client (e_data e)])"
    using c(1) rq x cg(1) n by (simp add: forward_request_to_server_def Let_def k)
  with cg(2) show ?thesis by blast
qed

text \<open>The response of a forwarded request is sent and stored.\<close>

lemma forward_miss:
  assumes g: "px_cache g = Some c" "cache_inv c" "px_conns g = Some p" "pool_inv p"
    and mem: "alloc_fresh (malloc_node (env_cache_mem env))" "memory_for (nat (max_size c)) (env_cache_mem env)"
    and rq: "0 < client" "pr_host pr = Some hh" "length (host_part hh) < 256" "pr_path pr = Some path"
      "pr_method pr = Some m" "length m \<le> 6"
    and miss: "spec_find (take 511 path) (cache_abs c) = None"
    and srv: "extract_host_port 256 (Some hh) = Some (0, Some (host_part hh, pt))"
      "0 \<le> fst (open_server env (Some p) (host_part hh) pt)" "env_send_ok env"
    and resp: "recv_loop [] False (env_server env) = response" "response \<noteq> []"
  shows "\<exists>g' evs c'. forward_request_to_server env g (Some pr) client = Some (0, g', evs)
     \<and> Sock_Send client response \<in> set evs \<and> px_cache g' = Some c' \<and> cache_inv c' \<and> proxy_inv g'
     \<and> spec_find (take 511 path) (cache_abs c') =
         Some \<lparr>e_url = take 511 path, e_data = response, e_time = env_t_store env, e_hits = 1\<rparr>"
proof -
  let ?key = "take 511 path" and ?h = "host_part hh"
  have k: "snprintf_text 512 path = ?key" by (simp add: snprintf_text_def)
  from cache_get_ok [OF g(2), of "env_t_lookup env" ?key] miss have
    cg: "cache_get (env_t_lookup env) (Some c) (Some ?key) = Some (None, Some c)" by (auto simp: spec_get_def)
  from open_server_ok [OF g(4), of env ?h pt 0] srv(2) obtain fd p1 evs1 where
    o: "open_server env (Some p) ?h pt = (fd, Some p1, evs1)" "pool_inv p1" "0 \<le> fd" by auto
  from cache_add_memory [OF g(2) mem, of "int (length response)" response "env_t_store env" ?key] resp(2) obtain c' where
    a: "cache_add (env_cache_mem env) (env_t_store env) (Some c) (Some ?key) (Some response) (int (length response)) = Some (0, Some c')"
      "cache_inv c'" "cache_abs c' = spec_add (max_size c) (env_t_store env) ?key response (cache_abs c)" by auto
  from return_ok [OF o(2), of "env_t_return env" fd ?h pt] obtain p2 evs2 where
    r: "connection_pool_return (env_t_return env) (Some p1) fd (Some ?h) pt 1 = (Some p2, evs2)" "pool_inv p2" by blast
  let ?text = "request_text m (actual_path path) ?h"
  have "formatted MAX_REQUEST_SIZE ?text = Some ?text" using request_text_fits [OF rq(6,3)] .
  then have "forward_request_to_server env g (Some pr) client =
      Some (0, g\<lparr>px_cache := Some c', px_conns := Some p2\<rparr>, evs1 @ Sock_Send fd ?text # Sock_Send client response # evs2)"
    using g(1,3) rq srv cg o a(1) r(1) resp
    by (simp add: forward_request_to_server_def exchange_def Let_def k)
  moreover have "spec_find ?key (cache_abs c') = Some \<lparr>e_url = ?key, e_data = response, e_time = env_t_store env, e_hits = 1\<rparr>"
    unfolding a(3) by (simp add: spec_add_def spec_find_def)
  ultimately show ?thesis using a(2) r(2)
    by (intro exI [of _ "g\<lparr>px_cache := Some c', px_conns := Some p2\<rparr>"]
        exI [of _ "evs1 @ Sock_Send fd ?text # Sock_Send client response # evs2"] exI [of _ c'])
      (simp add: proxy_inv_def)
qed

end
