(* ===== verification/Proxy_States.thy ===== *)
theory Proxy_States
  imports Proxy_Requests Thread_Pool
begin

section \<open>The states the server reaches, and what it receives and sends\<close>

text \<open>
  The global state after \<open>proxy_server_init\<close> and any number of requests, the effects of one
  request on the state and on the sockets, and the receive loop against a reference definition.
\<close>

text \<open>The globals of the program before \<open>main\<close>.\<close>

definition no_proxy :: proxy where
  "no_proxy = \<lparr>px_threads = None, px_cache = None, px_conns = None, px_strtok = []\<rparr>"

inductive proxy_reachable :: "proxy \<Rightarrow> bool" where
  px_start: "proxy_server_init ie no_proxy = (0, g) \<Longrightarrow> proxy_reachable g"
| px_request: "proxy_reachable g \<Longrightarrow> env_ok env \<Longrightarrow> 0 < client \<Longrightarrow>
    handle_client_request env g client = Some (g', evs) \<Longrightarrow> proxy_reachable g'"

lemma proxy_server_init_ok:
  assumes "proxy_server_init ie g0 = (0, g)"
  shows "proxy_inv g \<and> (\<exists>tp. px_threads g = Some tp \<and> queue_repr tp [])"
proof -
  from assms obtain tp c p where g: "px_threads g = Some tp" "px_cache g = Some c" "px_conns g = Some p"
    and tp: "(case ie_threads ie of (m, mi, ci, cr) \<Rightarrow> thread_pool_create m mi ci cr) = Some tp"
    and c: "(case ie_cache ie of (m1, m2, mi) \<Rightarrow> cache_create m1 m2 mi) = Some c"
    and p: "(case ie_conns ie of (m, mi) \<Rightarrow> connection_pool_create m mi (int MAX_POOL_SIZE)) = Some p"
    by (auto simp: proxy_server_init_def Let_def split: if_splits)
  from tp empty_queue have "queue_repr tp []" by (auto split: prod.splits)
  moreover from c cache_create_ok cache_invI have "cache_inv c" by (fastforce split: prod.splits)
  moreover from p have "p = new_pool"
    by (auto simp: connection_pool_create_def new_pool_def split: prod.splits if_splits)
  ultimately show ?thesis using g by (auto simp: proxy_inv_def)
qed

lemma proxy_inv_strtok [simp]: "proxy_inv (g\<lparr>px_strtok := s\<rparr>) = proxy_inv g"
  by (simp add: proxy_inv_def)

subsection \<open>One request\<close>

text \<open>Where an accepted request leaves defined behaviour.\<close>

definition defect :: "ParsedRequest \<Rightarrow> bool" where
  "defect pr \<longleftrightarrow> (\<exists>hh. pr_host pr = Some hh \<and> (256 \<le> length (host_part hh) \<or> pr_path pr = None))"

lemma handle_defect:
  assumes "accepts env (px_strtok g) pr" and "0 < client" and "defect pr"
  shows "handle_client_request env g client = None"
proof -
  from handle_accepts [OF assms(1), of client] obtain saved where h: "handle_client_request env g client =
    do {
      (res, g', evs) \<leftarrow> forward_request_to_server env (g\<lparr>px_strtok := saved\<rparr>) (Some pr) client;
      Some (g', evs @ (if res < 0
        then [Sock_Send client (error_head 502 ''Bad Gateway'' @ error_body 502 ''Bad Gateway'')] else []) @ [Sock_Close client])
    }" by blast
  from assms(2,3) show ?thesis unfolding h by (auto simp: defect_def forward_undefined)
qed

text \<open>What a request that is not defective does to the state and to the sockets.\<close>

definition request_done :: "request_env \<Rightarrow> proxy \<Rightarrow> int \<Rightarrow> bool" where
  "request_done env g client \<longleftrightarrow>
     (\<exists>g' evs. handle_client_request env g client = Some (g', evs @ [Sock_Close client]) \<and> proxy_inv g'
        \<and> px_threads g' = px_threads g \<and> (\<forall>p. px_conns g = Some p \<longrightarrow> set (closed_socks evs) \<subseteq> proxy_socks env p))"

lemma forward_keeps_threads:
  assumes "forward_request_to_server env g rq client = Some (res, g', evs)"
  shows "px_threads g' = px_threads g"
proof -
  have x: "px_threads g'' = px_threads h" if "exchange env h server m path host port key client = Some (r, g'', e)"
    for h g'' server m path host port key r e
    using that by (cases "connection_pool_return (env_t_return env) (px_conns h) server (Some host) port 1")
      (auto simp: exchange_def Let_def bind_eq_Some_conv split: if_splits)
  from assms show ?thesis
    by (auto simp: forward_request_to_server_def Let_def bind_eq_Some_conv dest!: x split: option.splits if_splits prod.splits)
qed

lemma handle_forwards:
  assumes i: "proxy_inv g" and e: "env_ok env" and c: "0 < client" and a: "accepts env (px_strtok g) pr" and d: "\<not> defect pr"
  shows "request_done env g client"
proof -
  from handle_accepts [OF a, of client] obtain saved where h: "handle_client_request env g client =
    do {
      (res, g', evs) \<leftarrow> forward_request_to_server env (g\<lparr>px_strtok := saved\<rparr>) (Some pr) client;
      Some (g', evs @ (if res < 0
        then [Sock_Send client (error_head 502 ''Bad Gateway'' @ error_body 502 ''Bad Gateway'')] else []) @ [Sock_Close client])
    }" by blast
  let ?g = "g\<lparr>px_strtok := saved\<rparr>"
  from i obtain cc p where g: "px_cache ?g = Some cc" "cache_inv cc" "px_conns ?g = Some p" "pool_inv p"
    by (auto simp: proxy_inv_def)
  obtain res g' evs where f: "forward_request_to_server env ?g (Some pr) client = Some (res, g', evs)" "proxy_inv g'"
      "set (closed_socks evs) \<subseteq> proxy_socks env p"
  proof (cases "pr_host pr")
    case None
    with forward_no_host i that show thesis by auto
  next
    case (Some hh)
    with d obtain path where hp: "length (host_part hh) < 256" "pr_path pr = Some path" by (auto simp: defect_def)
    from accepted_method [OF e a] obtain m where m: "pr_method pr = Some m" "m \<in> set http_methods" by blast
    from forward_ok [OF g e c Some hp m(1) method_bound [OF m(2)]] that show thesis by blast
  qed
  from forward_keeps_threads [OF f(1)] have t: "px_threads g' = px_threads g" by simp
  show ?thesis unfolding request_done_def h f(1)
    using f(2,3) t g(3) by (cases "res < 0") (auto intro!: exI [of _ g'])
qed

lemma handle_refuses:
  assumes i: "proxy_inv g" and e: "env_ok env" and c: "0 < client" and n: "\<nexists>pr. accepts env (px_strtok g) pr"
  shows "request_done env g client"
  using e
proof (cases rule: request_cases [where sv = "px_strtok g"])
  case 1
  with i show ?thesis by (auto simp: request_done_def handle_nothing intro!: exI [of _ g] exI [of _ "[]"])
next
  case 2
  with i show ?thesis unfolding request_done_def handle_invalid [OF 2] by (intro exI [of _ g]) auto
next
  case 3
  with i show ?thesis unfolding request_done_def handle_no_memory [OF 3] by (intro exI [of _ g]) auto
next
  case (4 pr saved)
  from i show ?thesis unfolding request_done_def handle_unparsed [OF 4]
    by (intro exI [of _ "g\<lparr>px_strtok := saved\<rparr>"]) auto
next
  case (5 pr)
  with n show ?thesis by blast
qed

lemma request_outcome:
  assumes "proxy_inv g" and "env_ok env" and "0 < client"
  shows "if \<exists>pr. accepts env (px_strtok g) pr \<and> defect pr
    then handle_client_request env g client = None else request_done env g client"
  using handle_defect [OF _ assms(3)] handle_forwards [OF assms] handle_refuses [OF assms] by meson

lemma proxy_reachable_inv:
  "proxy_reachable g \<Longrightarrow> proxy_inv g \<and> (\<exists>tp. px_threads g = Some tp \<and> queue_repr tp [])"
proof (induction rule: proxy_reachable.induct)
  case (px_start ie g)
  then show ?case by (rule proxy_server_init_ok)
next
  case (px_request g env client g' evs)
  with request_outcome [of g env client] show ?case by (auto simp: request_done_def split: if_splits)
qed

text \<open>What was in \<open>strtok\<close>'s saved position does not matter to a request of its own.\<close>

lemma parse_any_saved:
  assumes "ParsedRequest_parse mem (Some p) (Some b) len sv = Some (0, q, sv1)"
  shows "ParsedRequest_parse mem (Some p) (Some b) len sv2 = Some (0, q, sv1)"
proof -
  have "parse_after_line mem q' b' i sv = parse_after_line mem q' b' i sv2" for q' b' i
    unfolding parse_after_line_def strtok_def [of "Some t" for t] by simp
  with assms show ?thesis
    by (simp add: ParsedRequest_parse_def Let_def split: if_splits option.splits)
qed

lemma accepts_any_saved: "accepts env sv pr \<Longrightarrow> accepts env sv' pr"
  unfolding accepts_def using parse_any_saved by blast

lemma accepts_unique: "accepts env sv pr \<Longrightarrow> accepts env sv pr' \<Longrightarrow> pr = pr'"
  by (auto simp: accepts_def)

subsection \<open>A request whose response is in the cache\<close>

lemma handle_hit:
  assumes "px_cache g = Some c" "cache_inv c" and "0 < client" and "accepts env sv pr"
    and "pr_host pr = Some hh" "length (host_part hh) < 256" "pr_path pr = Some path"
    and "spec_find (take 511 path) (cache_abs c) = Some e" "env_t_lookup env - e_time e < 300"
  shows "\<exists>g'. handle_client_request env g client = Some (g', [Sock_Send client (e_data e), Sock_Close client])
     \<and> px_conns g' = px_conns g \<and> px_threads g' = px_threads g \<and> (\<exists>c'. px_cache g' = Some c' \<and> cache_inv c')"
proof -
  from handle_accepts [OF accepts_any_saved [OF assms(4), of "px_strtok g"], of client] obtain saved where
    h: "handle_client_request env g client =
    do {
      (res, g', evs) \<leftarrow> forward_request_to_server env (g\<lparr>px_strtok := saved\<rparr>) (Some pr) client;
      Some (g', evs @ (if res < 0
        then [Sock_Send client (error_head 502 ''Bad Gateway'' @ error_body 502 ''Bad Gateway'')] else []) @ [Sock_Close client])
    }" by blast
  from forward_hit [of "g\<lparr>px_strtok := saved\<rparr>" c client pr hh path e env] assms obtain c' where
    "forward_request_to_server env (g\<lparr>px_strtok := saved\<rparr>) (Some pr) client =
       Some (0, g\<lparr>px_strtok := saved, px_cache := Some c'\<rparr>, [Sock_Send client (e_data e)])" "cache_inv c'" by auto
  then show ?thesis unfolding h by (intro exI [of _ "g\<lparr>px_strtok := saved, px_cache := Some c'\<rparr>"]) simp
qed

text \<open>A request that is forwarded and answered: the response is sent and stored.\<close>

lemma handle_miss:
  assumes g: "px_cache g = Some c" "cache_inv c" "px_conns g = Some p" "pool_inv p" and e: "env_ok env"
    and mem: "memory_for (nat (max_size c)) (env_cache_mem env)" and cl: "0 < client"
    and a: "accepts env sv pr" and rq: "pr_host pr = Some hh" "length (host_part hh) < 256" "pr_path pr = Some path"
    and miss: "spec_find (take 511 path) (cache_abs c) = None"
    and srv: "extract_host_port 256 (Some hh) = Some (0, Some (host_part hh, port))"
      "0 \<le> fst (open_server env (Some p) (host_part hh) port)" "env_send_ok env"
      "recv_loop [] False (env_server env) = response" "response \<noteq> []"
  shows "\<exists>g1 evs c1. handle_client_request env g client = Some (g1, evs) \<and> Sock_Send client response \<in> set evs
     \<and> px_cache g1 = Some c1 \<and> cache_inv c1
     \<and> spec_find (take 511 path) (cache_abs c1) =
         Some \<lparr>e_url = take 511 path, e_data = response, e_time = env_t_store env, e_hits = 1\<rparr>"
proof -
  from handle_accepts [OF accepts_any_saved [OF a, of "px_strtok g"], of client] obtain saved where
    h: "handle_client_request env g client =
    do {
      (res, g', evs) \<leftarrow> forward_request_to_server env (g\<lparr>px_strtok := saved\<rparr>) (Some pr) client;
      Some (g', evs @ (if res < 0
        then [Sock_Send client (error_head 502 ''Bad Gateway'' @ error_body 502 ''Bad Gateway'')] else []) @ [Sock_Close client])
    }" by blast
  from accepted_method [OF e a] obtain m where m: "pr_method pr = Some m" "length m \<le> 6"
    using method_bound by blast
  have fresh: "alloc_fresh (malloc_node (env_cache_mem env))" using e by (simp add: env_ok_def)
  from forward_miss [of "g\<lparr>px_strtok := saved\<rparr>", OF _ g(2) _ g(4) fresh mem cl rq m miss srv] g(1,3)
  obtain g1 evs c1 where "forward_request_to_server env (g\<lparr>px_strtok := saved\<rparr>) (Some pr) client = Some (0, g1, evs)"
      "Sock_Send client response \<in> set evs" "px_cache g1 = Some c1" "cache_inv c1"
      "spec_find (take 511 path) (cache_abs c1) =
         Some \<lparr>e_url = take 511 path, e_data = response, e_time = env_t_store env, e_hits = 1\<rparr>" by auto
  then show ?thesis unfolding h by auto
qed

subsection \<open>Receiving: a reference\<close>

text \<open>The pieces up to the first one with which the header is complete.\<close>

definition header_complete :: "bytes \<Rightarrow> bool" where
  "header_complete d \<longleftrightarrow> strstr (cstr d) (CRLF @ CRLF) \<noteq> None"

fun until_header :: "bytes \<Rightarrow> bytes list \<Rightarrow> bytes" where
  "until_header d [] = d"
| "until_header d (c # cs) =
     (if c = [] then d else if header_complete (d @ c) then d @ c else until_header (d @ c) cs)"

lemma header_complete_length: "header_complete d \<Longrightarrow> 4 \<le> length d"
  using length_takeWhile_le [of "\<lambda>c. c \<noteq> CHR 0x00" d] by (fastforce simp: header_complete_def cstr_def dest!: strstr_Some)

lemma recv_loop_until_header:
  "\<not> header_complete d \<Longrightarrow> length (d @ concat cs) < MAX_RESPONSE_SIZE \<Longrightarrow> recv_loop d False cs = until_header d cs"
proof (induction cs arbitrary: d)
  case Nil
  then show ?case by (subst recv_loop.simps) (simp add: Let_def)
next
  case (Cons c cs)
  have fst: "fst (recv_chunk (MAX_RESPONSE_SIZE - length d - 1) (c # cs)) = c"
    and snd: "snd (recv_chunk (MAX_RESPONSE_SIZE - length d - 1) (c # cs)) = cs" using Cons.prems(2) by simp_all
  show ?case
  proof (cases "c = []")
    case True
    with fst show ?thesis by (subst recv_loop.simps) (simp add: Let_def)
  next
    case False
    then have room: "length d < MAX_RESPONSE_SIZE - 1" using Cons.prems(2) by (cases c) simp_all
    have hit: "(\<not> False \<and> 4 \<le> length (d @ c) \<and> strstr (cstr (d @ c)) (CRLF @ CRLF) \<noteq> None) = header_complete (d @ c)"
      using header_complete_length [of "d @ c"] unfolding header_complete_def by blast
    show ?thesis
    proof (cases "header_complete (d @ c)")
      case True
      with room False have "recv_loop d False (c # cs) = d @ c"
        by (subst recv_loop.simps) (simp only: fst snd hit Let_def if_True, simp add: not_less)
      with True False show ?thesis by simp
    next
      case False
      with room \<open>c \<noteq> []\<close> have "recv_loop d False (c # cs) = recv_loop (d @ c) False cs"
        by (subst recv_loop.simps) (simp only: fst snd hit Let_def if_True, simp)
      also have "\<dots> = until_header (d @ c) cs" using Cons.IH [OF False] Cons.prems(2) by simp
      finally show ?thesis using False \<open>c \<noteq> []\<close> by simp
    qed
  qed
qed

subsection \<open>Start of the server\<close>

text \<open>The port that is served is between 1 and 65535, and a listening socket that could not be set up
  is closed.\<close>

lemma main_port_range: "main_port argv = Some port \<Longrightarrow> 0 < port \<and> port \<le> 65535"
  by (auto simp: main_port_def Let_def DEFAULT_PORT_def split: if_splits)

lemma create_server_socket_closes:
  "create_server_socket sk so bi li = (r, evs) \<Longrightarrow>
    0 \<le> r \<and> r = sk \<and> evs = [] \<or> r = - 1 \<and> closed_socks evs = (if 0 \<le> sk then [sk] else [])"
  by (auto simp: create_server_socket_def split: if_splits)

text \<open>What \<open>ParsedRequest_unparse_headers\<close> writes is parsed back to the same request line.\<close>

lemma unparse_parses:
  assumes "pr_method pr = Some m" "pr_path pr = Some p" "pr_version pr = Some v"
    and "word_text m" "word_text p" "word_text v" and "length m + length p + length v + 6 < cap"
  shows "\<exists>text q. ParsedRequest_unparse_headers (Some pr) cap = (0, text)
     \<and> ParsedRequest_parse (\<lambda>_. True) (Some empty_request) (Some text) (int (length text)) sv = Some (0, Some q, [])
     \<and> pr_method q = pr_method pr \<and> pr_path q = pr_path pr \<and> pr_version q = pr_version pr \<and> pr_host q = None"
proof -
  have "ParsedRequest_unparse_headers (Some pr) cap = (0, render_request m p v CRLF)"
    using assms by (simp add: ParsedRequest_unparse_headers_def snprintf_text_def render_request_def)
  with parse_render [OF assms(4-6) header_loop_end [of _ _ "[]"], of sv] assms(1-3) show ?thesis by auto
qed

subsection \<open>The path that is sent to the server\<close>

lemma actual_path_slash: "take 1 (actual_path path) = ''/''"
proof (cases "strchr (drop 7 path) CHR ''/''")
  case None
  then show ?thesis by (cases path) (auto simp: actual_path_def)
next
  case (Some i)
  from strchr_Some [OF Some] obtain t where "drop i (drop 7 path) = CHR ''/'' # t" by (metis Cons_nth_drop_Suc)
  with Some show ?thesis by (cases path) (auto simp: actual_path_def)
qed

lemma actual_path_word:
  assumes "word_text path"
  shows "word_text (actual_path path)"
proof -
  have "actual_path path \<noteq> []" using actual_path_slash [of path] by auto
  moreover have "set (actual_path path) \<subseteq> insert CHR ''/'' (set path)"
    by (auto simp: actual_path_def split: option.split dest!: in_set_takeD in_set_dropD)
  ultimately show ?thesis using assms by (auto simp: word_text_def line_text_def)
qed

subsection \<open>Example requests\<close>

text \<open>One request in one piece, a network that answers \<open>response\<close>, and every call at time \<open>t\<close>.\<close>

definition plain_env :: "bytes \<Rightarrow> bytes list \<Rightarrow> int \<Rightarrow> request_env" where
  "plain_env request response t = \<lparr>env_client = [request], env_server = response, env_net = plain_net 5,
     env_net_again = plain_net 6, env_send_ok = True, env_calloc = True, env_parse_mem = (\<lambda>_. True),
     env_cache_mem = plain_mallocs 1024, env_t_lookup = t, env_t_connect = t, env_t_store = t, env_t_return = t\<rparr>"

definition plain_request :: "string \<Rightarrow> string \<Rightarrow> string \<Rightarrow> bytes" where
  "plain_request m p host = render_request m p ''HTTP/1.1'' (''Host:'' @ host @ CRLF @ CRLF)"

definition new_proxy :: proxy where
  "new_proxy = \<lparr>px_threads = Some (pool tp_init), px_cache = Some (empty_cache CACHE_SIZE), px_conns = Some new_pool, px_strtok = []\<rparr>"

lemma plain_env_ok [simp]: "env_ok (plain_env r resp t)"
  by (simp add: env_ok_def plain_env_def)

lemma new_proxy_init:
  "proxy_server_init \<lparr>ie_sem = True, ie_lock = True, ie_threads = (True, True, True, \<lambda>_. True),
     ie_cache = (True, True, True), ie_conns = (True, True)\<rparr> no_proxy = (0, new_proxy)"
  by (simp add: proxy_server_init_def Let_def thread_pool_create_def list_all_iff cache_create_def connection_pool_create_def
      no_proxy_def new_proxy_def tp_init_def empty_cache_def new_pool_def)

lemma new_proxy_reachable: "proxy_reachable new_proxy"
  using new_proxy_init by (rule px_start)

lemma received_plain: "length r < 4096 \<Longrightarrow> received (plain_env r resp t) = r"
  by (simp add: received_def plain_env_def MAX_REQUEST_SIZE_def)

lemma accepts_plain:
  assumes "m \<in> set http_methods" and "word_text p" and "line_text host" "host = [] \<or> hd host \<noteq> CHR '' ''"
    and "length (plain_request m p host) < 4096"
  shows "accepts (plain_env (plain_request m p host) resp t) sv
     (parsed m p ''HTTP/1.1'' (Some host) (plain_request m p host))"
proof -
  let ?r = "plain_request m p host"
  have w: "word_text m" using assms(1) by (rule methods_words)
  have host: "strcasecmp_eq ''Host'' ''Host''" by (simp add: strcasecmp_eq_def)
  have "header_loop (\<lambda>_. True) pos (''Host:'' @ host @ CRLF @ CRLF) = Some (Some host)" for pos
    using header_loop_host [of "[]" "''Host''" host pos 0 CRLF] host assms(3,4) by simp
  from parse_render [OF w assms(2) _ this, of "''HTTP/1.1''" sv]
  have p: "ParsedRequest_parse (\<lambda>_. True) (Some empty_request) (Some ?r) (int (length ?r)) sv =
      Some (0, Some (parsed m p ''HTTP/1.1'' (Some host) ?r), [])"
    by (simp add: word_text_def plain_request_def)
  have "cstr ?r = (m @ '' '') @ cstr (p @ CHR '' '' # ''HTTP/1.1'' @ CRLF @ ''Host:'' @ host @ CRLF @ CRLF)"
    using w cstr_append [of "m @ '' ''"] by (simp add: plain_request_def render_request_def word_text_def line_text_def)
  then have "validate_http_request (Some (cstr ?r)) (int (length ?r)) = 1"
    unfolding validate_prefix using assms(1) by (auto simp: plain_request_def render_request_def intro!: bexI [of _ m])
  with p assms(5) show ?thesis by (simp add: accepts_def received_plain) (simp add: plain_env_def)
qed

text \<open>One page, fetched and stored.\<close>

definition page :: bytes where
  "page = ''HTTP/1.1 200 OK'' @ CRLF @ CRLF"

lemma page_fetched:
  "\<exists>g evs c. handle_client_request (plain_env (plain_request ''GET'' ''/x'' ''a'') [page] 0) new_proxy 4 = Some (g, evs)
     \<and> px_cache g = Some c \<and> cache_inv c
     \<and> spec_find ''/x'' (cache_abs c) = Some \<lparr>e_url = ''/x'', e_data = page, e_time = 0, e_hits = 1\<rparr>"
proof -
  let ?env = "plain_env (plain_request ''GET'' ''/x'' ''a'') [page] 0"
  have a: "accepts ?env [] (parsed ''GET'' ''/x'' ''HTTP/1.1'' (Some ''a'') (plain_request ''GET'' ''/x'' ''a''))"
    by (rule accepts_plain; simp add: http_methods_def word_text_def plain_request_def render_request_def)
  have resp: "recv_loop [] False (env_server ?env) = page"
    unfolding plain_env_def request_env.simps by (rule recv_loop_short) (simp_all add: cstr_def page_def)
  have x: "extract_host_port 256 (Some ''a'') = Some (0, Some (host_part ''a'', 80))"
    by (simp add: extract_host_port_def host_part_def)
  have o: "0 \<le> fst (open_server ?env (Some new_pool) (host_part ''a'') 80)"
    by (simp add: open_server_def plain_env_def connection_pool_get_def new_pool_get plain_connection)
  have mem: "memory_for (nat (max_size (empty_cache CACHE_SIZE))) (env_cache_mem ?env)"
    by (simp add: CACHE_SIZE_def plain_env_def)
  have "page \<noteq> []" by (simp add: page_def)
  have "env_t_store ?env = 0" "take 511 ''/x'' = ''/x''" by (simp_all add: plain_env_def)
  moreover have "\<exists>g evs c. handle_client_request ?env new_proxy 4 = Some (g, evs) \<and> Sock_Send 4 page \<in> set evs
     \<and> px_cache g = Some c \<and> cache_inv c
     \<and> spec_find (take 511 ''/x'') (cache_abs c) =
         Some \<lparr>e_url = take 511 ''/x'', e_data = page, e_time = env_t_store ?env, e_hits = 1\<rparr>"
    by (rule handle_miss [OF _ _ _ new_pool_inv plain_env_ok mem _ a _ _ _ _ x o _ resp \<open>page \<noteq> []\<close>])
      (simp add: new_proxy_def CACHE_SIZE_def host_part_def spec_find_def plain_env_def)+
  ultimately show ?thesis by auto
qed

lemma page_state: "\<exists>g c. proxy_reachable g \<and> px_cache g = Some c \<and> cache_inv c
     \<and> spec_find ''/x'' (cache_abs c) = Some \<lparr>e_url = ''/x'', e_data = page, e_time = 0, e_hits = 1\<rparr>"
  using page_fetched px_request [OF new_proxy_reachable plain_env_ok, of 4] by (metis zero_less_numeral)

end
