(* ===== verification/Thread_Signals.thy ===== *)
theory Thread_Signals
  imports Thread_Properties
begin

section \<open>Signals at any point of the accept loop\<close>

text \<open>
  With \<open>sig\<close> the signal may find the main thread between \<open>accept\<close> and the insertion into the queue.
  Inside the critical section the handler waits for itself (\<open>signal_self_deadlock\<close>). Before it,
  the descriptor that \<open>accept\<close> gave, and its task if \<open>malloc\<close> has returned, are known to nobody any
  more. Such a state is one that a signal in \<open>accept\<close> leads to, with the lost task and descriptor
  added, and the rest of the run goes step for step like the run without them: a simulation in
  both directions, from which progress and the outcome of the shutdown follow for every signal.
\<close>

subsection \<open>Simulations\<close>

locale simulation =
  fixes step :: "'a \<Rightarrow> 'a \<Rightarrow> bool" and step' :: "'b \<Rightarrow> 'b \<Rightarrow> bool" and rel :: "'a \<Rightarrow> 'b \<Rightarrow> bool"
  assumes simulates: "rel s t \<Longrightarrow> step s s' \<Longrightarrow> \<exists>t'. step' t t' \<and> rel s' t'"
begin

lemma runs: "step\<^sup>*\<^sup>* s s' \<Longrightarrow> rel s t \<Longrightarrow> \<exists>t'. step'\<^sup>*\<^sup>* t t' \<and> rel s' t'"
proof (induction rule: rtranclp_induct)
  case (step y z)
  then obtain t' where t': "step'\<^sup>*\<^sup>* t t'" "rel y t'" by blast
  from simulates [OF t'(2) step.hyps(2)] t'(1) show ?case by (meson rtranclp.rtrancl_into_rtrancl)
qed blast

end

subsection \<open>A lost descriptor\<close>

definition with_tasks :: "task heap \<Rightarrow> thread_pool \<Rightarrow> thread_pool" where
  "with_tasks m p = p\<lparr>tasks := tasks p ++ m\<rparr>"

definition lose :: "task heap \<Rightarrow> int \<Rightarrow> tp_sys \<Rightarrow> tp_sys" where
  "lose m fd s = s\<lparr>pool := with_tasks m (pool s), accepted := accepted s @ [fd]\<rparr>"

definition closing :: "tp_sys \<Rightarrow> bool" where
  "closing s \<longleftrightarrow> main s \<in> {M_Shut, M_Join, M_Drain, M_Done}"

definition apart :: "task heap \<Rightarrow> tp_sys \<Rightarrow> bool" where
  "apart m s \<longleftrightarrow> dom m \<inter> dom (tasks (pool s)) = {}"

lemma with_tasks_simps [simp]:
  "task_queue_head (with_tasks m p) = task_queue_head p" "task_queue_tail (with_tasks m p) = task_queue_tail p"
  "queue_size (with_tasks m p) = queue_size p" "shutdown (with_tasks m p) = shutdown p"
  "tasks (with_tasks m p) = tasks p ++ m" "with_tasks m (p\<lparr>shutdown := n\<rparr>) = with_tasks m p\<lparr>shutdown := n\<rparr>"
  "with_tasks m (p\<lparr>tasks := h\<rparr>) = with_tasks m p\<lparr>tasks := h ++ m\<rparr>"
  by (simp_all add: with_tasks_def)

lemma lose_simps [simp]:
  "pool (lose m fd s) = with_tasks m (pool s)" "mutex (lose m fd s) = mutex s" "semaphore (lose m fd s) = semaphore s"
  "workers (lose m fd s) = workers s" "main (lose m fd s) = main s" "accepted (lose m fd s) = accepted s @ [fd]"
  "pushed (lose m fd s) = pushed s" "taken (lose m fd s) = taken s" "handled (lose m fd s) = handled s"
  "refused (lose m fd s) = refused s" "failed (lose m fd s) = failed s" "pc_is (lose m fd s) = pc_is s"
  by (simp_all add: lose_def pc_is_def fun_eq_iff)

lemma apart_look: "apart m s \<Longrightarrow> tasks (pool s) a = Some t \<Longrightarrow> (tasks (pool s) ++ m) a = Some t"
  by (auto simp: apart_def map_add_def dest!: disjoint_iff [THEN iffD1] split: option.split)

lemma lose_sock_of: "apart m s \<Longrightarrow> a \<in> dom (tasks (pool s)) \<Longrightarrow> sock_of (lose m fd s) a = sock_of s a"
  by (auto simp: sock_of_def apart_look)

lemma lose_take:
  assumes q: "queue_repr (pool s) as" and ap: "apart m s"
  shows "queue_take (with_tasks m (pool s)) = map_option (map_prod id (with_tasks m)) (queue_take (pool s))"
proof (cases "task_queue_head (pool s)")
  case (Some a)
  then have "a \<in> dom (tasks (pool s))" using q by (cases as) (auto simp: queue_repr_def)
  then obtain t where "tasks (pool s) a = Some t" by blast
  with Some apart_look [OF ap this] show ?thesis by (simp add: queue_take_def mem_simps Let_def with_tasks_def)
qed (simp add: queue_take_def)

lemma lose_free:
  assumes "a \<in> dom (tasks (pool s))" and ap: "apart m s"
  shows "free_task a (with_tasks m (pool s)) = map_option (with_tasks m) (free_task a (pool s))"
proof -
  from assms obtain t where t: "tasks (pool s) a = Some t" "a \<notin> dom m" by (auto simp: apart_def)
  then have "(tasks (pool s) ++ m)(a := None) = (tasks (pool s))(a := None) ++ m"
    by (auto simp: fun_eq_iff map_add_def split: option.splits)
  with t apart_look [OF ap t(1)] show ?thesis by (simp add: free_task_def mem_simps with_tasks_def)
qed

lemma taken_allocated:
  assumes "queue_repr p as" and "queue_take p = Some (Some a, p')"
  shows "a \<in> dom (tasks p) \<and> tasks p' = tasks p"
  using queue_take_ok [OF assms(1)] assms lseg_subset_dom [of "tasks p" t_next "task_queue_head p" as None]
  by (cases as) (auto simp: queue_repr_def)

lemma lseg_map_add: "lseg h nx p as q \<Longrightarrow> dom m \<inter> dom h = {} \<Longrightarrow> lseg (h ++ m) nx p as q"
proof (induction as arbitrary: p)
  case (Cons a as)
  then obtain n where n: "h a = Some n" "p = Some a" "lseg h nx (nx n) as q" by auto
  then have "(h ++ m) a = Some n" using Cons.prems(2) by (auto simp: map_add_def split: option.split)
  with n Cons.IH Cons.prems(2) show ?case by simp
qed simp

lemma drain_lose:
  assumes l: "lseg h t_next q as None" and ap: "dom m \<inter> dom h = {}"
  shows "drain_tasks (h ++ m) q = map_option (map_prod id (\<lambda>h. h ++ m)) (drain_tasks h q)"
proof -
  have out: "m a = None" if "a \<in> set as" for a using lseg_subset_dom [OF l] ap that by auto
  then have "map (client_socket \<circ> the \<circ> (h ++ m)) as = map (client_socket \<circ> the \<circ> h) as" by (simp add: map_add_def)
  moreover have "(h ++ m) |` (- set as) = h |` (- set as) ++ m"
    using out by (auto simp: fun_eq_iff map_add_def restrict_map_def split: option.split)
  ultimately show ?thesis using drain_tasks_ok [OF l] drain_tasks_ok [OF lseg_map_add [OF l ap]] by simp
qed

subsection \<open>The workers\<close>

lemma handled_allocated: "tp_inv s as \<Longrightarrow> pc_is s w (W_Handle a) \<Longrightarrow> a \<in> dom (tasks (pool s))"
  using tasks_apart [of s as a] pc_addrs_tally [of s w "W_Handle a" a] by (simp add: tp_inv_def)

lemma running_queue: "tp_inv s as \<Longrightarrow> shutdown (pool s) = 0 \<Longrightarrow> queue_repr (pool s) as"
  by (auto simp: tp_inv_def inv_tasks_def inv_phase_def)

text \<open>\<open>lose\<close> commutes with whatever a step does besides the queue and the tasks.\<close>

lemma lose_update [simp]:
  "lose m fd (goto w pc s) = goto w pc (lose m fd s)" "lose m fd (s\<lparr>mutex := o'\<rparr>) = lose m fd s\<lparr>mutex := o'\<rparr>"
  "lose m fd (s\<lparr>semaphore := k\<rparr>) = lose m fd s\<lparr>semaphore := k\<rparr>" "lose m fd (s\<lparr>taken := xs\<rparr>) = lose m fd s\<lparr>taken := xs\<rparr>"
  "lose m fd (s\<lparr>handled := xs\<rparr>) = lose m fd s\<lparr>handled := xs\<rparr>" "lose m fd (s\<lparr>refused := xs\<rparr>) = lose m fd s\<lparr>refused := xs\<rparr>"
  "lose m fd (s\<lparr>main := c\<rparr>) = lose m fd s\<lparr>main := c\<rparr>" "lose m fd (s\<lparr>workers := pcs\<rparr>) = lose m fd s\<lparr>workers := pcs\<rparr>"
  "lose m fd (s\<lparr>pool := p\<rparr>) = lose m fd s\<lparr>pool := with_tasks m p\<rparr>"
  by (simp_all add: lose_def goto_def)

lemma worker_lose:
  assumes i: "tp_inv s as" and ap: "apart m s" and step: "worker_step w s s'"
  shows "worker_step w (lose m fd s) (lose m fd s') \<and> apart m s'"
  using step
proof cases
  case w_lock
  with worker_step.w_lock [of "lose m fd s" w] ap show ?thesis by (simp add: apart_def)
next
  case w_wait
  with worker_step.w_wait [of "lose m fd s" w] ap show ?thesis by (simp add: apart_def)
next
  case w_spurious
  with worker_step.w_spurious [of "lose m fd s" w] ap show ?thesis by (simp add: apart_def)
next
  case w_exit
  with worker_step.w_exit [of "lose m fd s" w] ap show ?thesis by (simp add: apart_def)
next
  case (w_take a p)
  from running_queue [OF i w_take(3)] have q: "queue_repr (pool s) as" .
  from taken_allocated [OF q w_take(4)] have a: "a \<in> dom (tasks (pool s))" "tasks p = tasks (pool s)" by simp_all
  have "queue_take (pool (lose m fd s)) = Some (Some a, with_tasks m p)" using lose_take [OF q ap] w_take(4) by simp
  with worker_step.w_take [of "lose m fd s" w a "with_tasks m p"] w_take a ap lose_sock_of [OF ap a(1)]
  show ?thesis by (simp add: apart_def)
next
  case (w_sem a)
  with worker_step.w_sem [of "lose m fd s" w a] ap show ?thesis by (simp add: apart_def)
next
  case (w_done a p)
  from handled_allocated [OF i w_done(2)] have a: "a \<in> dom (tasks (pool s))" .
  have "free_task a (pool (lose m fd s)) = Some (with_tasks m p)" using lose_free [OF a ap] w_done(3) by simp
  moreover have "dom (tasks p) \<subseteq> dom (tasks (pool s))" using w_done(3) by (auto simp: free_task_def release_def split: option.splits if_splits)
  ultimately show ?thesis using worker_step.w_done [of "lose m fd s" w a "with_tasks m p"] w_done ap lose_sock_of [OF ap a]
    by (auto simp: apart_def)
qed

lemma worker_found:
  assumes i: "tp_inv s as" and ap: "apart m s" and step: "worker_step w (lose m fd s) t'"
  shows "\<exists>s'. worker_step w s s' \<and> t' = lose m fd s'"
  using step
proof cases
  case w_lock
  with worker_step.w_lock [of s w] show ?thesis by (intro exI [of _ "goto w W_Check s\<lparr>mutex := Some (By_Worker w)\<rparr>"]) simp
next
  case w_wait
  with worker_step.w_wait [of s w] show ?thesis by (intro exI [of _ "goto w W_Wait s\<lparr>mutex := None\<rparr>"]) simp
next
  case w_spurious
  with worker_step.w_spurious [of s w] show ?thesis by (intro exI [of _ "goto w W_Woken s"]) simp
next
  case w_exit
  with worker_step.w_exit [of s w] show ?thesis by (intro exI [of _ "goto w W_Exit s\<lparr>mutex := None\<rparr>"]) simp
next
  case (w_take a p)
  have "shutdown (pool s) = 0" using w_take(3) by simp
  from running_queue [OF i this] have q: "queue_repr (pool s) as" .
  from lose_take [OF q ap] w_take(4) obtain p0 where p0: "queue_take (pool s) = Some (Some a, p0)" "p = with_tasks m p0" by auto
  from taken_allocated [OF q p0(1)] have a: "a \<in> dom (tasks (pool s))" by simp
  with worker_step.w_take [of s w a p0] w_take p0 lose_sock_of [OF ap a, of fd] show ?thesis
    by (intro exI [of _ "goto w (W_Sem a) s\<lparr>pool := p0, mutex := None, taken := taken s @ [sock_of s a]\<rparr>"]) simp
next
  case (w_sem a)
  with worker_step.w_sem [of s w a] show ?thesis
    by (intro exI [of _ "goto w (W_Handle a) s\<lparr>semaphore := semaphore s - 1\<rparr>"]) simp
next
  case (w_done a p)
  then have a: "a \<in> dom (tasks (pool s))" using handled_allocated [OF i] by simp
  from lose_free [OF a ap] w_done(3) obtain p0 where "free_task a (pool s) = Some p0" "p = with_tasks m p0" by auto
  with worker_step.w_done [of s w a p0] w_done lose_sock_of [OF ap a, of fd] \<open>p = _\<close> show ?thesis
    by (intro exI [of _ "goto w W_Lock s\<lparr>pool := p0, semaphore := semaphore s + 1, handled := handled s @ [sock_of s a]\<rparr>"]) simp
qed

subsection \<open>The main thread while it shuts down\<close>

lemma closing_main:
  assumes i: "tp_inv s as" and ap: "apart m s" and c: "closing s"
  shows "main_step sig (lose m fd s) t' \<longleftrightarrow> (\<exists>s'. main_step sig s s' \<and> t' = lose m fd s')"
    and "main_step sig s s' \<Longrightarrow> closing s' \<and> apart m s' \<and> main_step False s s'"
proof -
  have q: "queue_repr (pool s) as" if "main s \<noteq> M_Done" using i that by (simp add: tp_inv_def inv_tasks_def)
  have d: "drain_tasks (tasks (pool s) ++ m) (task_queue_head (pool s))
      = map_option (map_prod id (\<lambda>h. h ++ m)) (drain_tasks (tasks (pool s)) (task_queue_head (pool s)))" if "main s = M_Drain"
    using q ap that by (intro drain_lose [of _ _ as]) (auto simp: queue_repr_def apart_def)
  show "main_step sig (lose m fd s) t' \<longleftrightarrow> (\<exists>s'. main_step sig s s' \<and> t' = lose m fd s')"
  proof
    assume "main_step sig (lose m fd s) t'"
    then show "\<exists>s'. main_step sig s s' \<and> t' = lose m fd s'"
    proof cases
      case m_shut
      with main_step.m_shut [of s sig] show ?thesis
        by (intro exI [of _ "s\<lparr>main := M_Join, pool := (pool s)\<lparr>shutdown := 1\<rparr>, workers := wake_all (workers s)\<rparr>"]) simp
    next
      case m_join
      with main_step.m_join [of s sig] show ?thesis by (intro exI [of _ "s\<lparr>main := M_Drain\<rparr>"]) simp
    next
      case (m_drain fds h)
      then have m: "main s = M_Drain" "mutex s = None" by simp_all
      from d [OF m(1)] m_drain(4) obtain h0 where "drain_tasks (tasks (pool s)) (task_queue_head (pool s)) = Some (fds, h0)"
        "h = h0 ++ m" by auto
      with main_step.m_drain [OF m, of fds h0 sig] m_drain show ?thesis
        by (intro exI [of _ "s\<lparr>main := M_Done, pool := (pool s)\<lparr>tasks := h0\<rparr>, refused := refused s @ fds\<rparr>"]) simp
    qed (use c in \<open>auto simp: closing_def\<close>)
  next
    assume "\<exists>s'. main_step sig s s' \<and> t' = lose m fd s'"
    then obtain s' where "main_step sig s s'" and t: "t' = lose m fd s'" by blast
    then show "main_step sig (lose m fd s) t'"
    proof cases
      case m_shut
      with main_step.m_shut [of "lose m fd s" sig] t show ?thesis by simp
    next
      case m_join
      with main_step.m_join [of "lose m fd s" sig] t show ?thesis by simp
    next
      case (m_drain fds h)
      with main_step.m_drain [of "lose m fd s" fds "h ++ m" sig] d t show ?thesis by simp
    qed (use c in \<open>auto simp: closing_def\<close>)
  qed
  assume "main_step sig s s'"
  then show "closing s' \<and> apart m s' \<and> main_step False s s'"
  proof cases
    case m_shut
    with main_step.m_shut [of s False] ap show ?thesis by (simp add: closing_def apart_def)
  next
    case m_join
    with main_step.m_join [of s False] ap show ?thesis by (simp add: closing_def apart_def)
  next
    case (m_drain fds h)
    have "dom h \<subseteq> dom (tasks (pool s))"
      using m_drain drain_tasks_ok [of "tasks (pool s)" "task_queue_head (pool s)" as] q by (auto simp: queue_repr_def)
    then have "dom m \<inter> dom h = {}" using ap by (auto simp: apart_def)
    with m_drain main_step.m_drain [of s fds h False] show ?thesis by (simp add: closing_def apart_def)
  qed (use c in \<open>auto simp: closing_def\<close>)
qed

subsection \<open>The runs with a lost descriptor\<close>

definition lost :: "task heap \<Rightarrow> int \<Rightarrow> tp_sys \<Rightarrow> tp_sys \<Rightarrow> bool" where
  "lost m fd s t \<longleftrightarrow> tp_reachable False s \<and> closing s \<and> finite (dom m) \<and> card (dom m) \<le> 1
     \<and> apart m s \<and> t = lose m fd s"

lemma worker_step_same: "worker_step w s s' \<Longrightarrow> main s' = main s" "worker_step w s s' \<Longrightarrow> accepted s' = accepted s"
  by (erule worker_step.cases, simp_all)+

lemma worker_closing: "worker_step w s s' \<Longrightarrow> closing s' = closing s"
  by (simp add: closing_def worker_step_same(1))

interpretation fs: simulation "tp_step False" "tp_step True" "lost m fd" for m fd
proof
  fix s t s' assume l: "lost m fd s t" and step: "tp_step False s s'"
  then have r: "tp_reachable False s'" by (auto simp: lost_def intro: tp_next)
  from l tp_reachable_inv obtain as where i: "tp_inv s as" by (auto simp: lost_def)
  from l have m: "finite (dom m)" "card (dom m) \<le> 1" "apart m s" "t = lose m fd s" and c: "closing s" by (simp_all add: lost_def)
  from step show "\<exists>t'. tp_step True t t' \<and> lost m fd s' t'"
  proof cases
    case (by_worker w)
    with worker_lose [OF i m(3), of w s' fd] m c r worker_closing show ?thesis
      by (intro exI [of _ "lose m fd s'"]) (auto simp: lost_def tp_step_iff)
  next
    case by_main
    then have "main_step True s s'" using c by cases (auto intro: main_step.intros simp: closing_def)
    with closing_main [OF i m(3) c, of True] m r show ?thesis
      by (intro exI [of _ "lose m fd s'"]) (auto simp: lost_def tp_step_iff)
  qed
qed

interpretation bs: simulation "tp_step True" "tp_step False" "\<lambda>t s. lost m fd s t" for m fd
proof
  fix s t t' assume l: "lost m fd s t" and step: "tp_step True t t'"
  from l tp_reachable_inv obtain as where i: "tp_inv s as" by (auto simp: lost_def)
  from l have m: "finite (dom m)" "card (dom m) \<le> 1" "apart m s" "t = lose m fd s" and c: "closing s"
    and r: "tp_reachable False s" by (simp_all add: lost_def)
  from step show "\<exists>s'. tp_step False s s' \<and> lost m fd s' t'"
  proof cases
    case (by_worker w)
    with worker_found [OF i m(3)] m(4) obtain s' where s': "worker_step w s s'" "t' = lose m fd s'" by blast
    have "closing s'" using worker_closing [OF s'(1)] c by simp
    with tp_next [OF r tp_step.by_worker [OF s'(1)]] worker_lose [OF i m(3) s'(1)] s' m(1,2)
    have "lost m fd s' t'" unfolding lost_def by blast
    with s'(1) show ?thesis by (auto simp: tp_step_iff)
  next
    case by_main
    with closing_main(1) [OF i m(3) c] m(4) obtain s' where s': "main_step True s s'" "t' = lose m fd s'" by blast
    from closing_main(2) [OF i m(3) c s'(1)] s' m r show ?thesis
      by (auto simp: lost_def tp_step_iff intro!: exI [of _ s'] tp_next [OF r])
  qed
qed

subsection \<open>Every state that a signal can lead to\<close>

lemma at_simps [simp]: "pc_is (s\<lparr>main := c\<rparr>) = pc_is s" "sock_of (s\<lparr>main := c\<rparr>) = sock_of s"
  by (simp_all add: pc_is_def sock_of_def fun_eq_iff)

lemma at_commute: "goto w pc (s\<lparr>main := c\<rparr>) = goto w pc s\<lparr>main := c\<rparr>"
  "s\<lparr>main := c, mutex := x\<rparr> = s\<lparr>mutex := x, main := c\<rparr>" "s\<lparr>main := c, pool := p\<rparr> = s\<lparr>pool := p, main := c\<rparr>"
  "s\<lparr>main := c, semaphore := k\<rparr> = s\<lparr>semaphore := k, main := c\<rparr>" "s\<lparr>main := c, taken := xs\<rparr> = s\<lparr>taken := xs, main := c\<rparr>"
  "s\<lparr>main := c, handled := xs\<rparr> = s\<lparr>handled := xs, main := c\<rparr>"
  by (simp_all add: goto_def)

lemma worker_step_at:
  assumes step: "worker_step w s s'"
  shows "worker_step w (s\<lparr>main := c\<rparr>) (s'\<lparr>main := c\<rparr>)"
  using step
proof cases
  case w_lock
  with worker_step.w_lock [of "s\<lparr>main := c\<rparr>" w] show ?thesis by (simp add: at_commute)
next
  case w_wait
  with worker_step.w_wait [of "s\<lparr>main := c\<rparr>" w] show ?thesis by (simp add: at_commute)
next
  case w_spurious
  with worker_step.w_spurious [of "s\<lparr>main := c\<rparr>" w] show ?thesis by (simp add: at_commute)
next
  case w_exit
  with worker_step.w_exit [of "s\<lparr>main := c\<rparr>" w] show ?thesis by (simp add: at_commute)
next
  case (w_take a p)
  with worker_step.w_take [of "s\<lparr>main := c\<rparr>" w a p] show ?thesis by (simp add: at_commute)
next
  case (w_sem a)
  with worker_step.w_sem [of "s\<lparr>main := c\<rparr>" w a] show ?thesis by (simp add: at_commute)
next
  case (w_done a p)
  with worker_step.w_done [of "s\<lparr>main := c\<rparr>" w a p] show ?thesis by (simp add: at_commute)
qed

lemma worker_step_back: "worker_step w (s\<lparr>main := c\<rparr>) t' \<Longrightarrow> \<exists>s'. worker_step w s s' \<and> t' = s'\<lparr>main := c\<rparr>"
  using worker_step_at [of w "s\<lparr>main := c\<rparr>" t' "main s"] worker_step_same(1) [of w "s\<lparr>main := c\<rparr>" t']
  by (intro exI [of _ "t'\<lparr>main := main s\<rparr>"]) simp

text \<open>While the main thread waits to insert its task, the others have gone on as if it had not accepted.\<close>

lemma before_insertion:
  "tp_reachable False s \<Longrightarrow> main s = M_Lock a \<Longrightarrow>
    \<exists>s0 t. tp_reachable False s0 \<and> main s0 = M_Accept \<and> apart [a \<mapsto> t] s0 \<and> s = lose [a \<mapsto> t] (client_socket t) s0\<lparr>main := M_Lock a\<rparr>"
proof (induction rule: tp_reachable.induct)
  case (tp_next s s')
  from tp_reachable_inv [OF tp_next.hyps(1)] obtain as where i: "tp_inv s as" ..
  from tp_next.hyps(2) show ?case
  proof cases
    case (by_worker w)
    then have "main s = M_Lock a" using tp_next.prems worker_step_same(1) by simp
    with tp_next.IH obtain s0 t where s0: "tp_reachable False s0" "main s0 = M_Accept" "apart [a \<mapsto> t] s0"
      "s = lose [a \<mapsto> t] (client_socket t) s0\<lparr>main := M_Lock a\<rparr>" by blast
    from tp_reachable_inv [OF s0(1)] obtain bs where j: "tp_inv s0 bs" ..
    from worker_step_back [of w "M_Lock a" "lose [a \<mapsto> t] (client_socket t) s0" s'] by_worker s0(4) worker_found [OF j s0(3)] obtain s1 where
      s1: "worker_step w s0 s1" "s' = lose [a \<mapsto> t] (client_socket t) s1\<lparr>main := M_Lock a\<rparr>" by blast
    with tp_reachable.tp_next [OF s0(1) tp_step.by_worker [OF s1(1)]] worker_lose [OF j s0(3) s1(1)] s0(2) worker_step_same(1) [OF s1(1)]
    show ?thesis by (intro exI [of _ s1] exI [of _ t]) (simp del: fun_upd_apply)
  next
    case by_main
    then show ?thesis
    proof cases
      case (m_accept fd al b p)
      then have b: "b = a" and new: "al (tasks (pool s)) = Some a" and p: "p = (pool s)\<lparr>tasks := (tasks (pool s))(a \<mapsto> \<lparr>client_socket = fd, t_next = None\<rparr>)\<rparr>"
        using tp_next.prems by (auto simp: new_task_def split: option.splits)
      have "a \<notin> dom (tasks (pool s))" using alloc_freshD [OF m_accept(4) new] by blast
      with m_accept b p tp_next.hyps(1) show ?thesis
        by (intro exI [of _ s] exI [of _ "\<lparr>client_socket = fd, t_next = None\<rparr>"]) (simp add: apart_def lose_def with_tasks_def del: fun_upd_apply)
    qed (use tp_next.prems in auto)
  qed
qed (simp add: tp_init_def)

text \<open>The main thread waits for the mutex it holds itself.\<close>

definition self_locked :: "tp_sys \<Rightarrow> bool" where
  "self_locked s \<longleftrightarrow> main s = M_Shut \<and> mutex s = Some By_Main \<and> (\<forall>w. \<not> pc_is s w W_Check)"

lemma self_locked_stays: "tp_step sig s s' \<Longrightarrow> self_locked s \<Longrightarrow> self_locked s'"
  unfolding tp_step_iff
proof (elim disjE exE)
  fix w assume "worker_step w s s'" and l: "self_locked s"
  then show "self_locked s'" by cases (auto simp: self_locked_def pc_is_def nth_list_update)
next
  assume "main_step sig s s'" "self_locked s"
  then show "self_locked s'" by cases (auto simp: self_locked_def)
qed

lemma quiet_main_step:
  "main_step sig s s' \<Longrightarrow> main_step False s s' \<or> sig \<and> (\<exists>a. main s = M_Lock a \<or> main s = M_Push a) \<and> s' = s\<lparr>main := M_Shut\<rparr>
     \<or> sig \<and> main s = M_Accept \<and> (\<exists>fd. s' = lose Map.empty fd (s\<lparr>main := M_Shut\<rparr>))"
  by (erule main_step.cases) (auto intro: main_step.intros m_failed [simplified] simp: lose_def with_tasks_def)

lemma signal_states:
  "tp_reachable sig s \<Longrightarrow> tp_reachable False s \<or> sig \<and> (self_locked s \<or> (\<exists>m fd s0. lost m fd s0 s))"
proof (induction rule: tp_reachable.induct)
  case (tp_next s s')
  then consider (quiet) "tp_reachable False s" | (locked) "sig" "self_locked s" | (lost) m fd s0 where "sig" "lost m fd s0 s" by blast
  then show ?case
  proof cases
    case locked
    with self_locked_stays tp_next.hyps(2) show ?thesis by blast
  next
    case (lost m fd s0)
    with bs.simulates [of m fd s0 s s'] tp_next.hyps(2) show ?thesis by auto
  next
    case quiet
    from tp_reachable_inv [OF quiet] obtain as where i: "tp_inv s as" ..
    from tp_next.hyps(2) show ?thesis
    proof cases
      case (by_worker w)
      from tp_reachable.tp_next [OF quiet tp_step.by_worker [OF this]] show ?thesis ..
    next
      case by_main
      from quiet_main_step [OF this] show ?thesis
      proof (elim disjE conjE exE)
        assume "main_step False s s'"
        from tp_reachable.tp_next [OF quiet tp_step.by_main [OF this]] show ?thesis ..
      next
        fix a assume sig and a: "main s = M_Push a" and s': "s' = s\<lparr>main := M_Shut\<rparr>"
        have "mutex s = Some By_Main" using i a by (auto simp: tp_inv_def inv_mutex_def)
        moreover from this have "\<not> pc_is s w W_Check" for w using i by (auto simp: tp_inv_def inv_mutex_def)
        ultimately have "self_locked s'" using s' by (simp add: self_locked_def)
        with \<open>sig\<close> show ?thesis by blast
      next
        fix a assume sig and a: "main s = M_Lock a" and s': "s' = s\<lparr>main := M_Shut\<rparr>"
        from before_insertion [OF quiet a] obtain s0 t where s0: "tp_reachable False s0" "main s0 = M_Accept" "apart [a \<mapsto> t] s0"
          "s = lose [a \<mapsto> t] (client_socket t) s0\<lparr>main := M_Lock a\<rparr>" by blast
        from tp_reachable.tp_next [OF s0(1) tp_step.by_main [OF m_signal [OF s0(2)]]] s0(3,4) s'
        have "lost [a \<mapsto> t] (client_socket t) (s0\<lparr>main := M_Shut\<rparr>) s'"
          unfolding lost_def by (simp add: closing_def apart_def)
        with \<open>sig\<close> show ?thesis by blast
      next
        fix fd assume sig and a: "main s = M_Accept" and s': "s' = lose Map.empty fd (s\<lparr>main := M_Shut\<rparr>)"
        from tp_reachable.tp_next [OF quiet tp_step.by_main [OF m_signal [OF a]]] s'
        have "lost Map.empty fd (s\<lparr>main := M_Shut\<rparr>) s'"
          unfolding lost_def by (simp add: closing_def apart_def)
        with \<open>sig\<close> show ?thesis by blast
      qed
    qed
  qed
qed (blast intro: tp_start)

subsection \<open>Progress\<close>



subsection \<open>Shutdown\<close>

text \<open>C17. When \<open>thread_pool_destroy\<close> is done, wherever in the accept loop the signal came (\<open>sig\<close>): all
  workers have exited, the mutex and all units of the semaphore are back, and every accepted
  socket has been handled or closed, each once, except at most one, and only if the signal came
  between \<open>accept\<close> and the critical section; that socket is neither handled nor closed, and its
  task, if it had one, is the only task that is still allocated. If signals come only while
  \<open>accept\<close> waits, nothing is lost and every task is freed.\<close>

theorem shutdown_complete:
  assumes "tp_reachable sig s" and "main s = M_Done"
  shows "(\<forall>pc \<in> set (workers s). pc = W_Exit) \<and> mutex s = None \<and> semaphore s = 200
     \<and> (\<exists>missing. mset (accepted s) = mset (refused s) + mset (handled s) + mset missing
          \<and> length missing \<le> (if sig then 1 else 0)
          \<and> finite (dom (tasks (pool s))) \<and> card (dom (tasks (pool s))) \<le> length missing)"
  using signal_states [OF assms(1)]
proof (elim disjE conjE exE)
  assume "tp_reachable False s"
  from destroyed_pool [OF this assms(2)] show ?thesis by (intro conjI exI [of _ "[]"]) simp_all
next
  fix m fd s0 assume "lost m fd s0 s" and sig
  then have m: "finite (dom m)" "card (dom m) \<le> 1" "s = lose m fd s0" and q: "tp_reachable False s0" by (simp_all add: lost_def)
  have "main s0 = M_Done" using assms(2) m(3) by simp
  from destroyed_pool [OF q this] m \<open>sig\<close> show ?thesis by (intro conjI exI [of _ "[fd]"]) simp_all
qed (use assms(2) in \<open>simp add: self_locked_def\<close>)

theorem shutdown_complete_witness:
  "semaphore (shut_now [W_Exit, W_Exit, W_Exit, W_Exit] M_Done) = 200
     \<and> dom (tasks (pool (shut_now [W_Exit, W_Exit, W_Exit, W_Exit] M_Done))) = {}"
  using shutdown_complete [OF shut_now_done] by (auto simp: shut_now_def card_eq_0_iff)

subsection \<open>A signal that loses a task\<close>

text \<open>C36. A signal between the \<open>malloc\<close> and the lock of \<open>thread_pool_add_task\<close>: there is a run in which the
  pool is destroyed, all workers have exited, the one client that was accepted has been neither
  handled nor closed, and its task is still allocated.\<close>

theorem signal_leaks_task:
  "\<exists>s. tp_reachable True s \<and> main s = M_Done \<and> set (workers s) = {W_Exit}
     \<and> accepted s = [5] \<and> handled s = [] \<and> refused s = [] \<and> tasks (pool s) 0 = Some \<lparr>client_socket = 5, t_next = None\<rparr>"
proof -
  let ?t = "\<lparr>client_socket = 5, t_next = None\<rparr> :: task"
  let ?s1 = "tp_init\<lparr>main := M_Lock 0, pool := (pool tp_init)\<lparr>tasks := [0 \<mapsto> ?t]\<rparr>, accepted := [5]\<rparr>"
  let ?s0 = "tp_init\<lparr>main := M_Shut\<rparr>"
  let ?final = "shut_now [W_Exit, W_Exit, W_Exit, W_Exit] M_Done"
  have "main_step True tp_init ?s1"
    using m_accept [of tp_init 5 "first_fit 1" 0 "pool ?s1" True] by (simp add: tp_init_def new_task_def first_fit_def)
  from tp_next [OF tp_start by_main [OF this]] have r1: "tp_reachable True ?s1" .
  have "main_step True ?s1 (?s1\<lparr>main := M_Shut\<rparr>)" by (rule m_signal_held) simp_all
  from tp_next [OF r1 by_main [OF this]] have r2: "tp_reachable True (?s1\<lparr>main := M_Shut\<rparr>)" .
  have "lost [0 \<mapsto> ?t] 5 ?s0 (?s1\<lparr>main := M_Shut\<rparr>)"
    unfolding lost_def using shut_reachable by (simp add: closing_def apart_def tp_init_def lose_def with_tasks_def)
  from fs.runs [OF shut_now_run this] obtain s where s: "(tp_step True)\<^sup>*\<^sup>* (?s1\<lparr>main := M_Shut\<rparr>) s" "lost [0 \<mapsto> ?t] 5 ?final s" by blast
  from s(2) have "s = lose [0 \<mapsto> ?t] 5 ?final" by (simp add: lost_def)
  with reachable_run [OF s(1) r2] show ?thesis by (intro exI [of _ s]) (simp add: shut_now_def tp_init_def)
qed

end
