(* ===== verification/Request_Steps.thy ===== *)
theory Request_Steps
  imports Proxy_Core Http_Facts
begin

section \<open>One request in steps\<close>

text \<open>
  \<open>handle_client_request\<close> and \<open>forward_request_to_server\<close> again, cut where they touch what the
  workers share: the position of \<open>strtok\<close>, the cache and the connection pool. A step is what a
  worker does from one such point to the next; \<open>req_pc\<close> says where it stands, with the values of
  its local variables. Each shared access is one step: a call of \<open>strtok\<close>, or a critical section
  of the cache or of the pool. \<open>None\<close> is undefined behaviour.

  The tokens of \<open>strtok\<close> are pointers into a request line, and so is its saved position. Request
  lines are numbered in the order of their allocation; \<open>sh_lines\<close> are those not yet freed, and
  \<open>sh_saved_in\<close> is the one the saved position points into.
\<close>

record shared =
  sh_px :: proxy
  sh_lines :: "nat set"
  sh_next :: nat
  sh_saved_in :: nat

type_synonym token = "(nat \<times> string) option"

datatype req_pc =
    Q_Recv
  | Q_Path nat ParsedRequest bytes nat "string option"
  | Q_Version nat ParsedRequest bytes nat "string option" token
  | Q_Copy nat ParsedRequest bytes nat "string option" token token
  | Q_Forward ParsedRequest
  | Q_Lookup ParsedRequest string int string
  | Q_Cached addr
  | Q_Connect ParsedRequest string int string
  | Q_Exchange int ParsedRequest string int string
  | Q_Store int string int string bytes
  | Q_Return int string int
  | Q_Finish int
  | Q_Done

subsection \<open>The parser up to the first token\<close>

text \<open>Lines 43 to 61 of the parser: a failure that returns -1, or the copied bytes and the end of the
  request line.\<close>

definition parse_start :: "mallocs \<Rightarrow> ParsedRequest \<Rightarrow> string \<Rightarrow> int \<Rightarrow> (ParsedRequest + ParsedRequest \<times> string \<times> nat) option" where
  "parse_start mem p b buflen =
     (if buflen \<le> 0 then Some (Inl p)
      else if \<not> mem M_buf then Some (Inl (p\<lparr>pr_buf := None\<rparr>))
      else if length b < nat buflen then None
      else if copy_to (nat buflen + 1) (take (nat buflen) b) = None then None
      else
        (let bytes = take (nat buflen) b; p = p\<lparr>pr_buf := Some bytes, pr_buflen := buflen\<rparr> in
         (case strstr (cstr bytes) CRLF of
            None \<Rightarrow> Some (Inl p)
          | Some line_end \<Rightarrow> if \<not> mem M_request_line then None
              else if copy_to (line_end + 1) (take line_end bytes) = None then None
              else Some (Inr (p, bytes, line_end)))))"

lemma parse_start_parse:
  "ParsedRequest_parse mem (Some p) (Some b) buflen saved =
     (case parse_start mem p b buflen of
        None \<Rightarrow> None
      | Some (Inl p') \<Rightarrow> Some (- 1, Some p', saved)
      | Some (Inr (p', bytes, line_end)) \<Rightarrow>
          (let (meth, saved) = strtok (Some (take line_end bytes)) CHR '' '' saved in
           parse_from_method mem p' bytes line_end meth saved))"
  by (simp add: ParsedRequest_parse_def parse_start_def parse_after_line_def Let_def split: option.split)

subsection \<open>The steps\<close>

definition strtok_next :: "shared \<Rightarrow> (token \<times> shared) option" where
  "strtok_next sh =
     (if sh_saved_in sh \<notin> sh_lines sh then None
      else case strtok None CHR '' '' (px_strtok (sh_px sh)) of
        (t, saved) \<Rightarrow> Some (map_option (Pair (sh_saved_in sh)) t, sh\<lparr>sh_px := (sh_px sh)\<lparr>px_strtok := saved\<rparr>\<rparr>))"

text \<open>The copy of the request line is allocated and the first \<open>strtok\<close> works on it.\<close>

definition strtok_first :: "shared \<Rightarrow> ParsedRequest \<times> string \<times> nat \<Rightarrow> req_pc \<times> shared" where
  "strtok_first sh line =
     (case line of (pr, bytes, line_end) \<Rightarrow>
        (case strtok (Some (take line_end bytes)) CHR '' '' (px_strtok (sh_px sh)) of (meth, saved) \<Rightarrow>
           (Q_Path (sh_next sh) pr bytes line_end meth,
            sh\<lparr>sh_px := (sh_px sh)\<lparr>px_strtok := saved\<rparr>, sh_lines := insert (sh_next sh) (sh_lines sh),
               sh_next := sh_next sh + 1, sh_saved_in := sh_next sh\<rparr>)))"

definition token_text :: "nat set \<Rightarrow> token \<Rightarrow> string option option" where
  "token_text alive t = (case t of None \<Rightarrow> Some None | Some (l, s) \<Rightarrow> if l \<in> alive then Some (Some s) else None)"

text \<open>Up to the first \<open>strtok\<close>: the answer to a request that gets no further, or its first line.\<close>

definition receive_request :: "request_env \<Rightarrow> int \<Rightarrow> (sys_event list + ParsedRequest \<times> string \<times> nat) option" where
  "receive_request env client =
     (let buf = fst (recv_chunk (MAX_REQUEST_SIZE - 1) (env_client env)); n = int (length buf) in
      if n \<le> 0 then Some (Inl (socket_close client))
      else if validate_http_request (Some (cstr buf)) n = 0
      then map_option (\<lambda>evs. Inl (evs @ socket_close client)) (send_error_response client 400 ''Bad Request'')
      else (case ParsedRequest_create (env_calloc env) of
        None \<Rightarrow> map_option (\<lambda>evs. Inl (evs @ socket_close client))
          (send_error_response client 500 ''Internal Server Error'')
      | Some pr \<Rightarrow> do {
          r \<leftarrow> parse_start (env_parse_mem env) pr buf n;
          (case r of
             Inl pr \<Rightarrow> map_option (\<lambda>evs. Inl (evs @ socket_close client))
               (send_error_response client 400 ''Bad Request'')
           | Inr line \<Rightarrow> Some (Inr line))
        }))"

fun advance :: "request_env \<Rightarrow> int \<Rightarrow> shared \<Rightarrow> req_pc \<Rightarrow> (req_pc \<times> shared \<times> sys_event list) option" where
  "advance env client sh Q_Recv =
     do {
       r \<leftarrow> receive_request env client;
       Some (case r of
         Inl evs \<Rightarrow> (Q_Done, sh, evs)
       | Inr line \<Rightarrow> (fst (strtok_first sh line), snd (strtok_first sh line), []))
     }"
| "advance env client sh (Q_Path l pr bytes line_end meth) =
     do {
       (path, sh) \<leftarrow> strtok_next sh;
       Some (Q_Version l pr bytes line_end meth path, sh, [])
     }"
| "advance env client sh (Q_Version l pr bytes line_end meth path) =
     do {
       (version, sh) \<leftarrow> strtok_next sh;
       Some (Q_Copy l pr bytes line_end meth path version, sh, [])
     }"
| "advance env client sh (Q_Copy l pr bytes line_end meth path version) =
     do {
       path \<leftarrow> token_text (sh_lines sh) path;
       version \<leftarrow> token_text (sh_lines sh) version;
       pr \<leftarrow> parse_fields (env_parse_mem env) pr bytes line_end meth path version;
       Some (Q_Forward pr, sh\<lparr>sh_lines := sh_lines sh - {l}\<rparr>, [])
     }"
| "advance env client sh (Q_Forward pr) =
     (if client \<le> 0 then Some (Q_Finish (- 1), sh, [])
      else (case pr_host pr of None \<Rightarrow> Some (Q_Finish (- 1), sh, [])
        | Some host_header \<Rightarrow> do {
            (res, hp) \<leftarrow> extract_host_port 256 (Some host_header);
            (host, port) \<leftarrow> hp;
            path \<leftarrow> pr_path pr;
            Some (Q_Lookup pr host port path, sh, [])
          }))"
| "advance env client sh (Q_Lookup pr host port path) =
     do {
       (cached, cache) \<leftarrow> cache_get (env_t_lookup env) (px_cache (sh_px sh)) (Some (snprintf_text 512 path));
       let sh = sh\<lparr>sh_px := (sh_px sh)\<lparr>px_cache := cache\<rparr>\<rparr>;
       Some (case cached of None \<Rightarrow> Q_Connect pr host port path | Some a \<Rightarrow> Q_Cached a, sh, [])
     }"
| "advance env client sh (Q_Cached a) =
     do {
       c \<leftarrow> px_cache (sh_px sh);
       n \<leftarrow> heap c a;
       (if length (data n) < nat (data_size n) then None
        else Some (Q_Finish 0, sh, [Sock_Send client (take (nat (data_size n)) (data n))]))
     }"
| "advance env client sh (Q_Connect pr host port path) =
     (case open_server env (px_conns (sh_px sh)) host port of
        (server, conns, evs) \<Rightarrow>
          Some (if server < 0 then Q_Finish (- 1) else Q_Exchange server pr host port path,
            sh\<lparr>sh_px := (sh_px sh)\<lparr>px_conns := conns\<rparr>\<rparr>, evs))"
| "advance env client sh (Q_Exchange server pr host port path) =
     do {
       meth \<leftarrow> pr_method pr;
       request_buffer \<leftarrow> formatted MAX_REQUEST_SIZE (request_text meth (actual_path path) host);
       let response = recv_loop [] False (env_server env);
       (if \<not> env_send_ok env \<or> response = []
        then Some (Q_Finish (- 1), sh, Sock_Send server request_buffer # socket_close server)
        else Some (Q_Store server host port path response, sh,
          [Sock_Send server request_buffer, Sock_Send client response]))
     }"
| "advance env client sh (Q_Store server host port path response) =
     do {
       (res, cache) \<leftarrow> cache_add (env_cache_mem env) (env_t_store env) (px_cache (sh_px sh))
                        (Some (snprintf_text 512 path)) (Some response) (int (length response));
       Some (Q_Return server host port, sh\<lparr>sh_px := (sh_px sh)\<lparr>px_cache := cache\<rparr>\<rparr>, [])
     }"
| "advance env client sh (Q_Return server host port) =
     (case connection_pool_return (env_t_return env) (px_conns (sh_px sh)) server (Some host) port 1 of
        (conns, evs) \<Rightarrow> Some (Q_Finish 0, sh\<lparr>sh_px := (sh_px sh)\<lparr>px_conns := conns\<rparr>\<rparr>, evs))"
| "advance env client sh (Q_Finish res) =
     do {
       evs \<leftarrow> (if res < 0 then send_error_response client 502 ''Bad Gateway'' else Some []);
       Some (Q_Done, sh, evs @ socket_close client)
     }"
| "advance env client sh Q_Done = None"

subsection \<open>A request that is left alone\<close>

text \<open>Every step is one of at most eleven.\<close>

fun steps_left :: "req_pc \<Rightarrow> nat" where
  "steps_left Q_Recv = 11"
| "steps_left (Q_Path l pr bytes line_end meth) = 10"
| "steps_left (Q_Version l pr bytes line_end meth path) = 9"
| "steps_left (Q_Copy l pr bytes line_end meth path version) = 8"
| "steps_left (Q_Forward pr) = 7"
| "steps_left (Q_Lookup pr host port path) = 6"
| "steps_left (Q_Cached a) = 2"
| "steps_left (Q_Connect pr host port path) = 5"
| "steps_left (Q_Exchange server pr host port path) = 4"
| "steps_left (Q_Store server host port path response) = 3"
| "steps_left (Q_Return server host port) = 2"
| "steps_left (Q_Finish res) = 1"
| "steps_left Q_Done = 0"

lemmas advance_splits = bind_eq_Some_conv Let_def

lemma steps_left_first [simp]: "steps_left (fst (strtok_first sh line)) = 10"
  by (simp add: strtok_first_def split: prod.split)

lemma advance_recvE:
  assumes "advance env client sh Q_Recv = Some (pc', sh', evs)"
  obtains (answered) "receive_request env client = Some (Inl evs)" "pc' = Q_Done" "sh' = sh"
  | (line) line where "receive_request env client = Some (Inr line)" "pc' = fst (strtok_first sh line)"
      "sh' = snd (strtok_first sh line)" "evs = []"
proof -
  from assms obtain r where r: "receive_request env client = Some r" by (auto simp: bind_eq_Some_conv)
  show thesis
  proof (cases r)
    case (Inl e)
    from assms r Inl show thesis by (intro answered) auto
  next
    case (Inr l)
    from assms r Inr show thesis by (intro line) auto
  qed
qed

lemma advance_steps_left: "advance env client sh pc = Some (pc', sh', evs) \<Longrightarrow> steps_left pc' < steps_left pc"
proof (cases pc)
  case Q_Recv
  assume "advance env client sh pc = Some (pc', sh', evs)"
  then have "advance env client sh Q_Recv = Some (pc', sh', evs)" unfolding Q_Recv .
  then show ?thesis by (cases rule: advance_recvE) (auto simp: Q_Recv)
qed (auto simp: advance_splits split: if_splits option.splits prod.splits)

function run_request :: "request_env \<Rightarrow> int \<Rightarrow> shared \<Rightarrow> req_pc \<Rightarrow> (shared \<times> sys_event list) option" where
  "run_request env client sh pc =
     (if pc = Q_Done then Some (sh, [])
      else do {
        (pc, sh, evs) \<leftarrow> advance env client sh pc;
        (sh, evs') \<leftarrow> run_request env client sh pc;
        Some (sh, evs @ evs')
      })"
  by pat_completeness auto

termination
  by (relation "measure (\<lambda>(env, client, sh, pc). steps_left pc)") (auto dest: advance_steps_left)

declare run_request.simps [simp del]

text \<open>It is the request of \<open>Proxy_Core\<close>, from any state of the other workers.\<close>

definition px_result :: "(shared \<times> sys_event list) option \<Rightarrow> (proxy \<times> sys_event list) option" where
  "px_result x = map_option (\<lambda>(sh, evs). (sh_px sh, evs)) x"

definition finish :: "int \<Rightarrow> int \<times> proxy \<times> sys_event list \<Rightarrow> (proxy \<times> sys_event list) option" where
  "finish client x = (case x of (res, g, evs) \<Rightarrow>
     do {
       evs' \<leftarrow> (if res < 0 then send_error_response client 502 ''Bad Gateway'' else Some []);
       Some (g, evs @ evs' @ socket_close client)
     })"

lemma px_result_simps [simp]: "px_result None = None" "px_result (Some (sh, evs)) = Some (sh_px sh, evs)"
  by (simp_all add: px_result_def)

lemma run_done [simp]: "run_request env client sh Q_Done = Some (sh, [])"
  by (subst run_request.simps) simp

lemma run_step:
  "advance env client sh pc = Some (pc', sh', evs) \<Longrightarrow>
    px_result (run_request env client sh pc) = map_option (\<lambda>(g, evs'). (g, evs @ evs')) (px_result (run_request env client sh' pc'))"
  by (subst run_request.simps) (cases "run_request env client sh' pc'"; cases "pc = Q_Done"; auto simp: px_result_def)

lemma run_silent:
  "advance env client sh pc = Some (pc', sh', []) \<Longrightarrow>
    px_result (run_request env client sh pc) = px_result (run_request env client sh' pc')"
  by (drule run_step) (simp add: case_prod_unfold option.map_ident)

lemma run_stuck: "advance env client sh pc = None \<Longrightarrow> pc \<noteq> Q_Done \<Longrightarrow> px_result (run_request env client sh pc) = None"
  by (subst run_request.simps) simp

lemma run_finish: "px_result (run_request env client sh (Q_Finish res)) = finish client (res, sh_px sh, [])"
proof (cases "if res < 0 then send_error_response client 502 ''Bad Gateway'' else Some []")
  case None
  then show ?thesis by (subst run_stuck) (simp_all add: finish_def)
next
  case (Some evs)
  then have "advance env client sh (Q_Finish res) = Some (Q_Done, sh, evs @ socket_close client)" by simp
  from run_step [OF this] Some show ?thesis by (simp add: finish_def)
qed

lemma finish_evs: "finish client (res, g, evs @ evs') = map_option (\<lambda>(g, e). (g, evs @ e)) (finish client (res, g, evs'))"
  by (cases "send_error_response client 502 ''Bad Gateway''") (simp_all add: finish_def)

lemma run_return:
  "px_result (run_request env client sh (Q_Return server host port)) =
     (case connection_pool_return (env_t_return env) (px_conns (sh_px sh)) server (Some host) port 1 of
        (conns, evs) \<Rightarrow> finish client (0, (sh_px sh)\<lparr>px_conns := conns\<rparr>, evs))"
proof -
  obtain conns evs where r: "connection_pool_return (env_t_return env) (px_conns (sh_px sh)) server (Some host) port 1 = (conns, evs)"
    by fastforce
  then have "advance env client sh (Q_Return server host port) =
      Some (Q_Finish 0, sh\<lparr>sh_px := (sh_px sh)\<lparr>px_conns := conns\<rparr>\<rparr>, evs)" by simp
  from run_step [OF this] r finish_evs [of client 0 _ evs "[]"] show ?thesis by (simp add: run_finish)
qed

lemma run_exchange:
  assumes "pr_method pr = Some meth"
  shows "px_result (run_request env client sh (Q_Exchange server pr host port path)) =
     exchange env (sh_px sh) server meth path host port (snprintf_text 512 path) client \<bind> finish client"
proof (cases "formatted MAX_REQUEST_SIZE (request_text meth (actual_path path) host)")
  case None
  then show ?thesis using assms by (subst run_stuck) (simp_all add: exchange_def)
next
  case (Some msg)
  let ?response = "recv_loop [] False (env_server env)"
  show ?thesis
  proof (cases "env_send_ok env \<and> ?response \<noteq> []")
    case False
    then have "advance env client sh (Q_Exchange server pr host port path) =
        Some (Q_Finish (- 1), sh, Sock_Send server msg # socket_close server)" using Some assms by (auto simp: Let_def)
    from run_step [OF this] False Some finish_evs [of client "- 1" _ "Sock_Send server msg # socket_close server" "[]"]
    show ?thesis by (auto simp: run_finish exchange_def Let_def)
  next
    case True
    then have a: "advance env client sh (Q_Exchange server pr host port path) =
        Some (Q_Store server host port path ?response, sh, [Sock_Send server msg, Sock_Send client ?response])"
      using Some assms by (simp add: Let_def)
    show ?thesis
    proof (cases "cache_add (env_cache_mem env) (env_t_store env) (px_cache (sh_px sh)) (Some (snprintf_text 512 path))
        (Some ?response) (int (length ?response))")
      case None
      then have "advance env client sh (Q_Store server host port path ?response) = None" by simp
      from run_step [OF a] run_stuck [OF this] None True Some show ?thesis by (simp add: exchange_def Let_def)
    next
      case (Some x)
      obtain res cache where x: "x = (res, cache)" by fastforce
      obtain conns evs where r: "connection_pool_return (env_t_return env) (px_conns (sh_px sh)) server (Some host) port 1 = (conns, evs)"
        by fastforce
      from Some x have "advance env client sh (Q_Store server host port path ?response) =
          Some (Q_Return server host port, sh\<lparr>sh_px := (sh_px sh)\<lparr>px_cache := cache\<rparr>\<rparr>, [])" by simp
      from run_step [OF a] run_step [OF this] r Some x True \<open>formatted _ _ = Some msg\<close>
        finish_evs [of client 0 _ "[Sock_Send server msg, Sock_Send client ?response]" evs]
      show ?thesis by (simp add: run_return exchange_def Let_def comp_def option.map_comp)
    qed
  qed
qed

text \<open>A request whose host is extracted and whose path is known.\<close>

lemma run_lookup:
  assumes "0 < client" and "pr_host pr = Some hh" "extract_host_port 256 (Some hh) = Some (x, Some (host, port))"
    and "pr_path pr = Some path"
  shows "px_result (run_request env client sh (Q_Lookup pr host port path)) =
     forward_request_to_server env (sh_px sh) (Some pr) client \<bind> finish client"
proof (cases "cache_get (env_t_lookup env) (px_cache (sh_px sh)) (Some (snprintf_text 512 path))")
  case None
  then have "advance env client sh (Q_Lookup pr host port path) = None" by simp
  from run_stuck [OF this] None assms show ?thesis by (simp add: forward_request_to_server_def Let_def)
next
  case (Some r)
  obtain cached cache where r: "r = (cached, cache)" by fastforce
  let ?sh = "sh\<lparr>sh_px := (sh_px sh)\<lparr>px_cache := cache\<rparr>\<rparr>"
  from Some r have a: "advance env client sh (Q_Lookup pr host port path) =
      Some (case cached of None \<Rightarrow> Q_Connect pr host port path | Some a \<Rightarrow> Q_Cached a, ?sh, [])"
    by (simp add: Let_def)
  show ?thesis
  proof (cases cached)
    case None
    obtain server conns evs where o: "open_server env (px_conns (sh_px sh)) host port = (server, conns, evs)"
      by (cases rule: prod_cases3)
    let ?sh' = "?sh\<lparr>sh_px := (sh_px ?sh)\<lparr>px_conns := conns\<rparr>\<rparr>"
    from o have c: "advance env client ?sh (Q_Connect pr host port path) =
        Some (if server < 0 then Q_Finish (- 1) else Q_Exchange server pr host port path, ?sh', evs)" by simp
    have "px_result (run_request env client sh (Q_Lookup pr host port path)) = map_option (\<lambda>(g, e). (g, evs @ e))
        (px_result (run_request env client ?sh' (if server < 0 then Q_Finish (- 1) else Q_Exchange server pr host port path)))"
      using run_step [OF a] run_step [OF c] None by (simp add: option.map_comp comp_def case_prod_unfold)
    also have "\<dots> = forward_request_to_server env (sh_px sh) (Some pr) client \<bind> finish client"
    proof (cases "server < 0")
      case True
      with None Some r o assms finish_evs [of client "- 1" _ evs "[]"] show ?thesis
        by (simp add: run_finish forward_request_to_server_def Let_def)
    next
      case False
      show ?thesis
      proof (cases "pr_method pr")
        case None
        then have "advance env client ?sh' (Q_Exchange server pr host port path) = None" by simp
        from run_stuck [OF this] False None \<open>cached = None\<close> Some r o assms show ?thesis
          by (simp add: forward_request_to_server_def Let_def)
      next
      case m: (Some meth)
      note x = run_exchange [OF m, of env client ?sh' server host port path]
      show ?thesis
      proof (cases "exchange env (sh_px ?sh') server meth path host port (snprintf_text 512 path) client")
        case None
        with False \<open>cached = None\<close> Some r o assms m x show ?thesis by (simp add: forward_request_to_server_def Let_def)
      next
        case (Some y)
        obtain res g e where y: "y = (res, g, e)" by (cases rule: prod_cases3)
        with False Some \<open>cached = None\<close> \<open>cache_get _ _ _ = Some r\<close> r o assms m x finish_evs [of client res g evs e] show ?thesis
          by (simp add: forward_request_to_server_def Let_def)
      qed
      qed
    qed
    finally show ?thesis .
  next
    case (Some a)
    show ?thesis
    proof (cases "advance env client ?sh (Q_Cached a)")
      case None
      then have bad: "length (data n) < nat (data_size n)" if "cache = Some c" "heap c a = Some n" for c n
        using that by (auto split: if_splits)
      have "forward_request_to_server env (sh_px sh) (Some pr) client = None"
        using bad Some \<open>cache_get _ _ _ = Some r\<close> r assms
        by (cases cache; cases "heap (the cache) a") (simp_all add: forward_request_to_server_def Let_def)
      with run_step [OF a] run_stuck [OF None] Some show ?thesis by simp
    next
      case (Some y)
      then obtain c n where n: "cache = Some c" "heap c a = Some n" "\<not> length (data n) < nat (data_size n)"
          "y = (Q_Finish 0, ?sh, [Sock_Send client (take (nat (data_size n)) (data n))])"
        by (auto simp: bind_eq_Some_conv split: if_splits)
      with run_step [OF a] run_step [OF Some [unfolded n(4)]] \<open>cached = Some a\<close> \<open>cache_get _ _ _ = Some r\<close> r assms
        finish_evs [of client 0 _ "[Sock_Send client (take (nat (data_size n)) (data n))]" "[]"]
      show ?thesis by (simp add: run_finish forward_request_to_server_def Let_def option.map_comp comp_def case_prod_unfold)
    qed
  qed
qed

lemma run_forward:
  "px_result (run_request env client sh (Q_Forward pr)) =
     forward_request_to_server env (sh_px sh) (Some pr) client \<bind> finish client"
proof (cases "client \<le> 0 \<or> pr_host pr = None")
  case True
  then have "advance env client sh (Q_Forward pr) = Some (Q_Finish (- 1), sh, [])" by auto
  from run_silent [OF this] True show ?thesis
    by (auto simp: run_finish forward_request_to_server_def split: option.split)
next
  case False
  then obtain hh where h: "0 < client" "pr_host pr = Some hh" by auto
  show ?thesis
  proof (cases "advance env client sh (Q_Forward pr)")
    case None
    with h have "forward_request_to_server env (sh_px sh) (Some pr) client = None"
      by (cases "extract_host_port 256 (Some hh)"; cases "snd (the (extract_host_port 256 (Some hh)))"; cases "pr_path pr")
        (auto simp: forward_request_to_server_def)
    with run_stuck [OF None] show ?thesis by simp
  next
    case (Some y)
    with h obtain x host port path where f: "extract_host_port 256 (Some hh) = Some (x, Some (host, port))"
        "pr_path pr = Some path" "y = (Q_Lookup pr host port path, sh, [])"
      by (auto simp: bind_eq_Some_conv)
    from run_silent [OF Some [unfolded f(3)]] run_lookup [OF h f(1,2)] show ?thesis
      by (simp)
  qed
qed

text \<open>The tokens of a line that stays allocated.\<close>

definition with_strtok :: "shared \<Rightarrow> string \<Rightarrow> shared" where
  "with_strtok sh saved = sh\<lparr>sh_px := (sh_px sh)\<lparr>px_strtok := saved\<rparr>\<rparr>"

lemma with_strtok_simps [simp]:
  "sh_lines (with_strtok sh saved) = sh_lines sh" "sh_saved_in (with_strtok sh saved) = sh_saved_in sh"
  "sh_px (with_strtok sh saved) = (sh_px sh)\<lparr>px_strtok := saved\<rparr>" "with_strtok (with_strtok sh a) b = with_strtok sh b"
  by (simp_all add: with_strtok_def)

lemma strtok_next_alive:
  "sh_saved_in sh \<in> sh_lines sh \<Longrightarrow> strtok None CHR '' '' (px_strtok (sh_px sh)) = (t, saved) \<Longrightarrow>
    strtok_next sh = Some (map_option (Pair (sh_saved_in sh)) t, with_strtok sh saved)"
  by (simp add: strtok_next_def with_strtok_def)

lemma token_text_alive: "l \<in> alive \<Longrightarrow> token_text alive (map_option (Pair l) t) = Some t"
  by (cases t) (simp_all add: token_text_def)

lemma run_parse:
  assumes l: "sh_saved_in sh = l" "l \<in> sh_lines sh"
  shows "px_result (run_request env client sh (Q_Path l pr bytes line_end meth)) =
     (case parse_from_method (env_parse_mem env) pr bytes line_end meth (px_strtok (sh_px sh)) of
        None \<Rightarrow> None
      | Some (res, p, saved) \<Rightarrow>
          forward_request_to_server env ((sh_px sh)\<lparr>px_strtok := saved\<rparr>) p client \<bind> finish client)"
proof -
  obtain path s1 where t1: "strtok None CHR '' '' (px_strtok (sh_px sh)) = (path, s1)" by fastforce
  obtain version s2 where t2: "strtok None CHR '' '' s1 = (version, s2)" by fastforce
  let ?tok = "map_option (Pair l)"
  from strtok_next_alive [OF _ t1] l have a1: "advance env client sh (Q_Path l pr bytes line_end meth) =
      Some (Q_Version l pr bytes line_end meth (?tok path), with_strtok sh s1, [])" by simp
  from strtok_next_alive [of "with_strtok sh s1", simplified, OF _ t2] l
  have a2: "advance env client (with_strtok sh s1) (Q_Version l pr bytes line_end meth (?tok path)) =
      Some (Q_Copy l pr bytes line_end meth (?tok path) (?tok version), with_strtok sh s2, [])" by simp
  let ?c = "Q_Copy l pr bytes line_end meth (?tok path) (?tok version)"
  show ?thesis
  proof (cases "parse_fields (env_parse_mem env) pr bytes line_end meth path version")
    case None
    with l have "advance env client (with_strtok sh s2) ?c = None" by (simp add: token_text_alive)
    from run_silent [OF a1] run_silent [OF a2] run_stuck [OF this] None t1 t2 show ?thesis
      by (simp add: parse_from_method_def)
  next
    case (Some p)
    with l have a3: "advance env client (with_strtok sh s2) ?c =
        Some (Q_Forward p, (with_strtok sh s2)\<lparr>sh_lines := sh_lines sh - {l}\<rparr>, [])" by (simp add: token_text_alive)
    from run_silent [OF a1] run_silent [OF a2] run_silent [OF a3] Some t1 t2 show ?thesis
      by (simp add: parse_from_method_def run_forward)
  qed
qed

text \<open>From the start.\<close>

lemma run_received:
  assumes "receive_request env client = Some (Inr (pr, bytes, line_end))"
  shows "px_result (run_request env client sh Q_Recv) =
     (case strtok (Some (take line_end bytes)) CHR '' '' (px_strtok (sh_px sh)) of (meth, saved) \<Rightarrow>
       (case parse_from_method (env_parse_mem env) pr bytes line_end meth saved of
          None \<Rightarrow> None
        | Some (res, p, saved) \<Rightarrow>
            forward_request_to_server env ((sh_px sh)\<lparr>px_strtok := saved\<rparr>) p client \<bind> finish client))"
proof -
  let ?line = "(pr, bytes, line_end)"
  obtain meth saved where t: "strtok (Some (take line_end bytes)) CHR '' '' (px_strtok (sh_px sh)) = (meth, saved)" by fastforce
  let ?sh = "snd (strtok_first sh ?line)"
  have f: "fst (strtok_first sh ?line) = Q_Path (sh_next sh) pr bytes line_end meth"
    and l: "sh_saved_in ?sh = sh_next sh" "sh_next sh \<in> sh_lines ?sh" and px: "sh_px ?sh = (sh_px sh)\<lparr>px_strtok := saved\<rparr>"
    using t by (simp_all add: strtok_first_def)
  from assms f have "advance env client sh Q_Recv = Some (Q_Path (sh_next sh) pr bytes line_end meth, ?sh, [])" by simp
  from run_silent [OF this] run_parse [OF l, of env client pr bytes line_end meth]
  show ?thesis unfolding px t by (cases "parse_from_method (env_parse_mem env) pr bytes line_end meth saved") auto
qed

lemma parse_from_method_result:
  "parse_from_method mem p bytes line_end meth saved = None
   \<or> (\<exists>q saved'. parse_from_method mem p bytes line_end meth saved = Some (0, Some q, saved'))"
  by (cases "parse_from_method mem p bytes line_end meth saved")
    (auto simp: parse_from_method_def split: prod.splits)

lemma option_bind_cong_result: "(\<And>y. f y = g y) \<Longrightarrow> x \<bind> f = x \<bind> (g :: 'a \<Rightarrow> 'b option)"
  by (cases x) simp_all

lemma handle_received:
  "handle_client_request env g client =
     (case receive_request env client of
        None \<Rightarrow> None
      | Some (Inl evs) \<Rightarrow> Some (g, evs)
      | Some (Inr (pr, bytes, line_end)) \<Rightarrow>
         (case strtok (Some (take line_end bytes)) CHR '' '' (px_strtok g) of (meth, saved) \<Rightarrow>
           (case parse_from_method (env_parse_mem env) pr bytes line_end meth saved of
              None \<Rightarrow> None
            | Some (res, p, saved) \<Rightarrow> forward_request_to_server env (g\<lparr>px_strtok := saved\<rparr>) p client \<bind> finish client)))"
proof -
  let ?b = "fst (recv_chunk (MAX_REQUEST_SIZE - 1) (env_client env))"
  let ?n = "int (length ?b)"
  consider (short) "?n \<le> 0" | (refused) "0 < ?n" "validate_http_request (Some (cstr ?b)) ?n = 0"
    | (memory) "0 < ?n" "validate_http_request (Some (cstr ?b)) ?n \<noteq> 0" "ParsedRequest_create (env_calloc env) = None"
    | (parse) pr where "0 < ?n" "validate_http_request (Some (cstr ?b)) ?n \<noteq> 0" "ParsedRequest_create (env_calloc env) = Some pr"
    by fastforce
  then show ?thesis
  proof cases
    case parse
    consider (undef) "parse_start (env_parse_mem env) pr ?b ?n = None"
      | (failed) q where "parse_start (env_parse_mem env) pr ?b ?n = Some (Inl q)"
      | (line) q bytes line_end where "parse_start (env_parse_mem env) pr ?b ?n = Some (Inr (q, bytes, line_end))"
      by (metis old.sum.exhaust option.exhaust prod_cases3)
    then show ?thesis
    proof cases
      case line
      obtain meth saved where t: "strtok (Some (take line_end bytes)) CHR '' '' (px_strtok g) = (meth, saved)" by fastforce
      from parse_from_method_result [of "env_parse_mem env" q bytes line_end meth saved] parse line t show ?thesis
        by (auto simp: handle_client_request_def receive_request_def parse_start_parse finish_def Let_def
          intro!: option_bind_cong_result)
    qed (use parse in \<open>cases "send_error_response client 400 ''Bad Request''";
      auto simp: handle_client_request_def receive_request_def parse_start_parse Let_def\<close>)+
  qed (cases "send_error_response client 400 ''Bad Request''"; cases "send_error_response client 500 ''Internal Server Error''";
      simp add: handle_client_request_def receive_request_def Let_def)+
qed

end
