(* ===== verification/Request_Invariant.thy ===== *)
theory Request_Invariant
  imports Request_Steps Proxy_Facts Cache_Properties
begin

section \<open>What the steps of a request keep\<close>

text \<open>
  \<open>proxy_typed\<close> bounds what is stored in the cache and the pool; \<open>pc_typed\<close> is what a worker has
  checked or allocated when it stands at a point of its request. A step from a typed state leads to
  a typed one, and a step that does not exist has one of the causes of \<open>undefined_step\<close>.
\<close>

subsection \<open>The steps and the request as a whole\<close>

lemma run_request_handle: "px_result (run_request env client sh Q_Recv) = handle_client_request env (sh_px sh) client"
proof (cases "receive_request env client")
  case None
  then have "advance env client sh Q_Recv = None" by simp
  from run_stuck [OF this] None show ?thesis by (simp add: handle_received)
next
  case (Some r)
  show ?thesis
  proof (cases r)
    case (Inl evs)
    with Some have "advance env client sh Q_Recv = Some (Q_Done, sh, evs)" by simp
    from run_step [OF this] Some Inl show ?thesis by (simp add: handle_received)
  next
    case (Inr line)
    obtain pr bytes line_end where l: "line = (pr, bytes, line_end)" by (cases line)
    from run_received [OF Some [unfolded Inr l], of sh] Some Inr l show ?thesis by (simp add: handle_received)
  qed
qed

text \<open>The steps of one worker and what they do to the sockets, whatever the others do to the shared
  state in between.\<close>

inductive own_steps :: "request_env \<Rightarrow> int \<Rightarrow> nat \<Rightarrow> req_pc \<Rightarrow> req_pc \<Rightarrow> sys_event list \<Rightarrow> bool" for env client where
  own_none: "own_steps env client 0 pc pc []"
| own_step: "advance env client sh pc = Some (pc', sh', evs) \<Longrightarrow> own_steps env client n pc' pc'' evs' \<Longrightarrow>
    own_steps env client (Suc n) pc pc'' (evs @ evs')"

lemma own_steps_left: "own_steps env client n pc pc' evs \<Longrightarrow> n + steps_left pc' \<le> steps_left pc"
proof (induction rule: own_steps.induct)
  case (own_step sh pc pc' sh' evs n pc'' evs')
  from advance_steps_left [OF own_step.hyps(1)] own_step.IH show ?case by simp
qed simp

lemma receive_closes: "receive_request env client = Some (Inl evs) \<Longrightarrow> \<exists>before. evs = before @ [Sock_Close client]"
  by (auto simp: receive_request_def socket_close_def Let_def bind_eq_Some_conv split: if_splits option.splits sum.splits)
    (metis prod_cases3 sum.exhaust)

lemma done_closes:
  assumes "advance env client sh pc = Some (Q_Done, sh', evs)"
  shows "\<exists>before. evs = before @ [Sock_Close client]"
proof (cases pc)
  case Q_Recv
  from assms [unfolded Q_Recv] show ?thesis
  proof (cases rule: advance_recvE)
    case answered
    from answered(1) assms Q_Recv receive_closes show ?thesis by auto
  next
    case (line line)
    from line(2) have "steps_left (fst (strtok_first sh line)) = 0" by (metis steps_left.simps(13))
    then show ?thesis by simp
  qed
next
  case (Q_Connect pr host port path)
  with assms show ?thesis by (auto split: prod.splits if_splits)
next
  case (Q_Lookup pr host port path)
  with assms show ?thesis by (auto simp: bind_eq_Some_conv Let_def split: option.splits)
next
  case (Q_Forward pr)
  with assms show ?thesis by (auto simp: bind_eq_Some_conv split: if_splits option.splits)
qed (use assms in \<open>auto simp: bind_eq_Some_conv socket_close_def Let_def split: if_splits prod.splits\<close>)

lemma own_steps_close:
  "own_steps env client n pc pc' evs \<Longrightarrow> pc' = Q_Done \<Longrightarrow> pc \<noteq> Q_Done \<Longrightarrow> \<exists>before. evs = before @ [Sock_Close client]"
proof (induction rule: own_steps.induct)
  case (own_step sh pc pc' sh' evs n pc'' evs')
  show ?case
  proof (cases "pc' = Q_Done")
    case True
    have "n = 0" using own_steps_left [OF own_step.hyps(2)] True by simp
    with own_step.hyps(2) have "evs' = []" by (auto elim: own_steps.cases)
    with done_closes own_step.hyps(1) True show ?thesis by simp
  next
    case False
    with own_step show ?thesis by auto
  qed
qed simp

subsection \<open>Types of the stored data and of a worker's locals\<close>

definition entry_typed :: "cache_entry \<Rightarrow> bool" where
  "entry_typed e \<longleftrightarrow> length (e_url e) \<le> 511 \<and> 0 < length (e_data e) \<and> length (e_data e) < MAX_RESPONSE_SIZE"

definition slot_typed :: "pool_entry \<Rightarrow> bool" where
  "slot_typed conn \<longleftrightarrow> conn = empty_slot \<or> 0 < socket_fd conn \<and> length (conn_host conn) \<le> 255
     \<and> 1 \<le> conn_port conn \<and> conn_port conn \<le> 65535 \<and> (in_use conn = 0 \<or> in_use conn = 1)"

definition cache_typed :: "optimized_cache \<Rightarrow> bool" where
  "cache_typed c \<longleftrightarrow> cache_inv c \<and> max_size c = CACHE_SIZE \<and> (\<forall>e \<in> set (cache_abs c). entry_typed e)"

definition pool_typed :: "connection_pool \<Rightarrow> bool" where
  "pool_typed p \<longleftrightarrow> pool_inv p \<and> (\<forall>conn \<in> set (connections p). slot_typed conn)"

definition proxy_typed :: "proxy \<Rightarrow> bool" where
  "proxy_typed g \<longleftrightarrow> (\<exists>c p. px_cache g = Some c \<and> cache_typed c \<and> px_conns g = Some p \<and> pool_typed p)"

definition peer_typed :: "string \<Rightarrow> int \<Rightarrow> bool" where
  "peer_typed host port \<longleftrightarrow> length host \<le> 255 \<and> 1 \<le> port \<and> port \<le> 65535"

definition method_typed :: "string option \<Rightarrow> bool" where
  "method_typed meth \<longleftrightarrow> (\<exists>m \<in> set http_methods. meth = Some m)"

fun pc_typed :: "req_pc \<Rightarrow> bool" where
  "pc_typed (Q_Path l pr bytes line_end meth) = method_typed meth"
| "pc_typed (Q_Version l pr bytes line_end meth path) = method_typed meth"
| "pc_typed (Q_Copy l pr bytes line_end meth path version) = method_typed meth"
| "pc_typed (Q_Forward pr) = method_typed (pr_method pr)"
| "pc_typed (Q_Lookup pr host port path) = (method_typed (pr_method pr) \<and> peer_typed host port)"
| "pc_typed (Q_Connect pr host port path) = (method_typed (pr_method pr) \<and> peer_typed host port)"
| "pc_typed (Q_Exchange server pr host port path) = (method_typed (pr_method pr) \<and> peer_typed host port)"
| "pc_typed (Q_Store server host port path response) =
     (peer_typed host port \<and> 0 < length response \<and> length response < MAX_RESPONSE_SIZE)"
| "pc_typed (Q_Return server host port) = peer_typed host port"
| "pc_typed _ = True"

subsection \<open>The pool\<close>

lemma slot_typed_simps [simp]: "slot_typed empty_slot"
  "slot_typed conn \<Longrightarrow> 0 < socket_fd conn \<Longrightarrow> v = 0 \<or> v = 1 \<Longrightarrow> slot_typed (conn\<lparr>in_use := v, last_used := t\<rparr>)"
  by (auto simp: slot_typed_def empty_slot_def)

lemma get_loop_typed:
  "pool_get_loop now h pt cs = (r, cs', closed) \<Longrightarrow> \<forall>conn \<in> set cs. slot_typed conn \<Longrightarrow> \<forall>conn \<in> set cs'. slot_typed conn"
proof (induction cs arbitrary: r cs' closed)
  case (Cons conn cs)
  then show ?case by (auto simp: idle_for_def split: if_splits prod.splits)
qed simp

lemma mark_idle_typed:
  "pool_mark_idle now fd cs = Some cs' \<Longrightarrow> 0 < fd \<Longrightarrow> \<forall>conn \<in> set cs. slot_typed conn \<Longrightarrow> \<forall>conn \<in> set cs'. slot_typed conn"
  by (induction cs arbitrary: cs') (auto split: if_splits)

lemma store_typed:
  "pool_store now fd h pt cs = Some cs' \<Longrightarrow> 0 < fd \<Longrightarrow> peer_typed h pt \<Longrightarrow> \<forall>conn \<in> set cs. slot_typed conn \<Longrightarrow>
    \<forall>conn \<in> set cs'. slot_typed conn"
  by (induction cs arbitrary: cs') (auto simp: slot_typed_def peer_typed_def split: if_splits)

lemma return_typed:
  assumes "pool_typed p" and "peer_typed h pt"
  shows "\<exists>p' evs. connection_pool_return now (Some p) fd (Some h) pt 1 = (Some p', evs) \<and> pool_typed p'"
proof -
  have i: "pool_inv p" and t: "\<forall>conn \<in> set (connections p). slot_typed conn" using assms(1) by (auto simp: pool_typed_def)
  from return_ok [OF i, of now fd h pt] obtain p' evs where
    r: "connection_pool_return now (Some p) fd (Some h) pt 1 = (Some p', evs)" "pool_inv p'" by blast
  have "\<forall>conn \<in> set (connections p'). slot_typed conn"
    using r(1) t mark_idle_typed [of now fd "connections p"] store_typed [of now fd h pt "connections p"] assms(2)
    by (auto simp: connection_pool_return_def pool_return_locked_def split: if_splits option.splits)
  with r show ?thesis by (auto simp: pool_typed_def)
qed

lemma open_server_typed:
  assumes "pool_typed p"
  shows "\<exists>fd p' evs. open_server env (Some p) h pt = (fd, Some p', evs) \<and> pool_typed p'"
proof -
  have i: "pool_inv p" and t: "\<forall>conn \<in> set (connections p). slot_typed conn" using assms by (auto simp: pool_typed_def)
  from open_server_ok [OF i, of env h pt] obtain fd p' evs where
    o: "open_server env (Some p) h pt = (fd, Some p', evs)" "pool_inv p'" by blast
  obtain r cs closed where l: "pool_get_loop (env_t_connect env) h pt (connections p) = (r, cs, closed)" by (cases rule: prod_cases3)
  then have "connections p' = cs"
    using o(1) by (auto simp: open_server_def connection_pool_get_def pool_get_locked_def split: option.splits prod.splits if_splits)
  with get_loop_typed [OF l t] o show ?thesis by (auto simp: pool_typed_def)
qed

subsection \<open>The cache\<close>

lemma touch_typed [simp]: "entry_typed (touch e) = entry_typed e"
  by (simp add: entry_typed_def)

lemma get_typed:
  assumes "cache_typed c"
  shows "\<exists>q c'. cache_get now (Some c) (Some u) = Some (q, Some c') \<and> cache_typed c'"
proof -
  have i: "cache_inv c" and m: "max_size c = CACHE_SIZE" and t: "\<forall>e \<in> set (cache_abs c). entry_typed e" using assms by (auto simp: cache_typed_def)
  from cache_get_ok [OF i, of now u] obtain q c' where
    g: "cache_get now (Some c) (Some u) = Some (q, Some c')" "cache_inv c'" "cache_abs c' = snd (spec_get now u (cache_abs c))"
      "max_size c' = max_size c"
    by (metis snd_conv)
  have "\<forall>e \<in> set (snd (spec_get now u (cache_abs c))). entry_typed e"
    using t set_without_first [of "\<lambda>e. e_url e = u" "cache_abs c"]
    by (auto simp: spec_get_def dest: spec_find_url split: option.splits)
  with g m show ?thesis by (auto simp: cache_typed_def)
qed

lemma add_typed:
  assumes "cache_typed c" and "alloc_fresh (malloc_node ms)" and "length u \<le> 511"
    and "0 < length d" "length d < MAX_RESPONSE_SIZE"
  shows "\<exists>res c'. cache_add ms now (Some c) (Some u) (Some d) (int (length d)) = Some (res, Some c') \<and> cache_typed c'"
proof -
  have i: "cache_inv c" and m: "max_size c = CACHE_SIZE" and t: "\<forall>e \<in> set (cache_abs c). entry_typed e" using assms(1) by (auto simp: cache_typed_def)
  from cache_add_ok [OF i assms(2), of "int (length d)" d now u] assms(4) obtain res c' where
    a: "cache_add ms now (Some c) (Some u) (Some d) (int (length d)) = Some (res, Some c')" "cache_inv c'" "max_size c' = max_size c"
      "cache_abs c' = spec_add (max_size c) now u d (cache_abs c) \<or> cache_abs c' = spec_evict (max_size c) (cache_abs c)"
    unfolding Let_def by (auto simp del: split_paired_Ex)
  have "\<forall>e \<in> set (spec_evict (max_size c) (cache_abs c)). entry_typed e"
    using t by (auto simp: spec_evict_def dest: in_set_butlastD)
  with a m assms(3-5) show ?thesis by (auto simp: cache_typed_def spec_add_def entry_typed_def)
qed

subsection \<open>The request line and the fields\<close>

lemma receive_returns:
  assumes "env_ok env"
  shows "receive_request env client \<noteq> None"
proof -
  let ?b = "fst (recv_chunk (MAX_REQUEST_SIZE - 1) (env_client env))"
  show ?thesis using assms
    by (auto simp: receive_request_def Let_def error_400 error_500 parse_start_def env_ok_def split: option.split sum.split)
qed

lemma received_method:
  assumes "env_ok env" and "receive_request env client = Some (Inr (pr, bytes, line_end))"
  shows "pr_method pr = None \<and> (\<exists>m \<in> set http_methods. \<exists>r. take line_end bytes = m @ CHR '' '' # r)"
proof -
  let ?b = "fst (recv_chunk (MAX_REQUEST_SIZE - 1) (env_client env))"
  let ?n = "int (length ?b)"
  from assms have v: "0 < ?n" "validate_http_request (Some (cstr ?b)) ?n \<noteq> 0" and c: "env_calloc env"
    and p: "pr_method pr = None" "bytes = ?b" "strstr (cstr ?b) CRLF = Some line_end"
    by (auto simp: receive_request_def Let_def parse_start_def ParsedRequest_create_def empty_request_def env_ok_def
        split: if_splits option.splits sum.splits)
  from v(2) have "validate_http_request (Some (cstr ?b)) ?n = 1"
    by (auto simp: validate_http_request_def split: if_splits)
  with validate_prefix obtain m where m: "m \<in> set http_methods" "take (length m + 1) (cstr ?b) = m @ '' ''" by blast
  from method_in_line [OF m(2) methods_words [OF m(1)] p(3)] obtain r where
    r: "take line_end (cstr ?b) = m @ CHR '' '' # r" by blast
  have "line_end \<le> length (cstr ?b)" using strstr_Some [OF p(3)] by simp
  then have "take line_end ?b = take line_end (cstr ?b)"
    unfolding cstr_def by (metis takeWhile_eq_take take_take min.absorb1)
  with r p m(1) show ?thesis by auto
qed

lemma first_token_typed:
  assumes "env_ok env" and "receive_request env client = Some (Inr line)"
  shows "pc_typed (fst (strtok_first sh line)) \<and> sh_px (snd (strtok_first sh line)) = (sh_px sh)\<lparr>px_strtok := px_strtok (sh_px (snd (strtok_first sh line)))\<rparr>"
proof -
  obtain pr bytes line_end where l: "line = (pr, bytes, line_end)" by (cases line)
  from received_method [OF assms(1) assms(2) [unfolded l]] obtain m r where
    m: "m \<in> set http_methods" "take line_end bytes = m @ CHR '' '' # r" by blast
  from method_token [OF methods_words [OF m(1)], of r] have
    "fst (strtok (Some (take line_end bytes)) CHR '' '' sv) = Some m" for sv by (simp add: m(2))
  with m(1) show ?thesis unfolding l by (simp add: strtok_first_def method_typed_def case_prod_unfold)
qed

lemma fields_typed:
  assumes "env_ok env" and "method_typed meth"
  shows "\<exists>p. parse_fields (env_parse_mem env) pr bytes line_end meth path version = Some p \<and> method_typed (pr_method p)"
proof -
  obtain h where h: "header_loop (\<lambda>_. True) (line_end + 2) (drop (line_end + 2) bytes) = Some h"
    using header_loop_total by blast
  from assms parse_fields_ok [OF h, of pr meth path version] show ?thesis by (auto simp: env_ok_def method_typed_def)
qed

lemma extract_port: "extract_host_port cap (Some hh) = Some (x, Some (host, port)) \<Longrightarrow> 1 \<le> port \<and> port \<le> 65535 \<and> Suc (length host) \<le> cap"
  by (auto simp: extract_host_port_def Let_def split: option.splits if_splits dest: strchr_Some)

subsection \<open>Preservation\<close>

lemma proxy_typed_strtok [simp]: "proxy_typed (g\<lparr>px_strtok := saved\<rparr>) = proxy_typed g"
  by (simp add: proxy_typed_def)

lemma strtok_next_typed:
  "strtok_next sh = Some (t, sh') \<Longrightarrow> proxy_typed (sh_px sh') = proxy_typed (sh_px sh)"
  by (auto simp: strtok_next_def split: if_splits prod.splits)

lemma recv_loop_length: "length (recv_loop [] False stream) < MAX_RESPONSE_SIZE"
  using recv_loop_prefix [of "[]" False stream] by (auto simp: MAX_RESPONSE_SIZE_def)

lemma advance_typed:
  assumes step: "advance env client sh pc = Some (pc', sh', evs)" and t: "proxy_typed (sh_px sh)" "pc_typed pc"
    and e: "env_ok env"
  shows "proxy_typed (sh_px sh') \<and> pc_typed pc'"
proof -
  from t(1) obtain c p where c: "px_cache (sh_px sh) = Some c" "cache_typed c"
    and p: "px_conns (sh_px sh) = Some p" "pool_typed p" by (auto simp: proxy_typed_def)
  show ?thesis
  proof (cases pc)
    case Q_Recv
    from step [unfolded Q_Recv] show ?thesis
    proof (cases rule: advance_recvE)
      case (line line)
      from first_token_typed [OF e line(1), of sh] t(1) line(2,3) show ?thesis by (metis proxy_typed_strtok)
    qed (use t in simp)
  next
    case (Q_Copy l pr bytes line_end meth path version)
    with fields_typed [OF e, of meth pr bytes line_end] step t show ?thesis
      by (auto simp: bind_eq_Some_conv) (metis option.inject)
  next
    case (Q_Lookup pr host port path)
    from get_typed [OF c(2), of "env_t_lookup env" "snprintf_text 512 path"] obtain q c' where
      "cache_get (env_t_lookup env) (Some c) (Some (snprintf_text 512 path)) = Some (q, Some c')" "cache_typed c'" by blast
    with Q_Lookup step t c(1) p show ?thesis by (auto simp: proxy_typed_def Let_def split: option.splits)
  next
    case (Q_Connect pr host port path)
    from open_server_typed [OF p(2), of env host port] obtain fd p' evs' where
      "open_server env (Some p) host port = (fd, Some p', evs')" "pool_typed p'" by blast
    with Q_Connect step t c p(1) show ?thesis by (auto simp: proxy_typed_def split: if_splits)
  next
    case (Q_Exchange server pr host port path)
    with step t recv_loop_length [of "env_server env"] show ?thesis
      by (auto simp: bind_eq_Some_conv Let_def split: if_splits)
  next
    case (Q_Store server host port path response)
    have "length (snprintf_text 512 path) \<le> 511" by (simp add: snprintf_text_def)
    moreover have "alloc_fresh (malloc_node (env_cache_mem env))" using e by (simp add: env_ok_def)
    ultimately obtain res c' where
      "cache_add (env_cache_mem env) (env_t_store env) (Some c) (Some (snprintf_text 512 path)) (Some response)
        (int (length response)) = Some (res, Some c')" "cache_typed c'"
      using add_typed [OF c(2), of "env_cache_mem env" "snprintf_text 512 path" response "env_t_store env"] t(2) Q_Store by auto
    with Q_Store step t c(1) p show ?thesis by (auto simp: proxy_typed_def)
  next
    case (Q_Return server host port)
    with t(2) have "peer_typed host port" by simp
    from return_typed [OF p(2) this, of "env_t_return env" server] obtain p' evs' where
      "connection_pool_return (env_t_return env) (Some p) server (Some host) port 1 = (Some p', evs')" "pool_typed p'" by blast
    with Q_Return step t c p(1) show ?thesis by (auto simp: proxy_typed_def)
  next
    case (Q_Forward pr)
    with step t show ?thesis
      by (auto simp: bind_eq_Some_conv peer_typed_def dest!: extract_port split: if_splits option.splits)
  qed (use step t in \<open>auto simp: bind_eq_Some_conv dest!: strtok_next_typed split: if_splits option.splits\<close>)
qed

subsection \<open>The steps that are undefined\<close>

fun dangling :: "nat set \<Rightarrow> token \<Rightarrow> bool" where
  "dangling alive (Some (l, s)) = (l \<notin> alive)"
| "dangling alive None = False"

fun undefined_step :: "shared \<Rightarrow> req_pc \<Rightarrow> bool" where
  "undefined_step sh (Q_Path l pr bytes line_end meth) = (sh_saved_in sh \<notin> sh_lines sh)"
| "undefined_step sh (Q_Version l pr bytes line_end meth path) = (sh_saved_in sh \<notin> sh_lines sh)"
| "undefined_step sh (Q_Copy l pr bytes line_end meth path version) =
     (dangling (sh_lines sh) path \<or> dangling (sh_lines sh) version)"
| "undefined_step sh (Q_Forward pr) =
     (case pr_host pr of None \<Rightarrow> False | Some hh \<Rightarrow> pr_path pr = None \<or> 256 \<le> length (host_part hh))"
| "undefined_step sh (Q_Cached a) = (case px_cache (sh_px sh) of None \<Rightarrow> True | Some c \<Rightarrow> heap c a = None)"
| "undefined_step sh _ = False"

lemma token_text_dangling: "token_text alive t = None \<longleftrightarrow> dangling alive t"
  by (cases t) (auto simp: token_text_def)

lemma cached_data_size:
  assumes "cache_inv c" and "heap c a = Some n"
  shows "nat (data_size n) = length (data n)"
proof -
  from cache_inv_repr [OF assms(1)] obtain chs where r: "cache_repr c (cache_addrs c) chs" by blast
  with assms(2) have "node_ok n" by (auto simp: cache_repr_def nodes_ok_def)
  then show ?thesis by (simp add: node_ok_def)
qed

lemma advance_None:
  assumes t: "proxy_typed (sh_px sh)" "pc_typed pc" and e: "env_ok env"
    and cl: "0 < client \<or> (\<forall>pr. pc \<noteq> Q_Forward pr)" and "pc \<noteq> Q_Done"
  shows "advance env client sh pc = None \<longleftrightarrow> undefined_step sh pc"
proof -
  from t(1) obtain c p where c: "px_cache (sh_px sh) = Some c" "cache_typed c"
    and p: "px_conns (sh_px sh) = Some p" "pool_typed p" by (auto simp: proxy_typed_def)
  show ?thesis
  proof (cases pc)
    case Q_Recv
    with receive_returns [OF e, of client] show ?thesis by (auto simp: bind_eq_None_conv)
  next
    case (Q_Copy l pr bytes line_end meth path version)
    have "\<forall>a b. \<exists>q. parse_fields (env_parse_mem env) pr bytes line_end meth a b = Some q"
      using fields_typed [OF e, of meth pr bytes line_end] t(2) Q_Copy by fastforce
    then obtain q where f: "\<And>a b. parse_fields (env_parse_mem env) pr bytes line_end meth a b = Some (q a b)" by metis
    show ?thesis unfolding Q_Copy undefined_step.simps token_text_dangling [symmetric]
      using f by (cases "token_text (sh_lines sh) path"; cases "token_text (sh_lines sh) version") auto
  next
    case (Q_Forward pr)
    with cl have "0 < client" by simp
    show ?thesis
    proof (cases "pr_host pr")
      case None
      with Q_Forward \<open>0 < client\<close> show ?thesis by simp
    next
      case (Some hh)
      show ?thesis
      proof (cases "length (host_part hh) < 256")
        case True
        from extract_fits [OF True] Some Q_Forward True \<open>0 < client\<close> show ?thesis by (auto simp: bind_eq_None_conv)
      next
        case False
        with extract_overflows [of 256 hh] Some Q_Forward \<open>0 < client\<close> show ?thesis by simp
      qed
    qed
  next
    case (Q_Lookup pr host port path)
    from get_typed [OF c(2), of "env_t_lookup env" "snprintf_text 512 path"] Q_Lookup c(1) show ?thesis by auto
  next
    case (Q_Cached a)
    show ?thesis
    proof (cases "heap c a")
      case None
      with Q_Cached c show ?thesis by simp
    next
      case (Some n)
      with cached_data_size [of c a n] c Q_Cached show ?thesis by (simp add: cache_typed_def)
    qed
  next
    case (Q_Exchange server pr host port path)
    with t(2) obtain m where m: "pr_method pr = Some m" "m \<in> set http_methods" "length host \<le> 255"
      by (auto simp: method_typed_def peer_typed_def)
    with request_text_fits [OF method_bound, of m host path] Q_Exchange show ?thesis by (simp add: Let_def)
  next
    case (Q_Store server host port path response)
    have "length (snprintf_text 512 path) \<le> 511" by (simp add: snprintf_text_def)
    moreover have "alloc_fresh (malloc_node (env_cache_mem env))" using e by (simp add: env_ok_def)
    ultimately obtain res c' where
      "cache_add (env_cache_mem env) (env_t_store env) (Some c) (Some (snprintf_text 512 path)) (Some response)
        (int (length response)) = Some (res, Some c')"
      using add_typed [OF c(2), of "env_cache_mem env" "snprintf_text 512 path" response "env_t_store env"] t(2) Q_Store by auto
    with Q_Store c(1) show ?thesis by simp
  qed (use \<open>pc \<noteq> Q_Done\<close> error_502 in \<open>auto simp: strtok_next_def split: prod.splits\<close>)
qed

lemma undefined_advance:
  assumes "advance env client sh pc = None" and "proxy_typed (sh_px sh)" "pc_typed pc" "env_ok env" "pc \<noteq> Q_Done"
  shows "undefined_step sh pc"
proof (cases "0 < client \<or> (\<forall>pr. pc \<noteq> Q_Forward pr)")
  case True
  with advance_None [OF assms(2-4) _ assms(5)] assms(1) show ?thesis by blast
next
  case False
  with assms(1) show ?thesis by auto
qed

end
