(* ===== verification/Server.thy ===== *)
theory Server
  imports Request_Invariant Proxy_States Thread_Invariant
begin

section \<open>The server: four workers, each with a request\<close>

text \<open>
  The step relation of \<open>Thread_Pool\<close> and the steps of \<open>Request_Steps\<close> put together: between
  \<open>sem_wait\<close> and \<open>sem_post\<close> a worker runs its request step by step, on the position of \<open>strtok\<close>,
  the cache and the pool it shares with the others, and it frees its task and posts the semaphore
  when the request is done. Everything outside the program may be different in each request, as
  long as it is \<open>env_ok\<close>: a failed allocation in the parser is already undefined in a request alone.
  A client may also stay connected and never send anything (\<open>rq_silent\<close>): then \<open>recv\<close> on its socket
  does not return, as no timeout is set for it. \<open>sv_up\<close> is false once \<open>proxy_server_shutdown\<close> has
  gone on, after the thread pool, to destroy the cache and the pool. The last two fields of a request and \<open>sv_calls\<close> are a log the code does not keep:
  how many calls of \<open>cache_get\<close> and \<open>cache_add\<close> there have been, how many when a request was
  given the node it will read, and the node's bytes then.
\<close>

record request =
  rq_env :: request_env
  rq_client :: int
  rq_silent :: bool
  rq_pc :: req_pc
  rq_seen :: nat
  rq_bytes :: "string option"

record server =
  sv_tp :: tp_sys
  sv_sh :: shared
  sv_run :: "nat \<Rightarrow> request option"
  sv_up :: bool
  sv_calls :: nat

definition server_start :: "proxy \<Rightarrow> server" where
  "server_start g = \<lparr>sv_tp = tp_init, sv_sh = \<lparr>sh_px = g, sh_lines = {}, sh_next = 0, sh_saved_in = 0\<rparr>,
     sv_run = Map.empty, sv_up = True, sv_calls = 0\<rparr>"

definition new_request :: "request_env \<Rightarrow> int \<Rightarrow> request" where
  "new_request env client = \<lparr>rq_env = env, rq_client = client, rq_silent = False, rq_pc = Q_Recv, rq_seen = 0, rq_bytes = None\<rparr>"

text \<open>Whose data a step reads, and the seconds after which \<open>recv\<close> on that peer's socket gives up: the
  descriptor that \<open>accept\<close> gave is used as it is, and only the server's gets \<open>SO_RCVTIMEO\<close>.\<close>

datatype peer = Peer_Client | Peer_Server

fun reads_from :: "req_pc \<Rightarrow> peer option" where
  "reads_from Q_Recv = Some Peer_Client"
| "reads_from (Q_Exchange server pr host port path) = Some Peer_Server"
| "reads_from _ = None"

fun recv_timeout :: "peer \<Rightarrow> int option" where
  "recv_timeout Peer_Client = None"
| "recv_timeout Peer_Server = Some 5"

text \<open>The request waits in a \<open>recv\<close> that does not return.\<close>

definition recv_waits :: "request \<Rightarrow> bool" where
  "recv_waits r \<longleftrightarrow> (case reads_from (rq_pc r) of None \<Rightarrow> False | Some p \<Rightarrow> rq_silent r \<and> recv_timeout p = None)"

fun calls_cache :: "req_pc \<Rightarrow> bool" where
  "calls_cache (Q_Lookup pr host port path) = True"
| "calls_cache (Q_Store server host port path response) = True"
| "calls_cache _ = False"

definition bytes_at :: "shared \<Rightarrow> addr \<Rightarrow> string option" where
  "bytes_at sh a = do { c \<leftarrow> px_cache (sh_px sh); pointee c a }"

definition moved :: "server \<Rightarrow> nat \<Rightarrow> request \<Rightarrow> req_pc \<Rightarrow> shared \<Rightarrow> server" where
  "moved s w r pc sh =
     (let calls = (if calls_cache (rq_pc r) then sv_calls s + 1 else sv_calls s);
          r = r\<lparr>rq_pc := pc\<rparr>;
          r = (case pc of Q_Cached a \<Rightarrow> r\<lparr>rq_seen := calls, rq_bytes := bytes_at sh a\<rparr> | _ \<Rightarrow> r) in
      s\<lparr>sv_sh := sh, sv_run := (sv_run s)(w \<mapsto> r), sv_calls := calls\<rparr>)"

inductive server_step :: "bool \<Rightarrow> server \<Rightarrow> server \<Rightarrow> bool" for sig where
  s_main: "main_step sig (sv_tp s) tp \<Longrightarrow> server_step sig s (s\<lparr>sv_tp := tp\<rparr>)"
| s_queue: "pc_is (sv_tp s) w pc \<Longrightarrow> \<forall>a. pc \<noteq> W_Sem a \<and> pc \<noteq> W_Handle a \<Longrightarrow> worker_step w (sv_tp s) tp \<Longrightarrow>
    server_step sig s (s\<lparr>sv_tp := tp\<rparr>)"
| s_begin: "pc_is (sv_tp s) w (W_Sem a) \<Longrightarrow> worker_step w (sv_tp s) tp \<Longrightarrow> env_ok env \<Longrightarrow> (silent \<longrightarrow> env_client env = []) \<Longrightarrow>
    server_step sig s (s\<lparr>sv_tp := tp, sv_run := (sv_run s)(w \<mapsto> (new_request env (sock_of (sv_tp s) a))\<lparr>rq_silent := silent\<rparr>)\<rparr>)"
| s_request: "sv_run s w = Some r \<Longrightarrow> \<not> recv_waits r \<Longrightarrow> advance (rq_env r) (rq_client r) (sv_sh s) (rq_pc r) = Some (pc, sh, evs) \<Longrightarrow>
    server_step sig s (moved s w r pc sh)"
| s_end: "sv_run s w = Some r \<Longrightarrow> rq_pc r = Q_Done \<Longrightarrow> worker_step w (sv_tp s) tp \<Longrightarrow>
    server_step sig s (s\<lparr>sv_tp := tp, sv_run := (sv_run s)(w := None)\<rparr>)"
| s_destroy: "main (sv_tp s) = M_Done \<Longrightarrow> sv_up s \<Longrightarrow>
    proxy_server_shutdown ((sh_px (sv_sh s))\<lparr>px_threads := None\<rparr>) = Some (g, nodes, evs) \<Longrightarrow>
    server_step sig s (s\<lparr>sv_up := False, sv_sh := (sv_sh s)\<lparr>sh_px := g\<rparr>\<rparr>)"

inductive server_reachable :: "bool \<Rightarrow> server \<Rightarrow> bool" for sig where
  sv_start: "proxy_server_init ie no_proxy = (0, g) \<Longrightarrow> server_reachable sig (server_start g)"
| sv_next: "server_reachable sig s \<Longrightarrow> server_step sig s s' \<Longrightarrow> server_reachable sig s'"

subsection \<open>The workers of the pool\<close>

lemma moved_simps [simp]:
  "sv_tp (moved s w r pc sh) = sv_tp s" "sv_sh (moved s w r pc sh) = sh" "sv_up (moved s w r pc sh) = sv_up s"
  "sv_run (moved s w r pc sh) v = None \<longleftrightarrow> v \<noteq> w \<and> sv_run s v = None"
  "v \<noteq> w \<Longrightarrow> sv_run (moved s w r pc sh) v = sv_run s v"
  "sv_calls (moved s w r pc sh) = (if calls_cache (rq_pc r) then sv_calls s + 1 else sv_calls s)"
  by (simp_all add: moved_def Let_def)

lemma moved_request:
  assumes "sv_run (moved s w r pc sh) w = Some r'"
  shows "rq_pc r' = pc \<and> rq_env r' = rq_env r \<and> rq_client r' = rq_client r \<and> rq_silent r' = rq_silent r
     \<and> (\<forall>a. pc = Q_Cached a \<longrightarrow> rq_seen r' = sv_calls (moved s w r pc sh) \<and> rq_bytes r' = bytes_at sh a)"
  using assms by (auto simp: moved_def Let_def split: req_pc.splits)

definition handles :: "tp_sys \<Rightarrow> nat \<Rightarrow> bool" where
  "handles t w \<longleftrightarrow> (\<exists>a. pc_is t w (W_Handle a))"

lemma handles_other: "worker_step w t t' \<Longrightarrow> v \<noteq> w \<Longrightarrow> handles t' v = handles t v"
  by (erule worker_step.cases) (auto simp: handles_def pc_is_def goto_def)

lemma handles_self:
  assumes "worker_step w t t'" and "pc_is t w pc"
  shows "handles t' w \<longleftrightarrow> (\<exists>a. pc = W_Sem a)"
  using assms by (cases rule: worker_step.cases) (auto simp: handles_def pc_is_def goto_def)

lemma main_step_workers:
  assumes "main_step sig t t'"
  shows "length (workers t') = length (workers t) \<and> (\<forall>w a. pc_is t' w (W_Handle a) \<longleftrightarrow> pc_is t w (W_Handle a))"
  using assms
proof (cases rule: main_step.cases)
  case (m_push a p pcs)
  then show ?thesis by (auto simp: pc_is_def nth_list_update split: if_splits)
next
  case m_shut
  then show ?thesis by (auto simp: pc_is_def wake_all_def split: if_splits)
qed (auto simp: pc_is_def)

lemma handles_main: "main_step sig t t' \<Longrightarrow> handles t' w = handles t w"
  by (simp add: handles_def main_step_workers)

subsection \<open>Request lines\<close>

fun line_of :: "req_pc \<Rightarrow> nat option" where
  "line_of (Q_Path l pr bytes line_end meth) = Some l"
| "line_of (Q_Version l pr bytes line_end meth path) = Some l"
| "line_of (Q_Copy l pr bytes line_end meth path version) = Some l"
| "line_of _ = None"

text \<open>What a step does to the request lines and to the cache.\<close>

lemma strtok_next_frame:
  "strtok_next sh = Some (t, sh') \<Longrightarrow> sh_lines sh' = sh_lines sh \<and> sh_next sh' = sh_next sh
     \<and> sh_saved_in sh' = sh_saved_in sh \<and> px_cache (sh_px sh') = px_cache (sh_px sh)"
  by (auto simp: strtok_next_def split: if_splits prod.splits)

lemma advance_lines:
  assumes "advance env client sh pc = Some (pc', sh', evs)"
  shows "line_of pc = None \<and> line_of pc' = None \<and> sh_lines sh' = sh_lines sh \<and> sh_next sh' = sh_next sh
     \<or> line_of pc = None \<and> line_of pc' = Some (sh_next sh) \<and> sh_lines sh' = insert (sh_next sh) (sh_lines sh) \<and> sh_next sh' = Suc (sh_next sh)
     \<or> line_of pc \<noteq> None \<and> line_of pc' = line_of pc \<and> sh_lines sh' = sh_lines sh \<and> sh_next sh' = sh_next sh
     \<or> (\<exists>l. line_of pc = Some l \<and> line_of pc' = None \<and> sh_lines sh' = sh_lines sh - {l} \<and> sh_next sh' = sh_next sh)"
proof (cases pc)
  case Q_Recv
  from assms [unfolded Q_Recv] show ?thesis
  proof (cases rule: advance_recvE)
    case (line line)
    then show ?thesis by (cases line) (auto simp: Q_Recv strtok_first_def split: prod.split)
  qed (simp add: Q_Recv)
next
  case (Q_Cached a)
  with assms show ?thesis by (auto simp: bind_eq_Some_conv split: if_splits)
next
  case (Q_Forward pr)
  with assms show ?thesis by (auto simp: bind_eq_Some_conv split: if_splits option.splits)
next
  case (Q_Exchange server pr host port path)
  with assms show ?thesis by (auto simp: bind_eq_Some_conv Let_def split: if_splits)
next
  case (Q_Path l pr bytes line_end meth)
  with assms show ?thesis by (auto simp: bind_eq_Some_conv dest!: strtok_next_frame)
next
  case (Q_Version l pr bytes line_end meth path)
  with assms show ?thesis by (auto simp: bind_eq_Some_conv dest!: strtok_next_frame)
next
  case (Q_Copy l pr bytes line_end meth path version)
  with assms show ?thesis by (auto simp: bind_eq_Some_conv)
next
  case (Q_Lookup pr host port path)
  with assms obtain cached cache where
    "pc' = (case cached of None \<Rightarrow> Q_Connect pr host port path | Some a \<Rightarrow> Q_Cached a)"
    "sh' = sh\<lparr>sh_px := (sh_px sh)\<lparr>px_cache := cache\<rparr>\<rparr>" by (auto simp: bind_eq_Some_conv Let_def)
  with Q_Lookup show ?thesis by (cases cached) simp_all
next
  case (Q_Connect pr host port path)
  with assms show ?thesis by (auto split: prod.splits if_splits)
next
  case (Q_Store server host port path response)
  with assms show ?thesis by (auto simp: bind_eq_Some_conv)
next
  case (Q_Return server host port)
  with assms show ?thesis by (auto split: prod.splits)
next
  case (Q_Finish res)
  with assms show ?thesis by (auto simp: bind_eq_Some_conv)
qed (use assms in simp)

lemma advance_cache:
  assumes "advance env client sh pc = Some (pc', sh', evs)" and "\<not> calls_cache pc"
  shows "px_cache (sh_px sh') = px_cache (sh_px sh)" and "pc' \<noteq> Q_Cached a"
proof -
  have "px_cache (sh_px sh') = px_cache (sh_px sh) \<and> pc' \<noteq> Q_Cached a"
  proof (cases pc)
    case Q_Recv
    from assms(1) [unfolded Q_Recv] show ?thesis
    proof (cases rule: advance_recvE)
      case (line line)
      then show ?thesis by (cases line) (auto simp: strtok_first_def split: prod.split)
    qed simp
  qed (use assms in \<open>auto simp: bind_eq_Some_conv strtok_next_def Let_def split: if_splits option.splits prod.splits\<close>)
  then show "px_cache (sh_px sh') = px_cache (sh_px sh)" "pc' \<noteq> Q_Cached a" by simp_all
qed

subsection \<open>The invariant\<close>

text \<open>A node that was given to a request is still where at most as many calls have pushed it as there
  have been since.\<close>

definition node_kept :: "server \<Rightarrow> request \<Rightarrow> addr \<Rightarrow> bool" where
  "node_kept s r a \<longleftrightarrow> rq_seen r \<le> sv_calls s \<and>
     (\<forall>c. px_cache (sh_px (sv_sh s)) = Some c \<longrightarrow> int (sv_calls s - rq_seen r) < max_size c \<longrightarrow>
       (\<exists>ys zs. cache_addrs c = ys @ a # zs \<and> length ys \<le> sv_calls s - rq_seen r \<and> pointee c a = rq_bytes r))"

definition request_inv :: "server \<Rightarrow> request \<Rightarrow> bool" where
  "request_inv s r \<longleftrightarrow> env_ok (rq_env r) \<and> pc_typed (rq_pc r) \<and> (\<forall>a. rq_pc r = Q_Cached a \<longrightarrow> node_kept s r a)"

definition own_line :: "server \<Rightarrow> nat \<Rightarrow> nat option" where
  "own_line s w = do { r \<leftarrow> sv_run s w; line_of (rq_pc r) }"

definition inv_lines :: "server \<Rightarrow> bool" where
  "inv_lines s \<longleftrightarrow> sh_lines (sv_sh s) = ran (own_line s) \<and> (\<forall>l \<in> sh_lines (sv_sh s). l < sh_next (sv_sh s))
     \<and> inj_on (own_line s) (dom (own_line s))"

definition server_inv :: "server \<Rightarrow> bool" where
  "server_inv s \<longleftrightarrow> tp_reachable False (sv_tp s) \<and> (\<forall>w. sv_run s w \<noteq> None \<longleftrightarrow> handles (sv_tp s) w)
     \<and> (if sv_up s then proxy_typed (sh_px (sv_sh s)) else main (sv_tp s) = M_Done)
     \<and> (\<forall>w r. sv_run s w = Some r \<longrightarrow> request_inv s r) \<and> inv_lines s"

lemma done_no_handlers:
  assumes "tp_reachable False t" and "main t = M_Done"
  shows "\<not> handles t w"
proof -
  from tp_reachable_inv [OF assms(1)] obtain as where "tp_inv t as" ..
  with assms(2) have "\<forall>pc \<in> set (workers t). pc = W_Exit" by (auto simp: tp_inv_def inv_phase_def)
  then have "pc = W_Exit" if "pc_is t w pc" for pc using that pc_is_in by blast
  then show ?thesis by (auto simp: handles_def)
qed

lemma worker_step_main: "worker_step w t t' \<Longrightarrow> main t' = main t"
  by (erule worker_step.cases) (auto simp: goto_def)

lemma main_done_stuck: "main_step sig t t' \<Longrightarrow> main t \<noteq> M_Done"
  by (erule main_step.cases) auto

subsection \<open>Requests keep the invariant\<close>

lemma advance_call:
  assumes a: "advance env client sh pc = Some (pc', sh', evs)" and "calls_cache pc"
    and c: "px_cache (sh_px sh) = Some c" "cache_typed c" and "env_ok env" and t: "pc_typed pc"
  shows "\<exists>x c'. call_ok x \<and> (\<forall>now. x \<noteq> CacheExpire now) \<and> cache_call_step x c = Some c' \<and> px_cache (sh_px sh') = Some c'
     \<and> (\<forall>a. pc' = Q_Cached a \<longrightarrow> (\<exists>zs. cache_addrs c' = a # zs))"
proof (cases pc)
  case (Q_Lookup pr host port path)
  have i: "cache_inv c" using c(2) by (simp add: cache_typed_def)
  from cache_get_ok [OF i, of "env_t_lookup env" "snprintf_text 512 path"] obtain q c' where
    g: "cache_get (env_t_lookup env) (Some c) (Some (snprintf_text 512 path)) = Some (q, Some c')" by blast
  from a Q_Lookup c(1) g have s: "sh' = sh\<lparr>sh_px := (sh_px sh)\<lparr>px_cache := Some c'\<rparr>\<rparr>"
    "pc' = (case q of None \<Rightarrow> Q_Connect pr host port path | Some a \<Rightarrow> Q_Cached a)" by (auto simp: Let_def)
  have "\<exists>zs. cache_addrs c' = a # zs" if "pc' = Q_Cached a" for a
    using that s(2) g cache_get_hit_head [OF i, of "env_t_lookup env" "snprintf_text 512 path" a c'] by (cases q) auto
  with s(1) g show ?thesis
    by (intro exI [of _ "CacheGet (env_t_lookup env) (snprintf_text 512 path)"] exI [of _ c']) (simp add: cache_call_step_def)
next
  case (Q_Store server host port path response)
  have "length (snprintf_text 512 path) \<le> 511" by (simp add: snprintf_text_def)
  moreover have f: "alloc_fresh (malloc_node (env_cache_mem env))" using assms(5) by (simp add: env_ok_def)
  ultimately obtain res c' where
    s: "cache_add (env_cache_mem env) (env_t_store env) (Some c) (Some (snprintf_text 512 path)) (Some response)
      (int (length response)) = Some (res, Some c')"
    using add_typed [OF c(2), of "env_cache_mem env" "snprintf_text 512 path" response "env_t_store env"] t Q_Store by auto
  with a Q_Store c(1) f show ?thesis
    by (intro exI [of _ "CacheAdd (env_cache_mem env) (env_t_store env) (snprintf_text 512 path) response (int (length response))"]
        exI [of _ c']) (auto simp: cache_call_step_def)
qed (use assms(2) in simp_all)

lemma node_kept_moved:
  assumes k: "node_kept s r a" and g: "proxy_typed (sh_px (sv_sh s))"
    and q: "advance (rq_env q) (rq_client q) (sv_sh s) (rq_pc q) = Some (pc, sh, evs)" "request_inv s q"
  shows "node_kept (moved s w q pc sh) r a"
proof (cases "calls_cache (rq_pc q)")
  case False
  with k advance_cache(1) [OF q(1)] show ?thesis by (simp add: node_kept_def)
next
  case True
  from g obtain c where c: "px_cache (sh_px (sv_sh s)) = Some c" "cache_typed c" by (auto simp: proxy_typed_def)
  have i: "cache_inv c" using c(2) by (simp add: cache_typed_def)
  from q(2) have "env_ok (rq_env q)" "pc_typed (rq_pc q)" by (simp_all add: request_inv_def)
  from advance_call [OF q(1) True c this] obtain x c' where
    x: "call_ok x" "\<forall>now. x \<noteq> CacheExpire now" "cache_call_step x c = Some c'" "px_cache (sh_px sh) = Some c'" by blast
  have seen: "rq_seen r \<le> sv_calls s" using k by (simp add: node_kept_def)
  have "\<exists>ys zs. cache_addrs c' = ys @ a # zs \<and> length ys \<le> Suc (sv_calls s) - rq_seen r \<and> pointee c' a = rq_bytes r"
    if room: "int (Suc (sv_calls s) - rq_seen r) < max_size c'"
  proof -
    have m: "max_size c' = max_size c" using cache_call_step_ok [OF i x(1)] x(3) by auto
    with k c(1) room seen obtain ys zs where ys: "cache_addrs c = ys @ a # zs" "length ys \<le> sv_calls s - rq_seen r"
      "pointee c a = rq_bytes r" by (force simp: node_kept_def)
    have "int (Suc (length ys)) < max_size c" using ys(2) room m seen by linarith
    from call_keeps_pointer [OF i x(1,2) ys(1) this] x(3) obtain ys' zs' where
      "cache_addrs c' = ys' @ a # zs'" "length ys' \<le> Suc (length ys)" "pointee c' a = pointee c a" by auto
    moreover from this ys(2) seen have "length ys' \<le> Suc (sv_calls s) - rq_seen r" by linarith
    ultimately show ?thesis using ys(3) by auto
  qed
  with True x(4) seen show ?thesis by (simp add: node_kept_def)
qed

lemma own_line_tp [simp]: "own_line (s\<lparr>sv_tp := tp\<rparr>) = own_line s"
  by (simp add: own_line_def fun_eq_iff)

lemma inv_lines_cong: "sv_sh s' = sv_sh s \<Longrightarrow> own_line s' = own_line s \<Longrightarrow> inv_lines s' = inv_lines s"
  by (simp add: inv_lines_def)

lemma inv_lines_new:
  assumes "inv_lines s" and "own_line s w = None" and "own_line s' = (own_line s)(w \<mapsto> sh_next (sv_sh s))"
    and "sh_lines (sv_sh s') = insert (sh_next (sv_sh s)) (sh_lines (sv_sh s))" "sh_next (sv_sh s') = Suc (sh_next (sv_sh s))"
  shows "inv_lines s'"
proof -
  have new: "sh_next (sv_sh s) \<notin> ran (own_line s)" and "inj_on (own_line s) (dom (own_line s))"
    using assms(1) by (auto simp: inv_lines_def)
  then have "inj_on (own_line s') (dom (own_line s'))"
    using assms(2) unfolding assms(3) by (auto simp: inj_on_def ran_def dom_def)
  with assms show ?thesis by (auto simp: inv_lines_def less_Suc_eq)
qed

lemma inv_lines_drop:
  assumes i: "inv_lines s" and l: "own_line s w = Some l" and "own_line s' = (own_line s)(w := None)"
    and "sh_lines (sv_sh s') = sh_lines (sv_sh s) - {l}" "sh_next (sv_sh s') = sh_next (sv_sh s)"
  shows "inv_lines s'"
proof -
  have inj: "inj_on (own_line s) (dom (own_line s))" using i by (simp add: inv_lines_def)
  have only: "own_line s v = Some l \<longleftrightarrow> v = w" for v using inj_onD [OF inj, of v w] l by auto
  have "x \<in> ran ((own_line s)(w := None)) \<longleftrightarrow> x \<in> ran (own_line s) - {l}" for x
    using only l by (auto simp: ran_def split: if_splits) (metis option.inject)
  then have "ran ((own_line s)(w := None)) = ran (own_line s) - {l}" by blast
  moreover have "inj_on ((own_line s)(w := None)) (dom ((own_line s)(w := None)))"
    using inj_onD [OF inj] by (intro inj_onI) (auto split: if_splits)
  ultimately show ?thesis using i assms(3-5) by (auto simp: inv_lines_def)
qed

lemma request_inv_cong:
  "sv_calls s' = sv_calls s \<Longrightarrow> px_cache (sh_px (sv_sh s')) = px_cache (sh_px (sv_sh s)) \<Longrightarrow> request_inv s' r = request_inv s r"
  by (simp add: request_inv_def node_kept_def)

lemma request_moves:
  assumes i: "server_inv s" and run: "sv_run s w = Some r"
    and a: "advance (rq_env r) (rq_client r) (sv_sh s) (rq_pc r) = Some (pc, sh, evs)"
  shows "server_inv (moved s w r pc sh)"
proof -
  let ?s = "moved s w r pc sh"
  have h: "handles (sv_tp s) w" and t: "tp_reachable False (sv_tp s)" using i run by (auto simp: server_inv_def)
  then have up: "sv_up s" using i done_no_handlers [OF t] by (auto simp: server_inv_def split: if_splits)
  then have g: "proxy_typed (sh_px (sv_sh s))" using i by (simp add: server_inv_def)
  have r: "request_inv s r" "env_ok (rq_env r)" "pc_typed (rq_pc r)" using i run by (auto simp: server_inv_def request_inv_def)
  from advance_typed [OF a g r(3,2)] have g': "proxy_typed (sh_px sh)" "pc_typed pc" by simp_all
  have mine: "request_inv ?s r'" if n: "sv_run ?s w = Some r'" for r'
  proof -
    have "node_kept ?s r' x" if x: "pc = Q_Cached x" for x
    proof -
      have call: "calls_cache (rq_pc r)" using advance_cache(2) [OF a] x by blast
      from g obtain c where c: "px_cache (sh_px (sv_sh s)) = Some c" "cache_typed c" by (auto simp: proxy_typed_def)
      from advance_call [OF a call c r(2,3)] x obtain c' zs where "px_cache (sh_px sh) = Some c'" "cache_addrs c' = x # zs" by blast
      with moved_request [OF n] x show ?thesis by (auto simp: node_kept_def bytes_at_def)
    qed
    with moved_request [OF n] r(2) g'(2) show ?thesis by (simp add: request_inv_def)
  qed
  have others: "request_inv ?s q" if v: "v \<noteq> w" "sv_run s v = Some q" for v q
  proof -
    have "request_inv s q" using i v(2) by (auto simp: server_inv_def)
    with node_kept_moved [OF _ g a r(1)] show ?thesis by (auto simp: request_inv_def)
  qed
  have "own_line ?s = (own_line s)(w := line_of pc)"
    by (auto simp: own_line_def moved_def Let_def fun_eq_iff split: req_pc.split)
  moreover have "own_line s w = line_of (rq_pc r)" using run by (simp add: own_line_def)
  moreover have "(own_line s)(w := own_line s w) = own_line s" by simp
  moreover have "inv_lines s" using i by (simp add: server_inv_def)
  ultimately have o: "own_line ?s = (own_line s)(w := line_of pc)" "own_line s w = line_of (rq_pc r)"
      "(own_line s)(w := own_line s w) = own_line s" "inv_lines s" by simp_all
  from advance_lines [OF a] have "inv_lines ?s"
  proof (elim disjE exE conjE)
    assume "line_of (rq_pc r) = None" "line_of pc = Some (sh_next (sv_sh s))"
      "sh_lines sh = insert (sh_next (sv_sh s)) (sh_lines (sv_sh s))" "sh_next sh = Suc (sh_next (sv_sh s))"
    with o(1,2) inv_lines_new [OF o(4), of w ?s] show ?thesis by simp
  next
    fix l
    assume "line_of (rq_pc r) = Some l" "line_of pc = None" "sh_lines sh = sh_lines (sv_sh s) - {l}" "sh_next sh = sh_next (sv_sh s)"
    with o(1,2) inv_lines_drop [OF o(4), of w l ?s] show ?thesis by simp
  qed (use o in \<open>simp_all add: inv_lines_def\<close>)
  with i g' up mine others h show ?thesis
    unfolding server_inv_def by (auto simp: run) (metis moved_simps(5))
qed

lemma server_step_inv: "server_step False s s' \<Longrightarrow> server_inv s \<Longrightarrow> server_inv s'"
proof (induction rule: server_step.induct)
  case (s_main s tp)
  then have tp: "tp_reachable False tp" by (auto simp: server_inv_def intro: tp_next by_main)
  moreover have "request_inv (s\<lparr>sv_tp := tp\<rparr>) r = request_inv s r" for r by (rule request_inv_cong) simp_all
  ultimately show ?case using s_main handles_main [OF s_main.hyps] main_done_stuck [OF s_main.hyps]
      inv_lines_cong [of "s\<lparr>sv_tp := tp\<rparr>" s]
    by (auto simp: server_inv_def)
next
  case (s_queue s w pc tp)
  then have tp: "tp_reachable False tp" by (auto simp: server_inv_def intro: tp_next by_worker)
  have h: "handles tp v = handles (sv_tp s) v" for v
    using handles_other [OF s_queue.hyps(3), of v] handles_self [OF s_queue.hyps(3,1)] s_queue.hyps(1,2)
    by (cases "v = w") (auto simp: handles_def pc_is_def)
  have "request_inv (s\<lparr>sv_tp := tp\<rparr>) r = request_inv s r" for r by (rule request_inv_cong) simp_all
  with tp h s_queue.prems worker_step_main [OF s_queue.hyps(3)] inv_lines_cong [of "s\<lparr>sv_tp := tp\<rparr>" s]
  show ?case by (simp add: server_inv_def)
next
  case (s_request s w r pc sh evs)
  from request_moves [OF s_request.prems s_request.hyps(1,3)] show ?case .
next
  case (s_destroy s g nodes evs)
  have none: "sv_run s w = None" for w
    using s_destroy done_no_handlers [of "sv_tp s" w] by (auto simp: server_inv_def)
  let ?s = "s\<lparr>sv_up := False, sv_sh := (sv_sh s)\<lparr>sh_px := g\<rparr>\<rparr>"
  from none have l: "own_line s = Map.empty" "own_line ?s = Map.empty" by (simp_all add: own_line_def fun_eq_iff)
  then have "inv_lines ?s" using s_destroy by (auto simp: server_inv_def inv_lines_def)
  with none s_destroy show ?case by (auto simp: server_inv_def)
next
  case (s_begin s w a tp env silent)
  let ?r = "(new_request env (sock_of (sv_tp s) a))\<lparr>rq_silent := silent\<rparr>"
  let ?s = "s\<lparr>sv_tp := tp, sv_run := (sv_run s)(w \<mapsto> ?r)\<rparr>"
  have tp: "tp_reachable False tp" using s_begin by (auto simp: server_inv_def intro: tp_next by_worker)
  have "\<not> handles (sv_tp s) w" using s_begin.hyps(1) by (auto simp: handles_def pc_is_unique)
  then have no: "sv_run s w = None" using s_begin.prems by (auto simp: server_inv_def)
  have "handles tp v \<longleftrightarrow> v = w \<or> handles (sv_tp s) v" for v
    using handles_other [OF s_begin.hyps(2), of v] handles_self [OF s_begin.hyps(2,1)] by auto
  moreover have r: "request_inv ?s r = request_inv s r" for r by (rule request_inv_cong) simp_all
  moreover have "request_inv ?s ?r"
    using s_begin.hyps(3) by (simp add: request_inv_def new_request_def)
  moreover have "inv_lines ?s = inv_lines s"
    by (rule inv_lines_cong) (auto simp: own_line_def fun_eq_iff no new_request_def)
  ultimately show ?case using tp s_begin.prems worker_step_main [OF s_begin.hyps(2)]
    by (auto simp: server_inv_def)
next
  case (s_end s w r tp)
  let ?s = "s\<lparr>sv_tp := tp, sv_run := (sv_run s)(w := None)\<rparr>"
  have tp: "tp_reachable False tp" using s_end by (auto simp: server_inv_def intro: tp_next by_worker)
  have "handles (sv_tp s) w" using s_end.hyps(1) s_end.prems by (auto simp: server_inv_def)
  then obtain a where a: "pc_is (sv_tp s) w (W_Handle a)" by (auto simp: handles_def)
  have "handles tp v \<longleftrightarrow> v \<noteq> w \<and> handles (sv_tp s) v" for v
    using handles_other [OF s_end.hyps(3), of v] handles_self [OF s_end.hyps(3) a] by auto
  moreover have r: "request_inv ?s r = request_inv s r" for r by (rule request_inv_cong) simp_all
  moreover have "inv_lines ?s = inv_lines s"
    by (rule inv_lines_cong) (auto simp: own_line_def fun_eq_iff s_end.hyps(1,2))
  ultimately show ?case using tp s_end.prems worker_step_main [OF s_end.hyps(3)]
    by (auto simp: server_inv_def)
qed

lemma init_typed:
  assumes "proxy_server_init ie g0 = (0, g)"
  shows "proxy_typed g"
proof -
  from proxy_server_init_ok [OF assms] have i: "proxy_inv g" by simp
  from assms obtain c p where g: "px_cache g = Some c" "px_conns g = Some p"
    and c: "(case ie_cache ie of (m1, m2, mi) \<Rightarrow> cache_create m1 m2 mi) = Some c"
    and p: "(case ie_conns ie of (m, mi) \<Rightarrow> connection_pool_create m mi (int MAX_POOL_SIZE)) = Some p"
    by (auto simp: proxy_server_init_def Let_def split: if_splits)
  from c have "cache_repr c [] (\<lambda>_. [])" "max_size c = CACHE_SIZE" by (auto dest: cache_create_ok split: prod.splits)
  then have "cache_abs c = []" "max_size c = CACHE_SIZE" using cache_addrs_repr by (auto simp: cache_abs_def)
  moreover from p have "connections p = replicate MAX_POOL_SIZE empty_slot"
    by (auto simp: connection_pool_create_def split: prod.splits if_splits)
  ultimately show ?thesis using i g by (auto simp: proxy_typed_def proxy_inv_def cache_typed_def pool_typed_def)
qed

lemma server_reachable_inv: "server_reachable False s \<Longrightarrow> server_inv s"
proof (induction rule: server_reachable.induct)
  case (sv_start ie g)
  have "\<not> handles tp_init w" for w by (auto simp: handles_def pc_is_def tp_init_def)
  moreover have "own_line (server_start g) = Map.empty" by (simp add: own_line_def server_start_def fun_eq_iff)
  ultimately show ?case using init_typed [OF sv_start] tp_start
    by (simp add: server_inv_def server_start_def inv_lines_def)
qed (rule server_step_inv)

subsection \<open>A request that is running\<close>

lemma running_request:
  assumes i: "server_inv s" and run: "sv_run s w = Some r"
  shows "handles (sv_tp s) w" "tp_reachable False (sv_tp s)" "sv_up s" "proxy_typed (sh_px (sv_sh s))"
    "env_ok (rq_env r)" "pc_typed (rq_pc r)" "request_inv s r"
proof -
  show h: "handles (sv_tp s) w" and t: "tp_reachable False (sv_tp s)" using i run by (auto simp: server_inv_def)
  then show up: "sv_up s" using i done_no_handlers [OF t] by (auto simp: server_inv_def split: if_splits)
  show "proxy_typed (sh_px (sv_sh s))" using i up by (simp add: server_inv_def)
  show r: "request_inv s r" using i run by (auto simp: server_inv_def)
  from r show "env_ok (rq_env r)" "pc_typed (rq_pc r)" by (simp_all add: request_inv_def)
qed

lemma stuck_request:
  assumes i: "server_inv s" and run: "sv_run s w = Some r" and "rq_pc r \<noteq> Q_Done"
    and "advance (rq_env r) (rq_client r) (sv_sh s) (rq_pc r) = None"
  shows "undefined_step (sv_sh s) (rq_pc r)"
  using undefined_advance [OF assms(4)] running_request [OF i run] assms(3) by blast

lemma destroy_defined:
  assumes "server_inv s" and "sv_up s"
  shows "proxy_server_shutdown ((sh_px (sv_sh s))\<lparr>px_threads := None\<rparr>) =
    Some ((sh_px (sv_sh s))\<lparr>px_threads := None, px_cache := None, px_conns := None\<rparr>, Map.empty,
      connection_pool_destroy (px_conns (sh_px (sv_sh s))))"
proof -
  from assms obtain c where c: "px_cache (sh_px (sv_sh s)) = Some c" "cache_inv c"
    by (auto simp: server_inv_def proxy_typed_def cache_typed_def)
  from cache_inv_repr [OF c(2)] cache_destroy_ok c(1) show ?thesis by (auto simp: proxy_server_shutdown_def)
qed

end
