(* ===== verification/Server_Runs.thy ===== *)
theory Server_Runs
  imports Server Thread_Properties
begin

section \<open>Runs of the server\<close>

text \<open>
  Requests put into the server from the outside: an idle worker is given a client, a request is run
  to its end while the others stand still, a worker that is done becomes idle again. Every state
  of the thread pool, and every state that requests reach one after the other, is a state of the
  server.
\<close>

subsection \<open>Steps of one request in a row\<close>

inductive req_steps :: "request_env \<Rightarrow> int \<Rightarrow> shared \<Rightarrow> req_pc \<Rightarrow> shared \<Rightarrow> req_pc \<Rightarrow> bool" for env client where
  req_refl: "req_steps env client sh pc sh pc"
| req_step: "advance env client sh pc = Some (pc', sh', evs) \<Longrightarrow> req_steps env client sh' pc' sh'' pc'' \<Longrightarrow>
    req_steps env client sh pc sh'' pc''"

lemma run_request_steps:
  "run_request env client sh pc = Some (sh', evs) \<Longrightarrow> req_steps env client sh pc sh' Q_Done"
proof (induction env client sh pc arbitrary: evs rule: run_request.induct)
  case (1 env client sh pc)
  show ?case
  proof (cases "pc = Q_Done")
    case True
    with 1(2) show ?thesis by (auto intro: req_refl)
  next
    case False
    with 1(2) obtain pc1 sh1 evs1 evs2 where a: "advance env client sh pc = Some (pc1, sh1, evs1)"
        "run_request env client sh1 pc1 = Some (sh', evs2)"
      by (subst (asm) run_request.simps) (auto simp: bind_eq_Some_conv)
    from 1(1) [OF False a(1) refl refl a(2)] a(1) show ?thesis by (rule req_step [rotated])
  qed
qed

lemma not_silent: "\<not> rq_silent r \<Longrightarrow> \<not> recv_waits r"
  by (simp add: recv_waits_def split: option.split)

lemma server_runs:
  "req_steps env client sh pc sh' pc' \<Longrightarrow> server_reachable sig s \<Longrightarrow> sv_run s w = Some r \<Longrightarrow> rq_env r = env \<Longrightarrow>
    rq_client r = client \<Longrightarrow> sv_sh s = sh \<Longrightarrow> rq_pc r = pc \<Longrightarrow> \<not> rq_silent r \<Longrightarrow>
    \<exists>s' r'. server_reachable sig s' \<and> sv_run s' w = Some r' \<and> rq_env r' = env \<and> rq_client r' = client
      \<and> sv_sh s' = sh' \<and> rq_pc r' = pc' \<and> sv_tp s' = sv_tp s \<and> sv_up s' = sv_up s \<and> (\<forall>v. v \<noteq> w \<longrightarrow> sv_run s' v = sv_run s v) \<and> \<not> rq_silent r'"
proof (induction arbitrary: s r rule: req_steps.induct)
  case (req_refl sh pc)
  then show ?case by blast
next
  case (req_step sh pc pc' sh' evs sh'' pc'')
  let ?s = "moved s w r pc' sh'"
  have "server_step sig s ?s" using req_step.hyps(1) req_step.prems by (intro s_request) (auto simp: not_silent)
  from sv_next [OF req_step.prems(1) this] have r: "server_reachable sig ?s" .
  obtain r' where r': "sv_run ?s w = Some r'" by (auto simp: moved_def Let_def)
  from moved_request [OF r'] req_step.prems have m: "rq_env r' = env" "rq_client r' = client" "rq_pc r' = pc'" "\<not> rq_silent r'" by auto
  from req_step.IH [OF r r' m(1,2) _ m(3,4)] show ?case by auto
qed

subsection \<open>An idle worker gets a client\<close>

definition idle :: "tp_sys \<Rightarrow> bool" where
  "idle t \<longleftrightarrow> main t = M_Accept \<and> mutex t = None \<and> W_Wait \<notin> set (workers t)
     \<and> (\<exists>h. finite (dom h) \<and> pool t = \<lparr>task_queue_head = None, task_queue_tail = None, queue_size = 0, shutdown = 0, tasks = h\<rparr>)"

definition quiet_step :: "tp_sys \<Rightarrow> tp_sys \<Rightarrow> bool" where
  "quiet_step t t' \<longleftrightarrow> main_step False t t'
     \<or> (\<exists>w pc. pc_is t w pc \<and> (\<forall>a. pc \<noteq> W_Sem a \<and> pc \<noteq> W_Handle a) \<and> worker_step w t t')"

lemma quiet_server: "server_reachable False s \<Longrightarrow> quiet_step (sv_tp s) t \<Longrightarrow> server_reachable False (s\<lparr>sv_tp := t\<rparr>)"
  unfolding quiet_step_def using sv_next s_main s_queue by metis

lemma quiet_run:
  "quiet_step\<^sup>*\<^sup>* t t' \<Longrightarrow> server_reachable False s \<Longrightarrow> sv_tp s = t \<Longrightarrow> server_reachable False (s\<lparr>sv_tp := t'\<rparr>)"
proof (induction rule: rtranclp_induct)
  case (step t1 t2)
  from quiet_server [OF step.IH [OF step.prems], of t2] step.hyps(2) show ?case by simp
qed (metis server.surjective server.update_convs(1))

lemma five_steps: "R a b \<Longrightarrow> R b c \<Longrightarrow> R c d \<Longrightarrow> R d e \<Longrightarrow> R e f \<Longrightarrow> R\<^sup>*\<^sup>* a f"
  by (meson converse_rtranclp_into_rtranclp rtranclp.rtrancl_refl)

lemma idle_takes:
  assumes i: "idle t" and w: "pc_is t w W_Lock" and "0 < fd"
  shows "\<exists>t' a. quiet_step\<^sup>*\<^sup>* t t' \<and> idle t' \<and> workers t' = (workers t)[w := W_Sem a] \<and> sock_of t' a = fd
     \<and> semaphore t' = semaphore t"
proof -
  from i obtain h where t: "main t = M_Accept" "mutex t = None" "W_Wait \<notin> set (workers t)" "finite (dom h)"
      "pool t = \<lparr>task_queue_head = None, task_queue_tail = None, queue_size = 0, shutdown = 0, tasks = h\<rparr>"
    by (auto simp: idle_def)
  obtain a where a: "h a = None" using ex_new_if_finite [OF infinite_UNIV_nat t(4)] by (auto simp: dom_def)
  let ?al = "\<lambda>g :: task heap. if g a = None then Some a else None"
  let ?h = "h(a \<mapsto> \<lparr>client_socket = fd, t_next = None\<rparr>)"
  let ?q = "\<lambda>p n. \<lparr>task_queue_head = p, task_queue_tail = p, queue_size = n, shutdown = 0, tasks = ?h\<rparr>"
  let ?t1 = "t\<lparr>main := M_Lock a, pool := ?q None 0, accepted := accepted t @ [fd]\<rparr>"
  let ?t2 = "?t1\<lparr>main := M_Push a, mutex := Some By_Main\<rparr>"
  let ?t3 = "?t2\<lparr>main := M_Accept, pool := ?q (Some a) 1, mutex := None, workers := workers t, pushed := pushed ?t2 @ [sock_of ?t2 a]\<rparr>"
  let ?t4 = "goto w W_Check ?t3\<lparr>mutex := Some (By_Worker w)\<rparr>"
  let ?t5 = "goto w (W_Sem a) ?t4\<lparr>pool := ?q None 0, mutex := None, taken := taken ?t4 @ [sock_of ?t4 a]\<rparr>"
  have "main_step False t ?t1"
    using t a assms(3) by (intro m_accept [where al = ?al]) (auto simp: new_task_def alloc_fresh_def split: if_splits)
  moreover have "main_step False ?t1 ?t2" by (rule m_lock) (use t in simp_all)
  moreover have "main_step False ?t2 ?t3"
    by (rule m_push) (use t in \<open>auto simp: queue_push_def\<close>)
  moreover have "worker_step w ?t3 ?t4" by (rule w_lock) (use w in \<open>simp_all add: pc_is_def\<close>)
  moreover have "worker_step w ?t4 ?t5"
    by (rule w_take) (use w in \<open>auto simp: pc_is_def queue_take_def\<close>)
  moreover have "pc_is ?t3 w W_Lock" "pc_is ?t4 w W_Check" using w by (simp_all add: pc_is_def)
  ultimately have s: "quiet_step t ?t1" "quiet_step ?t1 ?t2" "quiet_step ?t2 ?t3" "quiet_step ?t3 ?t4" "quiet_step ?t4 ?t5"
    unfolding quiet_step_def by blast+
  from five_steps [of quiet_step, OF s] have "quiet_step\<^sup>*\<^sup>* t ?t5" .
  moreover have "idle ?t5" using t by (auto simp: idle_def dest!: in_set_update)
  moreover have "workers ?t5 = (workers t)[w := W_Sem a]" "sock_of ?t5 a = fd" "semaphore ?t5 = semaphore t"
    by (simp_all add: sock_of_def)
  ultimately show ?thesis by blast
qed

lemma semaphore_left:
  assumes "tp_reachable False t"
  shows "0 < semaphore t"
proof -
  from tp_reachable_inv [OF assms] obtain as where "inv_count t" by (auto simp: tp_inv_def)
  then show ?thesis using handling_tally [of "workers t"] by (simp add: inv_count_def NUM_WORKER_THREADS_def MAX_CLIENTS_def)
qed

lemma not_silent_request [simp]: "(new_request env fd)\<lparr>rq_silent := False\<rparr> = new_request env fd" "\<not> rq_silent (new_request env fd)"
  by (simp_all add: new_request_def)

lemma request_starts:
  assumes r: "server_reachable False s" and i: "idle (sv_tp s)" and w: "pc_is (sv_tp s) w W_Lock" and "0 < fd" "env_ok env"
    and "silent \<longrightarrow> env_client env = []"
  shows "\<exists>t a. server_reachable False (s\<lparr>sv_tp := t, sv_run := (sv_run s)(w \<mapsto> (new_request env fd)\<lparr>rq_silent := silent\<rparr>)\<rparr>) \<and> idle t
     \<and> workers t = (workers (sv_tp s))[w := W_Handle a]"
proof -
  from idle_takes [OF i w assms(4)] obtain t a where t: "quiet_step\<^sup>*\<^sup>* (sv_tp s) t" "idle t"
      "workers t = (workers (sv_tp s))[w := W_Sem a]" "sock_of t a = fd" by blast
  from quiet_run [OF t(1) r refl] have r1: "server_reachable False (s\<lparr>sv_tp := t\<rparr>)" .
  then have tp: "tp_reachable False t" using server_reachable_inv by (force simp: server_inv_def)
  have w': "pc_is t w (W_Sem a)" using w t(3) by (simp add: pc_is_def)
  let ?t = "goto w (W_Handle a) t\<lparr>semaphore := semaphore t - 1\<rparr>"
  have "worker_step w t ?t" using w' semaphore_left [OF tp] by (rule w_sem)
  from s_begin [of "s\<lparr>sv_tp := t\<rparr>" w a, simplified, OF w' this assms(5,6), of False] t(4)
  have "server_step False (s\<lparr>sv_tp := t\<rparr>) (s\<lparr>sv_tp := ?t, sv_run := (sv_run s)(w \<mapsto> (new_request env fd)\<lparr>rq_silent := silent\<rparr>)\<rparr>)" by simp
  from sv_next [OF r1 this] have "server_reachable False (s\<lparr>sv_tp := ?t, sv_run := (sv_run s)(w \<mapsto> (new_request env fd)\<lparr>rq_silent := silent\<rparr>)\<rparr>)" .
  moreover have "idle ?t" using t(2) by (auto simp: idle_def dest!: in_set_update)
  moreover have "workers ?t = (workers (sv_tp s))[w := W_Handle a]" by (simp add: t(3))
  ultimately show ?thesis by blast
qed

lemma handler_frees:
  assumes "tp_reachable False t" and w: "pc_is t w (W_Handle a)"
  shows "\<exists>p. free_task a (pool t) = Some p"
proof -
  from tp_reachable_inv [OF assms(1)] obtain as where i: "inv_tasks t as" by (auto simp: tp_inv_def)
  have "a \<in># tally pc_addrs (workers t)" by (rule pc_addrs_tally [OF w]) simp
  with tasks_apart [OF i] have "a \<in> dom (tasks (pool t))" by simp
  then show ?thesis by (auto simp: free_task_def mem_simps)
qed

lemma request_ends:
  assumes r: "server_reachable False s" and i: "idle (sv_tp s)" and run: "sv_run s w = Some q" "rq_pc q = Q_Done"
  shows "\<exists>t. server_reachable False (s\<lparr>sv_tp := t, sv_run := (sv_run s)(w := None)\<rparr>) \<and> idle t
     \<and> workers t = (workers (sv_tp s))[w := W_Lock]"
proof -
  have inv: "server_inv s" using server_reachable_inv [OF r] .
  then have "handles (sv_tp s) w" "tp_reachable False (sv_tp s)" using run(1) by (auto simp: server_inv_def)
  then obtain a p where w: "pc_is (sv_tp s) w (W_Handle a)" "free_task a (pool (sv_tp s)) = Some p"
    using handler_frees by (force simp: handles_def)
  let ?t = "goto w W_Lock (sv_tp s)\<lparr>pool := p, semaphore := semaphore (sv_tp s) + 1, handled := handled (sv_tp s) @ [sock_of (sv_tp s) a]\<rparr>"
  have "worker_step w (sv_tp s) ?t" using w by (rule w_done)
  from sv_next [OF r s_end [OF run this]] have "server_reachable False (s\<lparr>sv_tp := ?t, sv_run := (sv_run s)(w := None)\<rparr>)" .
  moreover have "idle ?t" using i w(2)
    by (auto simp: idle_def free_task_def release_def dest!: in_set_update split: option.splits if_splits)
  ultimately show ?thesis by (intro exI [of _ ?t]) simp
qed

subsection \<open>Every state of the thread pool is a state of the server\<close>

definition silent_env :: request_env where
  "silent_env = plain_env [] [] 0"

lemma silent_env_simps [simp]: "env_ok silent_env" "receive_request silent_env client = Some (Inl (socket_close client))"
  by (simp_all add: silent_env_def receive_request_def plain_env_def env_ok_def MAX_REQUEST_SIZE_def)

definition all_done :: "server \<Rightarrow> bool" where
  "all_done s \<longleftrightarrow> sv_up s \<and> sv_sh s = sv_sh (server_start new_proxy) \<and> (\<forall>w r. sv_run s w = Some r \<longrightarrow> rq_pc r = Q_Done)"

lemma pool_step_lifts:
  assumes r: "server_reachable False s" and d: "all_done s" and step: "tp_step False (sv_tp s) t"
  shows "\<exists>s'. server_reachable False s' \<and> all_done s' \<and> sv_tp s' = t"
proof -
  have inv: "server_inv s" using server_reachable_inv [OF r] .
  have tp: "sv_tp (s\<lparr>sv_tp := t\<rparr>) = t" "all_done (s\<lparr>sv_tp := t\<rparr>)" using d by (simp_all add: all_done_def)
  from step consider "main_step False (sv_tp s) t" | w where "worker_step w (sv_tp s) t" by (auto simp: tp_step_iff)
  then show ?thesis
  proof cases
    case 1
    from sv_next [OF r s_main [OF 1]] tp show ?thesis by blast
  next
    case (2 w)
    then obtain pc where pc: "pc_is (sv_tp s) w pc" by cases (auto simp: pc_is_def)
    consider "\<forall>a. pc \<noteq> W_Sem a \<and> pc \<noteq> W_Handle a" | a where "pc = W_Sem a" | a where "pc = W_Handle a" by blast
    then show ?thesis
    proof cases
      case 1
      from sv_next [OF r s_queue [OF pc 1 2]] tp show ?thesis by blast
    next
      case (2 a)
      let ?r = "new_request silent_env (sock_of (sv_tp s) a)"
      let ?s = "s\<lparr>sv_tp := t, sv_run := (sv_run s)(w \<mapsto> ?r)\<rparr>"
      from s_begin [of s w a t silent_env False False] pc 2 \<open>worker_step w (sv_tp s) t\<close> have "server_step False s ?s" by simp
      from sv_next [OF r this] have r1: "server_reachable False ?s" .
      have a: "advance (rq_env ?r) (rq_client ?r) (sv_sh ?s) (rq_pc ?r) = Some (Q_Done, sv_sh ?s, socket_close (rq_client ?r))"
        by (simp add: new_request_def)
      have "sv_run ?s w = Some ?r" by simp
      from sv_next [OF r1 s_request [OF this not_silent [OF not_silent_request(2)] a]] have "server_reachable False (moved ?s w ?r Q_Done (sv_sh ?s))" .
      moreover have "all_done (moved ?s w ?r Q_Done (sv_sh ?s))"
        using d by (auto simp: all_done_def moved_def Let_def)
      ultimately show ?thesis by (intro exI [of _ "moved ?s w ?r Q_Done (sv_sh ?s)"]) simp
    next
      case (3 a)
      then have "handles (sv_tp s) w" using pc by (auto simp: handles_def)
      then obtain q where q: "sv_run s w = Some q" using inv by (force simp: server_inv_def)
      with d have "rq_pc q = Q_Done" by (auto simp: all_done_def)
      from sv_next [OF r s_end [OF q this 2]] d show ?thesis
        by (intro exI [of _ "s\<lparr>sv_tp := t, sv_run := (sv_run s)(w := None)\<rparr>"]) (simp add: all_done_def)
    qed
  qed
qed

lemma pool_state_lifts: "tp_reachable False t \<Longrightarrow> \<exists>s. server_reachable False s \<and> all_done s \<and> sv_tp s = t"
proof (induction rule: tp_reachable.induct)
  case tp_start
  have "server_reachable False (server_start new_proxy)" by (rule sv_start [OF new_proxy_init])
  then show ?case by (intro exI [of _ "server_start new_proxy"]) (simp add: all_done_def server_start_def)
next
  case (tp_next t t')
  then obtain s where s: "server_reachable False s" "all_done s" "sv_tp s = t" by blast
  from pool_step_lifts [OF s(1,2)] s(3) tp_next.hyps(2) show ?case by blast
qed

subsection \<open>Requests one after the other\<close>

text \<open>All workers idle, and no request running.\<close>

definition at_rest :: "server \<Rightarrow> bool" where
  "at_rest s \<longleftrightarrow> server_reachable False s \<and> idle (sv_tp s) \<and> sv_up s \<and> sv_run s = Map.empty
     \<and> workers (sv_tp s) = replicate NUM_WORKER_THREADS W_Lock"

lemma at_rest_start:
  assumes "proxy_server_init ie no_proxy = (0, g)"
  shows "at_rest (server_start g)"
  using sv_start [OF assms, of False] by (simp add: at_rest_def server_start_def idle_def tp_init_def)

lemma at_rest_begins:
  assumes "at_rest s" and "w < 4" and "0 < fd" "env_ok env"
  shows "\<exists>s'. server_reachable False s' \<and> idle (sv_tp s') \<and> sv_up s' \<and> sv_run s' = [w \<mapsto> new_request env fd] \<and> sv_sh s' = sv_sh s
     \<and> (\<exists>a. workers (sv_tp s') = (replicate 4 W_Lock)[w := W_Handle a])"
proof -
  from assms have r: "server_reachable False s" "idle (sv_tp s)" "pc_is (sv_tp s) w W_Lock"
    by (simp_all add: at_rest_def pc_is_def NUM_WORKER_THREADS_def)
  from request_starts [OF r assms(3,4), of False, simplified] obtain t a where
    "server_reachable False (s\<lparr>sv_tp := t, sv_run := (sv_run s)(w \<mapsto> new_request env fd)\<rparr>)" "idle t"
    "workers t = (workers (sv_tp s))[w := W_Handle a]" by auto
  with assms(1) show ?thesis
    by (intro exI [of _ "s\<lparr>sv_tp := t, sv_run := (sv_run s)(w \<mapsto> new_request env fd)\<rparr>"]) (auto simp: at_rest_def NUM_WORKER_THREADS_def)
qed

lemma one_request:
  assumes s: "at_rest s" and "0 < fd" "env_ok env" and h: "handle_client_request env (sh_px (sv_sh s)) fd = Some (g, evs)"
  shows "\<exists>s'. at_rest s' \<and> sh_px (sv_sh s') = g"
proof -
  from at_rest_begins [OF s _ assms(2,3), of 0] obtain s1 a where s1: "server_reachable False s1" "idle (sv_tp s1)" "sv_up s1"
    "sv_run s1 = [0 \<mapsto> new_request env fd]" "sv_sh s1 = sv_sh s" "workers (sv_tp s1) = (replicate 4 W_Lock)[0 := W_Handle a]" by auto
  from run_request_handle [of env fd "sv_sh s"] h obtain sh evs' where
    run: "run_request env fd (sv_sh s) Q_Recv = Some (sh, evs')" "sh_px sh = g" by (auto simp: px_result_def)
  from server_runs [OF run_request_steps [OF run(1)] s1(1), of 0 "new_request env fd"] s1(4,5) obtain s2 q where
    s2: "server_reachable False s2" "sv_run s2 0 = Some q" "rq_pc q = Q_Done" "sv_sh s2 = sh" "sv_tp s2 = sv_tp s1" "sv_up s2"
      "\<forall>v. v \<noteq> 0 \<longrightarrow> sv_run s2 v = None" using s1(3) by (auto simp: new_request_def)
  from request_ends [OF s2(1) _ s2(2,3)] s1(2) s2(5) obtain t where
    t: "server_reachable False (s2\<lparr>sv_tp := t, sv_run := (sv_run s2)(0 := None)\<rparr>)" "idle t"
      "workers t = (workers (sv_tp s1))[0 := W_Lock]" by auto
  have "(sv_run s2)(0 := None) = Map.empty" using s2(7) by auto
  moreover have "workers t = replicate 4 W_Lock" unfolding t(3) s1(6) by (simp add: numeral_eq_Suc)
  ultimately have "at_rest (s2\<lparr>sv_tp := t, sv_run := (sv_run s2)(0 := None)\<rparr>)"
    using t s2(6) by (simp add: at_rest_def NUM_WORKER_THREADS_def)
  then show ?thesis using run(2) s2(4) by (intro exI [of _ "s2\<lparr>sv_tp := t, sv_run := (sv_run s2)(0 := None)\<rparr>"]) simp
qed

lemma sequential_state_lifts: "proxy_reachable g \<Longrightarrow> \<exists>s. at_rest s \<and> sh_px (sv_sh s) = g"
proof (induction rule: proxy_reachable.induct)
  case (px_start ie g)
  from at_rest_start [OF px_start] show ?case by (intro exI [of _ "server_start g"]) (simp add: server_start_def)
next
  case (px_request g env client g' evs)
  then show ?case using one_request by blast
qed

subsection \<open>A request that is accepted\<close>

lemma req_steps_trans:
  "req_steps env client sh pc sh' pc' \<Longrightarrow> req_steps env client sh' pc' sh'' pc'' \<Longrightarrow> req_steps env client sh pc sh'' pc''"
  by (induction rule: req_steps.induct) (auto intro: req_step)

lemma parse_start_line:
  assumes "parse_start mem p b n = Some (Inr (q, bytes, line_end))"
  shows "q = p\<lparr>pr_buf := Some bytes, pr_buflen := n\<rparr>"
  using assms by (auto simp: parse_start_def Let_def split: if_splits option.splits)

lemma accepted_receives:
  assumes "accepts env sv pr"
  shows "\<exists>q bytes line_end meth saved. receive_request env client = Some (Inr (q, bytes, line_end))
     \<and> (\<exists>n. q = empty_request\<lparr>pr_buf := Some bytes, pr_buflen := n\<rparr>)
     \<and> (\<forall>sv'. strtok (Some (take line_end bytes)) CHR '' '' sv' = (meth, saved))
     \<and> (\<exists>saved'. parse_from_method (env_parse_mem env) q bytes line_end meth saved = Some (0, Some pr, saved'))"
proof -
  from assms obtain saved where p: "ParsedRequest_parse (env_parse_mem env) (Some empty_request) (Some (received env))
        (int (length (received env))) sv = Some (0, Some pr, saved)"
    and v: "validate_http_request (Some (cstr (received env))) (int (length (received env))) = 1" and c: "env_calloc env"
    by (auto simp: accepts_def)
  from p obtain q bytes line_end where
    st: "parse_start (env_parse_mem env) empty_request (received env) (int (length (received env))) = Some (Inr (q, bytes, line_end))"
    unfolding parse_start_parse by (auto split: option.splits sum.splits)
  obtain meth sv1 where t: "strtok (Some (take line_end bytes)) CHR '' '' sv = (meth, sv1)" by fastforce
  have "receive_request env client = Some (Inr (q, bytes, line_end))"
    using st v c validated_nonempty [OF v] by (auto simp: receive_request_def received_def ParsedRequest_create_def Let_def)
  moreover have "strtok (Some (take line_end bytes)) CHR '' '' sv' = (meth, sv1)" for sv'
    using t unfolding strtok_def by simp
  moreover have "parse_from_method (env_parse_mem env) q bytes line_end meth sv1 = Some (0, Some pr, saved)"
    using p unfolding parse_start_parse st by (simp add: t)
  ultimately show ?thesis using parse_start_line [OF st] by blast
qed

text \<open>The two tokens that a request line still needs, from wherever the saved position points to: its own
  line \<open>l\<close> is freed afterwards.\<close>

lemma tokens_taken:
  assumes "sh_saved_in sh = k" "k \<in> sh_lines sh"
    and "strtok None CHR '' '' (px_strtok (sh_px sh)) = (path, s1)" and "strtok None CHR '' '' s1 = (version, s2)"
    and f: "parse_fields (env_parse_mem env) q bytes line_end meth path version = Some pr"
  shows "req_steps env client sh (Q_Path l q bytes line_end meth)
     ((with_strtok sh s2)\<lparr>sh_lines := sh_lines sh - {l}\<rparr>) (Q_Forward pr)"
proof -
  let ?tok = "map_option (Pair k)"
  from strtok_next_alive [of sh path s1] assms have
    a1: "advance env client sh (Q_Path l q bytes line_end meth) =
      Some (Q_Version l q bytes line_end meth (?tok path), with_strtok sh s1, [])" by simp
  from strtok_next_alive [of "with_strtok sh s1" version s2] assms have
    a2: "advance env client (with_strtok sh s1) (Q_Version l q bytes line_end meth (?tok path)) =
      Some (Q_Copy l q bytes line_end meth (?tok path) (?tok version), with_strtok sh s2, [])" by simp
  have a3: "advance env client (with_strtok sh s2) (Q_Copy l q bytes line_end meth (?tok path) (?tok version)) =
      Some (Q_Forward pr, (with_strtok sh s2)\<lparr>sh_lines := sh_lines sh - {l}\<rparr>, [])" using assms by (simp add: token_text_alive)
  show ?thesis by (rule req_step [OF a1 req_step [OF a2 req_step [OF a3 req_refl]]])
qed

lemma accepted_parses:
  assumes "accepts env sv pr"
  shows "\<exists>sh'. req_steps env client sh Q_Recv sh' (Q_Forward pr) \<and> px_cache (sh_px sh') = px_cache (sh_px sh)
     \<and> px_conns (sh_px sh') = px_conns (sh_px sh) \<and> sh_saved_in sh' \<notin> sh_lines sh'"
proof -
  from accepted_receives [OF assms, of client] obtain q bytes line_end meth s0 s3 where
    r: "receive_request env client = Some (Inr (q, bytes, line_end))"
    and t0: "strtok (Some (take line_end bytes)) CHR '' '' (px_strtok (sh_px sh)) = (meth, s0)"
    and pf: "parse_from_method (env_parse_mem env) q bytes line_end meth s0 = Some (0, Some pr, s3)" by blast
  obtain path s1 where t1: "strtok None CHR '' '' s0 = (path, s1)" by fastforce
  obtain version s2 where t2: "strtok None CHR '' '' s1 = (version, s2)" by fastforce
  from pf t1 t2 have f: "parse_fields (env_parse_mem env) q bytes line_end meth path version = Some pr"
    by (simp add: parse_from_method_def)
  let ?l = "sh_next sh" and ?sh = "snd (strtok_first sh (q, bytes, line_end))"
  have sh: "sh_saved_in ?sh = ?l" "?l \<in> sh_lines ?sh" "sh_px ?sh = (sh_px sh)\<lparr>px_strtok := s0\<rparr>"
      "fst (strtok_first sh (q, bytes, line_end)) = Q_Path ?l q bytes line_end meth"
    using t0 by (simp_all add: strtok_first_def)
  have a0: "advance env client sh Q_Recv = Some (Q_Path ?l q bytes line_end meth, ?sh, [])" using r sh(4) by simp
  have "strtok None CHR '' '' (px_strtok (sh_px ?sh)) = (path, s1)" unfolding sh(3) by (simp add: t1)
  from req_step [OF a0 tokens_taken [OF sh(1,2) this t2 f]] sh(1,3) show ?thesis
    by (intro exI [of _ "(with_strtok ?sh s2)\<lparr>sh_lines := sh_lines ?sh - {?l}\<rparr>"]) simp
qed

subsection \<open>A new server\<close>

lemma new_server_rest: "at_rest (server_start new_proxy)"
  by (rule at_rest_start [OF new_proxy_init])

lemma new_server_reachable: "server_reachable False (server_start new_proxy)"
  using new_server_rest by (simp add: at_rest_def)

lemma new_server_first:
  assumes "0 < fd" and "env_ok env"
  shows "\<exists>s. server_reachable False s \<and> sv_run s 0 = Some (new_request env fd)"
  using at_rest_begins [OF new_server_rest _ assms, of 0] by auto

lemma new_server_two:
  assumes "env_ok env1" "env_ok env2" and "0 < client1" "0 < client2"
  shows "\<exists>s. server_reachable False s \<and> sv_run s 0 = Some (new_request env1 client1) \<and> sv_run s 1 = Some (new_request env2 client2)"
proof -
  from at_rest_begins [OF new_server_rest _ assms(3,1), of 0] obtain s1 a where s1: "server_reachable False s1" "idle (sv_tp s1)"
    "sv_run s1 = [0 \<mapsto> new_request env1 client1]" "workers (sv_tp s1) = (replicate 4 W_Lock)[0 := W_Handle a]" by auto
  have "pc_is (sv_tp s1) 1 W_Lock" by (simp add: pc_is_def s1(4))
  from request_starts [OF s1(1,2) this assms(4,2), of False, simplified] s1(3) obtain t where
    "server_reachable False (s1\<lparr>sv_tp := t, sv_run := (sv_run s1)(1 \<mapsto> new_request env2 client2)\<rparr>)" by auto
  then show ?thesis using s1(3) by fastforce
qed

end
