(* ===== verification/Bounded_Work.thy ===== *)
theory Bounded_Work
  imports Proxy_Prelude
begin

section \<open>Steps that use up a finite amount of work\<close>

text \<open>
  The interface through which the termination of the interleaved parts is shown. A system makes
  steps of its own, and from time to time something outside it gives it more to do. If each step
  of its own takes at least one unit off its work, and each event outside adds at most
  \<open>budget\<close> units, then no schedule makes more steps than the work there was and the work that was
  added, and no fairness is needed. \<open>bounded_progress\<close> adds what a state is like in which no step
  is left.
\<close>

inductive mixed_run :: "('s \<Rightarrow> 's \<Rightarrow> bool) \<Rightarrow> ('s \<Rightarrow> 's \<Rightarrow> bool) \<Rightarrow> nat \<Rightarrow> nat \<Rightarrow> 's \<Rightarrow> 's \<Rightarrow> bool" for own outside where
  run_none: "mixed_run own outside 0 0 s s"
| run_own: "mixed_run own outside n k s s' \<Longrightarrow> own s' s'' \<Longrightarrow> mixed_run own outside (Suc n) k s s''"
| run_outside: "mixed_run own outside n k s s' \<Longrightarrow> outside s' s'' \<Longrightarrow> mixed_run own outside n (Suc k) s s''"

lemma mixed_run_relpowp: "(own ^^ n) s s' \<Longrightarrow> mixed_run own outside n 0 s s'"
  by (induction n arbitrary: s') (auto intro: run_none run_own)

locale bounded_work =
  fixes ok :: "'s \<Rightarrow> bool" and own :: "'s \<Rightarrow> 's \<Rightarrow> bool" and outside :: "'s \<Rightarrow> 's \<Rightarrow> bool"
    and work :: "'s \<Rightarrow> nat" and budget :: nat
  assumes own_ok: "ok s \<Longrightarrow> own s s' \<Longrightarrow> ok s'" and outside_ok: "ok s \<Longrightarrow> outside s s' \<Longrightarrow> ok s'"
    and own_work: "ok s \<Longrightarrow> own s s' \<Longrightarrow> work s' < work s"
    and outside_work: "ok s \<Longrightarrow> outside s s' \<Longrightarrow> work s' \<le> work s + budget"
begin

lemma run_bounded:
  "mixed_run own outside n k s s' \<Longrightarrow> ok s \<Longrightarrow> ok s' \<and> n + work s' \<le> work s + budget * k"
proof (induction rule: mixed_run.induct)
  case (run_own n k s s' s'')
  then show ?case using own_ok own_work [of s' s''] by force
next
  case (run_outside n k s s' s'')
  then show ?case using outside_ok outside_work [of s' s''] by force
qed simp

lemma own_run_bounded: "(own ^^ n) s s' \<Longrightarrow> ok s \<Longrightarrow> ok s' \<and> n + work s' \<le> work s"
  using run_bounded [OF mixed_run_relpowp] by fastforce

lemma settles: "ok s \<Longrightarrow> \<exists>s'. own\<^sup>*\<^sup>* s s' \<and> (\<nexists>s''. own s' s'')"
proof (induction "work s" arbitrary: s rule: less_induct)
  case less
  show ?case
  proof (cases "\<exists>t. own s t")
    case True
    then obtain t where t: "own s t" ..
    from less.hyps [OF own_work [OF less.prems t] own_ok [OF less.prems t]] obtain s' where
      "own\<^sup>*\<^sup>* t s'" "\<nexists>s''. own s' s''" by blast
    with t show ?thesis by (meson converse_rtranclp_into_rtranclp)
  qed blast
qed

lemma no_endless_run:
  assumes "ok (f 0)"
  shows "\<exists>i. \<not> own (f i) (f (Suc i))"
proof (rule ccontr)
  assume "\<nexists>i. \<not> own (f i) (f (Suc i))"
  then have "(own ^^ n) (f 0) (f n)" for n by (induction n) auto
  from own_run_bounded [OF this [of "Suc (work (f 0))"] assms] show False by simp
qed

end

locale bounded_progress = bounded_work +
  fixes settled :: "'a \<Rightarrow> bool"
  assumes stops: "ok s \<Longrightarrow> \<nexists>s'. own s s' \<Longrightarrow> settled s"
begin

lemma serves:
  assumes "ok s"
  shows "(\<forall>n s'. (own ^^ n) s s' \<longrightarrow> n \<le> work s \<and> ((\<nexists>s''. own s' s'') \<longrightarrow> settled s'))
     \<and> (\<exists>s'. own\<^sup>*\<^sup>* s s' \<and> settled s')"
proof -
  have "ok s' \<and> n \<le> work s" if "(own ^^ n) s s'" for n s'
    using own_run_bounded [OF that assms] by simp
  with stops have "\<forall>n s'. (own ^^ n) s s' \<longrightarrow> n \<le> work s \<and> ((\<nexists>s''. own s' s'') \<longrightarrow> settled s')" by blast
  moreover from this settles [OF assms] have "\<exists>s'. own\<^sup>*\<^sup>* s s' \<and> settled s'" by (meson rtranclp_imp_relpowp)
  ultimately show ?thesis ..
qed

end

end
