(* ===== verification/Pool_Work.thy ===== *)
theory Pool_Work
  imports Thread_Properties Bounded_Work
begin

section \<open>The work of the thread pool\<close>

text \<open>
  A measure of what the workers and the main thread have to do before they wait for something
  outside the program: a connection, a signal, or a wakeup that nobody sent. \<open>h\<close> is the number of
  steps that a request takes between \<open>sem_wait\<close> and \<open>sem_post\<close>; the pool alone counts none. A queued task weighs more than what it costs to take it, so
  every step of a worker that does not sleep, and of the main thread outside \<open>accept\<close>, lowers the
  measure.
\<close>

fun pc_work :: "nat \<Rightarrow> worker_pc \<Rightarrow> nat" where
  "pc_work h W_Lock = 2"
| "pc_work h W_Woken = 2"
| "pc_work h W_Check = 1"
| "pc_work h W_Wait = 0"
| "pc_work h W_Exit = 0"
| "pc_work h (W_Sem a) = 4 + h"
| "pc_work h (W_Handle a) = 3"

fun main_work :: "nat \<Rightarrow> main_pc \<Rightarrow> nat" where
  "main_work h M_Accept = 0"
| "main_work h (M_Lock a) = 8 + h"
| "main_work h (M_Push a) = 7 + h"
| "main_work h M_Shut = 11"
| "main_work h M_Join = 2"
| "main_work h M_Drain = 1"
| "main_work h M_Done = 0"

definition tp_work :: "nat \<Rightarrow> tp_sys \<Rightarrow> nat" where
  "tp_work h s = tally (pc_work h) (workers s) + (4 + h) * nat (queue_size (pool s)) + main_work h (main s)"

text \<open>What the program does by itself, and what comes from outside: the results of \<open>accept\<close>, the signal,
  and spurious wakeups.\<close>

inductive tp_own :: "tp_sys \<Rightarrow> tp_sys \<Rightarrow> bool" where
  own_worker: "worker_step w s s' \<Longrightarrow> \<not> pc_is s w W_Wait \<Longrightarrow> tp_own s s'"
| own_main: "main_step False s s' \<Longrightarrow> main s \<noteq> M_Accept \<Longrightarrow> tp_own s s'"

inductive tp_outside :: "tp_sys \<Rightarrow> tp_sys \<Rightarrow> bool" where
  outside_wakeup: "worker_step w s s' \<Longrightarrow> pc_is s w W_Wait \<Longrightarrow> tp_outside s s'"
| outside_main: "main_step False s s' \<Longrightarrow> main s = M_Accept \<Longrightarrow> tp_outside s s'"

lemma tp_step_own_outside: "tp_step False s s' \<longleftrightarrow> tp_own s s' \<or> tp_outside s s'"
  unfolding tp_step_iff tp_own.simps tp_outside.simps by blast

subsection \<open>Every own step takes work away\<close>

lemma pc_work_move:
  "pc_is s w pc \<Longrightarrow> tally (pc_work h) ((workers s)[w := pc']) + pc_work h pc = tally (pc_work h) (workers s) + pc_work h pc'"
  by (rule tally_goto)

lemma inv_queue: "tp_inv s as \<Longrightarrow> main s \<noteq> M_Done \<Longrightarrow> queue_repr (pool s) as"
  by (simp add: tp_inv_def inv_tasks_def)

lemma taken_size:
  assumes "queue_repr q as" and "queue_take q = Some (Some a, q')"
  shows "nat (queue_size q) = Suc (nat (queue_size q'))"
proof -
  from queue_take_ok [OF assms(1)] obtain q1 where q1: "queue_take q = Some (case as of [] \<Rightarrow> None | a # _ \<Rightarrow> Some a, q1)"
    "queue_repr q1 (tl as)" by blast
  with assms(2) have "q1 = q'" "as \<noteq> []" by (auto split: list.splits)
  with assms(1) q1(2) show ?thesis by (cases as) (auto simp: queue_repr_def)
qed

lemma pushed_size: "queue_push a q = Some q' \<Longrightarrow> queue_size q' = queue_size q + 1"
  by (auto simp: queue_push_def bind_eq_Some_conv split: option.splits if_splits)

lemma freed_size: "free_task a q = Some q' \<Longrightarrow> queue_size q' = queue_size q"
  by (auto simp: free_task_def bind_eq_Some_conv)

lemma worker_work:
  assumes i: "tp_inv s as" and step: "worker_step w s s'" and pc: "pc_is s w pc" and "pc \<noteq> W_Wait"
  shows "tp_work h s' + (case pc of W_Sem a \<Rightarrow> h | _ \<Rightarrow> 0) < tp_work h s"
  using step
proof cases
  case w_lock
  then show ?thesis using pc_work_move [OF pc, of h W_Check] pc by (auto simp: tp_work_def pc_is_unique [OF pc])
next
  case w_wait
  then show ?thesis using pc_work_move [OF pc, of h W_Wait] by (simp add: tp_work_def pc_is_unique [OF pc])
next
  case w_spurious
  then show ?thesis using assms(4) by (simp add: pc_is_unique [OF pc])
next
  case w_exit
  then show ?thesis using pc_work_move [OF pc, of h W_Exit] by (simp add: tp_work_def pc_is_unique [OF pc])
next
  case (w_take a p)
  then have "main s \<noteq> M_Done" using i by (auto simp: tp_inv_def inv_phase_def)
  from taken_size [OF inv_queue [OF i this] w_take(4)] w_take pc_work_move [OF pc, of h "W_Sem a"] show ?thesis
    by (simp add: tp_work_def pc_is_unique [OF pc])
next
  case (w_sem a)
  then have "pc = W_Sem a" by (simp add: pc_is_unique [OF pc])
  with w_sem pc_work_move [OF pc, of h "W_Handle a"] show ?thesis by (simp add: tp_work_def)
next
  case (w_done a p)
  then have "pc = W_Handle a" by (simp add: pc_is_unique [OF pc])
  with w_done pc_work_move [OF pc, of h W_Lock] freed_size [OF w_done(3)] show ?thesis by (simp add: tp_work_def)
qed

lemma tally_wake_all: "tally (pc_work h) (wake_all pcs) \<le> tally (pc_work h) pcs + 2 * length pcs"
  by (induction pcs) (auto simp: wake_all_def)

lemma main_work_less:
  assumes i: "tp_inv s as" and step: "main_step False s s'" and "main s \<noteq> M_Accept"
  shows "tp_work h s' < tp_work h s"
  using step
proof cases
  case (m_push a p pcs)
  have "main s \<noteq> M_Done" using m_push by simp
  from inv_queue [OF i this] have "0 \<le> queue_size (pool s)" by (simp add: queue_repr_def)
  then have q: "nat (queue_size p) = Suc (nat (queue_size (pool s)))" using pushed_size [OF m_push(3)] by simp
  have "tally (pc_work h) pcs \<le> tally (pc_work h) (workers s) + 2"
  proof (cases "W_Wait \<in> set (workers s)")
    case True
    with m_push obtain w where w: "pc_is s w W_Wait" "pcs = (workers s)[w := W_Woken]" by auto
    from pc_work_move [OF w(1), of h W_Woken] w(2) show ?thesis by simp
  qed (use m_push in simp)
  with m_push q show ?thesis by (simp add: tp_work_def)
next
  case m_shut
  have "length (workers s) = 4" using i by (simp add: tp_inv_def inv_count_def NUM_WORKER_THREADS_def)
  with m_shut tally_wake_all [of h "workers s"] show ?thesis by (simp add: tp_work_def)
qed (use assms(3) in \<open>simp_all add: tp_work_def\<close>)

lemma accepted_work:
  assumes "main_step False s s'" and "main s = M_Accept"
  shows "tp_work h s' \<le> tp_work h s + (11 + h)"
  using assms by cases (auto simp: tp_work_def new_task_def split: option.splits)

lemma spurious_work:
  assumes "worker_step w s s'" and w: "pc_is s w W_Wait"
  shows "tp_work h s' \<le> tp_work h s + 2"
proof -
  from assms have "s' = goto w W_Woken s" by cases (auto simp: pc_is_unique [OF w])
  with pc_work_move [OF w, of h W_Woken] show ?thesis by (simp add: tp_work_def)
qed

subsection \<open>Where the steps end\<close>

text \<open>Nothing left to do: the main thread waits for a connection and the workers for a task, or the
  pool is destroyed; every accepted socket is handled or closed.\<close>

definition tp_settled :: "tp_sys \<Rightarrow> bool" where
  "tp_settled s \<longleftrightarrow> (main s = M_Done \<or> main s = M_Accept \<and> (\<forall>pc \<in> set (workers s). pc = W_Wait)
       \<and> task_queue_head (pool s) = None)
     \<and> dom (tasks (pool s)) = {} \<and> mset (accepted s) = mset (refused s) + mset (handled s)"

lemma empty_socks:
  assumes i: "tp_inv s as" and "as = []" "tally pc_addrs (workers s) = {#}" "main_addrs (main s) = {#}"
  shows "dom (tasks (pool s)) = {} \<and> mset (accepted s) = mset (refused s) + mset (handled s)"
proof -
  have "mset_set (dom (tasks (pool s))) = {#}" "finite (dom (tasks (pool s)))"
    using i assms(2-4) by (simp_all add: tp_inv_def inv_tasks_def)
  then have d: "dom (tasks (pool s)) = {}" by (simp only: mset_set_empty_iff) simp
  with i show ?thesis by (simp add: tp_inv_def inv_socks_def)
qed

lemma no_step_sleeps:
  assumes i: "tp_inv s as" and m: "main s = M_Accept" and mx: "mutex s = None"
    and stop: "\<nexists>w s'. \<not> pc_is s w W_Wait \<and> worker_step w s s'"
  shows "\<forall>pc \<in> set (workers s). pc = W_Wait"
proof
  fix pc assume pc: "pc \<in> set (workers s)"
  have "pc \<noteq> W_Exit" using i m pc by (auto simp: tp_inv_def inv_phase_def)
  with awake_can_step [OF i mx pc] stop show "pc = W_Wait" by blast
qed

lemma tp_stops:
  assumes i: "tp_inv s as" and stop: "\<nexists>s'. tp_own s s'"
  shows "tp_settled s"
proof (cases "main s = M_Done")
  case True
  then have "\<forall>pc \<in> set (workers s). pc = W_Exit" using i by (simp add: tp_inv_def inv_phase_def)
  then have "tally pc_addrs (workers s) = {#}" by (intro tally_zero) auto
  moreover have "as = []" using i True by (simp add: tp_inv_def inv_tasks_def)
  ultimately show ?thesis using empty_socks [OF i] True by (simp add: tp_settled_def)
next
  case False
  from stop have w: "\<nexists>w s'. \<not> pc_is s w W_Wait \<and> worker_step w s s'" and m: "main s = M_Accept \<or> (\<nexists>s'. main_step False s s')"
    by (auto simp: tp_own.simps)
  then have "main s = M_Accept" and "mutex s = None"
    using pool_can_step [OF i False] holder_progress [OF i] by blast+
  then have all: "\<forall>pc \<in> set (workers s). pc = W_Wait" by (rule no_step_sleeps [OF i _ _ w])
  then have "tally awake (workers s) = 0" "tally pc_addrs (workers s) = {#}" by (auto intro!: tally_zero simp: awake_def)
  moreover have "shutdown (pool s) = 0" using i \<open>main s = M_Accept\<close> by (auto simp: tp_inv_def inv_phase_def)
  moreover have "W_Wait \<in> set (workers s)"
    using all i by (cases "workers s") (auto simp: tp_inv_def inv_count_def NUM_WORKER_THREADS_def)
  ultimately have "as = []" using i by (simp add: tp_inv_def inv_wake_def)
  then have "task_queue_head (pool s) = None" using inv_queue [OF i False] by (simp add: queue_repr_def)
  with empty_socks [OF i \<open>as = []\<close>] all \<open>main s = M_Accept\<close> \<open>tally pc_addrs _ = _\<close> show ?thesis
    by (simp add: tp_settled_def)
qed

subsection \<open>The interface\<close>

lemma tp_own_inv: "\<exists>as. tp_inv s as \<Longrightarrow> tp_own s s' \<Longrightarrow> \<exists>as. tp_inv s' as"
  using worker_step_inv main_step_inv by (auto simp: tp_own.simps)

lemma tp_outside_inv: "\<exists>as. tp_inv s as \<Longrightarrow> tp_outside s s' \<Longrightarrow> \<exists>as. tp_inv s' as"
  using worker_step_inv main_step_inv by (auto simp: tp_outside.simps)

lemma tp_own_work:
  assumes i: "tp_inv s as" and own: "tp_own s s'"
  shows "tp_work h s' < tp_work h s"
  using own
proof cases
  case (own_worker w)
  then obtain pc where pc: "pc_is s w pc" by (auto elim!: worker_step.cases)
  with own_worker(2) have "pc \<noteq> W_Wait" by auto
  from worker_work [OF i own_worker(1) pc this, of h] show ?thesis by simp
next
  case own_main
  with main_work_less [OF i] show ?thesis by blast
qed

lemma tp_outside_work: "tp_outside s s' \<Longrightarrow> tp_work h s' \<le> tp_work h s + (11 + h)"
  by (erule tp_outside.cases) (use accepted_work spurious_work [of _ _ _ h] in fastforce)+

interpretation pw: bounded_progress "\<lambda>s. \<exists>as. tp_inv s as" tp_own tp_outside "tp_work 0" 11 tp_settled
proof unfold_locales
  show "\<exists>as. tp_inv s as \<Longrightarrow> tp_own s s' \<Longrightarrow> tp_work 0 s' < tp_work 0 s" for s s' using tp_own_work by blast
  show "\<exists>as. tp_inv s as \<Longrightarrow> tp_outside s s' \<Longrightarrow> tp_work 0 s' \<le> tp_work 0 s + 11" for s s' using tp_outside_work [of s s' 0] by simp
  show "\<exists>as. tp_inv s as \<Longrightarrow> \<nexists>s'. tp_own s s' \<Longrightarrow> tp_settled s" for s using tp_stops by blast
qed (fact tp_own_inv tp_outside_inv)+

text \<open>The pool alone, with requests of one step: it comes to rest in every schedule, also in the middle of
  a shutdown.\<close>

lemma pool_serves:
  assumes "tp_reachable False s"
  shows "(\<forall>n s'. (tp_own ^^ n) s s' \<longrightarrow> n \<le> tp_work 0 s \<and> ((\<nexists>s''. tp_own s' s'') \<longrightarrow> tp_settled s'))
     \<and> (\<exists>s'. tp_own\<^sup>*\<^sup>* s s' \<and> tp_settled s')"
  by (rule pw.serves) (rule tp_reachable_inv [OF assms])

end
