(* ===== verification/Server_Work.thy ===== *)
theory Server_Work
  imports Server_Runs Pool_Work
begin

section \<open>The work of the server\<close>

text \<open>
  The measure of \<open>Pool_Work\<close> with the steps of the requests: a task still to be handled counts the
  eleven steps its request may take, a running request those it has left. The environment adds to
  it by a connection, the signal, or a spurious wakeup; a failed \<open>accept\<close> is an event too, but adds
  nothing; every other step of the server takes away.
\<close>

definition run_work :: "(nat \<Rightarrow> request option) \<Rightarrow> nat" where
  "run_work run = (\<Sum>w < NUM_WORKER_THREADS. case run w of None \<Rightarrow> 0 | Some r \<Rightarrow> steps_left (rq_pc r))"

definition server_work :: "server \<Rightarrow> nat" where
  "server_work s = tp_work 11 (sv_tp s) + run_work (sv_run s) + (if sv_up s then 1 else 0)"

definition server_own :: "server \<Rightarrow> server \<Rightarrow> bool" where
  "server_own s s' \<longleftrightarrow> server_step False s s' \<and> (sv_tp s' = sv_tp s \<or> tp_own (sv_tp s) (sv_tp s'))"

definition server_outside :: "server \<Rightarrow> server \<Rightarrow> bool" where
  "server_outside s s' \<longleftrightarrow> server_step False s s' \<and> tp_outside (sv_tp s) (sv_tp s')"

text \<open>Where the steps end: the workers sleep, have exited or run a request; the main thread waits in
  \<open>accept\<close>, and then nothing is queued if a worker sleeps, or joins a worker that runs a request, or has
  destroyed the pool; every request that runs stands before an undefined step or waits in \<open>recv\<close> for a
  client that stays silent; and if none runs, nothing is left to do.\<close>

definition pool_waits :: "tp_sys \<Rightarrow> bool" where
  "pool_waits t \<longleftrightarrow> mutex t = None \<and> (\<forall>pc \<in> set (workers t). pc = W_Wait \<or> pc = W_Exit \<or> (\<exists>a. pc = W_Handle a))
     \<and> (main t = M_Accept \<and> (W_Wait \<in> set (workers t) \<longrightarrow> task_queue_head (pool t) = None)
        \<or> main t = M_Join \<and> (\<exists>a. W_Handle a \<in> set (workers t)) \<or> main t = M_Done)"

definition server_settled :: "server \<Rightarrow> bool" where
  "server_settled s \<longleftrightarrow> pool_waits (sv_tp s)
     \<and> (\<forall>w r. sv_run s w = Some r \<longrightarrow> undefined_step (sv_sh s) (rq_pc r) \<or> recv_waits r)
     \<and> (sv_run s = Map.empty \<longrightarrow> tp_settled (sv_tp s) \<and> (main (sv_tp s) = M_Done \<longrightarrow> \<not> sv_up s))"

subsection \<open>Steps of the pool and steps of the server\<close>

lemma sum_update:
  "w < (n::nat) \<Longrightarrow> (\<Sum>v < n. f ((g(w := x)) v)) + f (g w) = (\<Sum>v < n. f (g v)) + (f x :: nat)"
proof (induction n)
  case (Suc n)
  show ?case
  proof (cases "w = n")
    case True
    have "(\<Sum>v < n. f ((g(w := x)) v)) = (\<Sum>v < n. f (g v))" by (rule sum.cong) (use True in auto)
    then show ?thesis using True by simp
  qed (use Suc in simp)
qed simp

lemma run_work_update:
  assumes "w < 4"
  shows "run_work (run(w := x)) + (case run w of None \<Rightarrow> 0 | Some r \<Rightarrow> steps_left (rq_pc r))
     = run_work run + (case x of None \<Rightarrow> 0 | Some r \<Rightarrow> steps_left (rq_pc r))"
  using sum_update [of w 4 "\<lambda>y. case y of None \<Rightarrow> 0 | Some r \<Rightarrow> steps_left (rq_pc r)" run x] assms
  by (simp add: run_work_def NUM_WORKER_THREADS_def)

lemma server_pool_inv: "server_inv s \<Longrightarrow> \<exists>as. tp_inv (sv_tp s) as"
  by (simp add: server_inv_def tp_reachable_inv)

lemma tp_step_moves: "tp_inv t as \<Longrightarrow> tp_step False t t' \<Longrightarrow> t' \<noteq> t"
proof -
  assume i: "tp_inv t as" and "tp_step False t t'"
  then consider "tp_own t t'" | "tp_outside t t'" by (auto simp: tp_step_own_outside)
  then show "t' \<noteq> t"
  proof cases
    case 1
    from tp_own_work [OF i 1, of 0] show ?thesis by auto
  next
    case 2
    then show ?thesis
    proof cases
      case (outside_wakeup w)
      then have "workers t' = (workers t)[w := W_Woken]" by cases (auto simp: pc_is_unique [OF outside_wakeup(2)])
      then have "pc_is t' w W_Woken" using outside_wakeup(2) by (simp add: pc_is_def)
      with outside_wakeup(2) show ?thesis by (auto simp: pc_is_def)
    next
      case outside_main
      then have "main t' \<noteq> main t \<or> accepted t' \<noteq> accepted t \<or> failed t' \<noteq> failed t" by cases auto
      then show ?thesis by blast
    qed
  qed
qed

lemma server_pool_step:
  assumes "server_step False s s'"
  shows "sv_tp s' = sv_tp s \<or> tp_step False (sv_tp s) (sv_tp s')"
  using assms by cases (auto simp: tp_step_iff)

lemma server_step_own_outside: "server_step False s s' \<longleftrightarrow> server_own s s' \<or> server_outside s s'"
  using server_pool_step [of s s'] by (auto simp: server_own_def server_outside_def tp_step_own_outside)

subsection \<open>Every own step takes work away\<close>

lemma worker_range: "tp_inv t as \<Longrightarrow> handles t w \<Longrightarrow> w < 4"
  by (auto simp: handles_def pc_is_def tp_inv_def inv_count_def NUM_WORKER_THREADS_def)

lemma own_pool_work:
  assumes i: "server_inv s" and own: "sv_tp s' = sv_tp s \<or> tp_own (sv_tp s) (sv_tp s')" and step: "tp_step False (sv_tp s) (sv_tp s')"
  shows "tp_work 11 (sv_tp s') < tp_work 11 (sv_tp s)"
proof -
  from server_pool_inv [OF i] obtain as where t: "tp_inv (sv_tp s) as" ..
  with tp_step_moves [OF t step] own tp_own_work [OF t] show ?thesis by blast
qed

lemma server_own_work:
  assumes i: "server_inv s" and own: "server_own s s'"
  shows "server_work s' < server_work s"
proof -
  from server_pool_inv [OF i] obtain as where t: "tp_inv (sv_tp s) as" ..
  from own have "server_step False s s'" and tp: "sv_tp s' = sv_tp s \<or> tp_own (sv_tp s) (sv_tp s')"
    by (simp_all add: server_own_def)
  then show ?thesis
  proof cases
    case (s_main tp)
    with own_pool_work [OF i tp] show ?thesis by (simp add: server_work_def tp_step_iff)
  next
    case (s_queue w pc tp)
    with own_pool_work [OF i tp] show ?thesis by (auto simp: server_work_def tp_step_iff)
  next
    case (s_begin w a tp env silent)
    let ?r = "(new_request env (sock_of (sv_tp s) a))\<lparr>rq_silent := silent\<rparr>"
    have "\<not> handles (sv_tp s) w" using s_begin(2) by (auto simp: handles_def pc_is_unique)
    then have "sv_run s w = None" using i by (auto simp: server_inv_def)
    moreover have "w < 4" using s_begin(2) t by (simp add: pc_is_def tp_inv_def inv_count_def NUM_WORKER_THREADS_def)
    ultimately have "run_work ((sv_run s)(w \<mapsto> ?r)) = run_work (sv_run s) + 11"
      using run_work_update [of w "sv_run s" "Some ?r"] by (simp add: new_request_def)
    with worker_work [OF t s_begin(3,2), of 11] s_begin(1) show ?thesis by (simp add: server_work_def)
  next
    case (s_request w r pc sh evs)
    have "w < 4" using worker_range [OF t running_request(1) [OF i s_request(2)]] .
    from run_work_update [OF this, of "sv_run s" "sv_run (moved s w r pc sh) w"] s_request(2) advance_steps_left [OF s_request(4)]
    have "run_work ((sv_run s)(w := sv_run (moved s w r pc sh) w)) < run_work (sv_run s)"
      by (auto simp: moved_def Let_def split: req_pc.splits)
    moreover have "(sv_run s)(w := sv_run (moved s w r pc sh) w) = sv_run (moved s w r pc sh)" by (simp add: moved_def Let_def)
    ultimately show ?thesis using s_request(1) by (simp add: server_work_def)
  next
    case (s_end w r tp)
    have "w < 4" using worker_range [OF t running_request(1) [OF i s_end(2)]] .
    from run_work_update [OF this, of "sv_run s" None] s_end(2,3) have "run_work ((sv_run s)(w := None)) = run_work (sv_run s)"
      by simp
    with own_pool_work [OF i tp] s_end show ?thesis by (auto simp: server_work_def tp_step_iff)
  next
    case s_destroy
    then show ?thesis by (simp add: server_work_def)
  qed
qed

lemma failed_same: "worker_step w t t' \<Longrightarrow> failed t' = failed t" "tp_own t t' \<Longrightarrow> failed t' = failed t"
proof -
  show w: "worker_step w t t' \<Longrightarrow> failed t' = failed t" for w t t' by (erule worker_step.cases) simp_all
  have "main_step False t t' \<Longrightarrow> main t \<noteq> M_Accept \<Longrightarrow> failed t' = failed t" by (erule main_step.cases) auto
  with w show "tp_own t t' \<Longrightarrow> failed t' = failed t" by (auto simp: tp_own.simps)
qed

lemma failed_accept_work:
  assumes "tp_outside t t'"
  shows "failed t' = failed t \<or> failed t' = failed t + 1 \<and> tp_work h t' = tp_work h t"
  using assms
proof cases
  case outside_main
  from outside_main(1) show ?thesis by cases (simp_all add: tp_work_def)
qed (simp add: failed_same(1))

lemma server_outside_work:
  assumes i: "server_inv s" and out: "server_outside s s'"
  shows "server_work s' \<le> server_work s + 22 \<and> server_work s' + 22 * failed (sv_tp s') \<le> server_work s + 22 * failed (sv_tp s) + 22"
proof -
  from server_pool_inv [OF i] obtain as where t: "tp_inv (sv_tp s) as" ..
  from out have step: "server_step False s s'" and o: "tp_outside (sv_tp s) (sv_tp s')" by (simp_all add: server_outside_def)
  have "run_work (sv_run s') \<le> run_work (sv_run s) \<and> sv_up s' = sv_up s \<or> server_work s' < server_work s"
  proof (cases "server_own s s'")
    case True
    with server_own_work [OF i] show ?thesis by blast
  next
    case False
    from step show ?thesis
    proof cases
      case (s_begin w a tp env silent)
      then have "tp_own (sv_tp s) tp" by (intro own_worker) (auto simp: pc_is_unique)
      with False step s_begin show ?thesis by (simp add: server_own_def)
    next
      case (s_end w r tp)
      then obtain a where "pc_is (sv_tp s) w (W_Handle a)" using running_request(1) [OF i s_end(2)] by (auto simp: handles_def)
      with s_end have "tp_own (sv_tp s) tp" by (intro own_worker) (auto simp: pc_is_unique)
      with False step s_end show ?thesis by (simp add: server_own_def)
    qed (use False step in \<open>auto simp: server_own_def\<close>)
  qed
  with tp_outside_work [OF o, of 11] failed_accept_work [OF o, of 11] show ?thesis by (auto simp: server_work_def)
qed

subsection \<open>Where the steps end\<close>

lemma worker_step_lifts:
  assumes step: "worker_step w (sv_tp s) t" and pc: "pc_is (sv_tp s) w pc" and "pc \<noteq> W_Wait" "\<forall>a. pc \<noteq> W_Handle a"
  shows "\<exists>s'. server_own s s'"
proof -
  have own: "tp_own (sv_tp s) t" using step pc assms(3) by (intro own_worker) (auto simp: pc_is_unique)
  show ?thesis
  proof (cases "\<exists>a. pc = W_Sem a")
    case False
    with assms(4) have "\<forall>a. pc \<noteq> W_Sem a \<and> pc \<noteq> W_Handle a" by blast
    from s_queue [OF pc this step, of False] own show ?thesis by (intro exI [of _ "s\<lparr>sv_tp := t\<rparr>"]) (simp add: server_own_def)
  next
    case True
    then obtain a where "pc = W_Sem a" ..
    with pc s_begin [of s w a t silent_env False False] step own show ?thesis
      by (intro exI [of _ "s\<lparr>sv_tp := t, sv_run := (sv_run s)(w \<mapsto> new_request silent_env (sock_of (sv_tp s) a))\<rparr>"]) (simp add: server_own_def)
  qed
qed

lemma main_step_lifts:
  assumes "main_step False (sv_tp s) t" and "main (sv_tp s) \<noteq> M_Accept"
  shows "\<exists>s'. server_own s s'"
  using s_main [OF assms(1)] own_main [OF assms] by (intro exI [of _ "s\<lparr>sv_tp := t\<rparr>"]) (simp add: server_own_def)

lemma pool_own_step_lifts:
  assumes none: "\<And>w. \<not> handles (sv_tp s) w" and own: "tp_own (sv_tp s) t"
  shows "\<exists>s'. server_own s s'"
  using own
proof cases
  case (own_worker w)
  then obtain pc where pc: "pc_is (sv_tp s) w pc" by (auto elim!: worker_step.cases)
  then show ?thesis using none [of w] own_worker(2) by (intro worker_step_lifts [OF own_worker(1) pc]) (auto simp: handles_def)
next
  case own_main
  then show ?thesis by (rule main_step_lifts)
qed

lemma stopped_request:
  assumes i: "server_inv s" and stop: "\<nexists>s'. server_own s s'" and run: "sv_run s w = Some r"
  shows "undefined_step (sv_sh s) (rq_pc r) \<or> recv_waits r"
proof (cases "rq_pc r = Q_Done")
  case True
  from running_request(1,2) [OF i run] obtain a p where w: "pc_is (sv_tp s) w (W_Handle a)" "free_task a (pool (sv_tp s)) = Some p"
    using handler_frees by (force simp: handles_def)
  from w_done [OF w] obtain t where t: "worker_step w (sv_tp s) t" by blast
  then have "tp_own (sv_tp s) t" using w(1) by (intro own_worker) (auto simp: pc_is_unique)
  with s_end [OF run True t, of False] have "server_own s (s\<lparr>sv_tp := t, sv_run := (sv_run s)(w := None)\<rparr>)"
    by (simp add: server_own_def)
  with stop show ?thesis by blast
next
  case False
  have "advance (rq_env r) (rq_client r) (sv_sh s) (rq_pc r) = None" if n: "\<not> recv_waits r"
  proof (rule ccontr)
    assume "advance (rq_env r) (rq_client r) (sv_sh s) (rq_pc r) \<noteq> None"
    then obtain pc sh evs where "advance (rq_env r) (rq_client r) (sv_sh s) (rq_pc r) = Some (pc, sh, evs)" by auto
    from s_request [OF run n this, of False] have "server_own s (moved s w r pc sh)" by (simp add: server_own_def)
    with stop show False by blast
  qed
  with stuck_request [OF i run False] show ?thesis by (cases "recv_waits r") simp_all
qed

lemma stopped_pool:
  assumes i: "tp_inv (sv_tp s) as" and stop: "\<nexists>s'. server_own s s'"
  shows "pool_waits (sv_tp s)"
proof -
  let ?t = "sv_tp s"
  have mx: "mutex ?t = None"
  proof (cases "mutex ?t")
    case (Some ow)
    then show ?thesis
    proof (cases ow)
      case (By_Worker w)
      with i Some have w: "pc_is ?t w W_Check" by (auto simp: tp_inv_def intro: holder_checks)
      from holder_can_step [OF i w] worker_step_lifts [OF _ w] stop show ?thesis by auto
    next
      case By_Main
      with i Some obtain a where a: "main ?t = M_Push a" by (auto simp: tp_inv_def inv_mutex_def)
      from main_can_push [OF i a] main_step_lifts a stop show ?thesis by fastforce
    qed
  qed
  have ws: "pc = W_Wait \<or> pc = W_Exit \<or> (\<exists>a. pc = W_Handle a)" if "pc \<in> set (workers ?t)" for pc
  proof -
    from that obtain w where w: "pc_is ?t w pc" by (auto simp: pc_is_def in_set_conv_nth)
    from worker_can_step [OF i mx w] worker_step_lifts [OF _ w] stop show ?thesis by blast
  qed
  have ph: "inv_phase ?t" and wk: "inv_wake ?t as" using i by (simp_all add: tp_inv_def)
  have no: "\<nexists>t. main_step False ?t t" if "main ?t \<noteq> M_Accept" using main_step_lifts that stop by blast
  have "main ?t = M_Accept \<or> main ?t = M_Join \<or> main ?t = M_Done"
  proof (cases "main ?t")
    case (M_Push a)
    with i mx show ?thesis by (auto simp: tp_inv_def inv_mutex_def)
  next
    case (M_Lock a)
    with m_lock [OF M_Lock mx, of False] no show ?thesis by auto
  next
    case M_Shut
    with m_shut [OF M_Shut mx, of False] no show ?thesis by auto
  next
    case M_Drain
    then have "queue_repr (pool ?t) as" using i by (simp add: tp_inv_def inv_tasks_def)
    with drain_tasks_ok obtain fds h where "drain_tasks (tasks (pool ?t)) (task_queue_head (pool ?t)) = Some (fds, h)"
      by (auto simp: queue_repr_def)
    with m_drain [OF M_Drain mx, of fds h False] M_Drain no show ?thesis by auto
  qed simp_all
  moreover have "\<exists>a. W_Handle a \<in> set (workers ?t)" if m: "main ?t = M_Join"
  proof -
    have "W_Wait \<notin> set (workers ?t)" using ph m by (auto simp: inv_phase_def)
    moreover have "\<not> (\<forall>pc \<in> set (workers ?t). pc = W_Exit)" using m_join [OF m, of False] m no by auto
    ultimately show ?thesis using ws by metis
  qed
  moreover have "task_queue_head (pool ?t) = None" if m: "main ?t = M_Accept" "W_Wait \<in> set (workers ?t)"
  proof -
    have "tally awake (workers ?t) = 0" using ws by (intro tally_zero) (auto simp: awake_def)
    moreover have "shutdown (pool ?t) = 0" using ph m by (auto simp: inv_phase_def)
    ultimately have "as = []" using wk m(2) by (simp add: inv_wake_def)
    with i m(1) show ?thesis by (simp add: tp_inv_def inv_tasks_def queue_repr_def)
  qed
  ultimately show ?thesis using mx ws unfolding pool_waits_def by blast
qed

lemma server_stops:
  assumes i: "server_inv s" and stop: "\<nexists>s'. server_own s s'"
  shows "server_settled s"
proof -
  from server_pool_inv [OF i] obtain as where t: "tp_inv (sv_tp s) as" ..
  have "tp_settled (sv_tp s) \<and> (main (sv_tp s) = M_Done \<longrightarrow> \<not> sv_up s)" if none: "sv_run s = Map.empty"
  proof
    have "\<not> handles (sv_tp s) w" for w using i none by (auto simp: server_inv_def)
    with stop have "\<nexists>t. tp_own (sv_tp s) t" using pool_own_step_lifts by blast
    with tp_stops [OF t] show "tp_settled (sv_tp s)" by blast
    show "main (sv_tp s) = M_Done \<longrightarrow> \<not> sv_up s"
    proof (intro impI notI)
      assume m: "main (sv_tp s) = M_Done" and up: "sv_up s"
      from s_destroy [OF m up destroy_defined [OF i up], of False] stop show False by (fastforce simp: server_own_def)
    qed
  qed
  with stopped_request [OF i stop] stopped_pool [OF t stop] show ?thesis unfolding server_settled_def by blast
qed

interpretation sw: bounded_progress server_inv server_own server_outside server_work 22 server_settled
proof unfold_locales
  show "server_inv s \<Longrightarrow> server_own s s' \<Longrightarrow> server_inv s'" "server_inv s \<Longrightarrow> server_outside s s' \<Longrightarrow> server_inv s'" for s s'
    using server_step_inv by (auto simp: server_own_def server_outside_def)
  show "server_inv s \<Longrightarrow> server_outside s s' \<Longrightarrow> server_work s' \<le> server_work s + 22" for s s'
    using server_outside_work by blast
qed (fact server_own_work server_stops)+

text \<open>Failed calls of \<open>accept\<close> counted apart.\<close>

interpretation sf: bounded_work server_inv server_own server_outside "\<lambda>s. server_work s + 22 * failed (sv_tp s)" 22
proof
  show "server_inv s \<Longrightarrow> server_own s s' \<Longrightarrow> server_inv s'" "server_inv s \<Longrightarrow> server_outside s s' \<Longrightarrow> server_inv s'" for s s'
    using server_step_inv by (auto simp: server_own_def server_outside_def)
  show "server_inv s \<Longrightarrow> server_outside s s' \<Longrightarrow>
      server_work s' + 22 * failed (sv_tp s') \<le> server_work s + 22 * failed (sv_tp s) + 22" for s s'
    using server_outside_work by blast
  show "server_work s' + 22 * failed (sv_tp s') < server_work s + 22 * failed (sv_tp s)" if "server_inv s" "server_own s s'" for s s'
    using server_own_work [OF that] that(2) failed_same(2) [of "sv_tp s" "sv_tp s'"] by (auto simp: server_own_def)
qed

end
