(* ===== verification/Server_Properties.thy ===== *)
theory Server_Properties
  imports Server_Work
begin

section \<open>Properties of the whole server\<close>

text \<open>
  What holds while four requests run at once: the stored data keep their types and the counters
  are exact, a request can always go on except at the defects of the parser, of \<open>strtok\<close> and of an
  evicted cache node, the program comes to rest, and the shutdown meets no running request. In
  all of it signals arrive only while \<open>accept\<close> waits (\<open>server_reachable False\<close>); \<open>Thread_Signals\<close>
  treats the others.
\<close>

subsection \<open>Types\<close>

lemma typed_node:
  assumes "cache_typed c" and n: "heap c a = Some n"
  shows "length (url n) \<le> 511 \<and> 0 < data_size n \<and> data_size n < 1048576 \<and> data_size n = int (length (data n))"
proof -
  from assms(1) have i: "cache_inv c" and t: "\<forall>e \<in> set (cache_abs c). entry_typed e" by (auto simp: cache_typed_def)
  from cache_inv_repr [OF i] obtain chs where r: "cache_repr c (cache_addrs c) chs" by blast
  then have d: "a \<in> set (cache_addrs c)" and ok: "node_ok n" using n by (auto simp: cache_repr_def nodes_ok_def)
  from d have "entry_at c a \<in> set (cache_abs c)" by (simp add: cache_abs_def)
  with t n have "entry_typed (entry_of n)" by (auto simp: entry_at_def)
  with ok show ?thesis by (auto simp: node_ok_def entry_typed_def entry_of_def MAX_RESPONSE_SIZE_def)
qed

text \<open>C6. In every state of the server, with any requests half done, each node of the cache holds a key
  of at most 511 characters and a response of 1 to 1048575 bytes whose length is \<open>data_size\<close>, and
  \<open>current_size\<close> is the number of allocated nodes and at most 1024. Each of the 20 slots of the
  connection pool is empty or holds a positive descriptor number, a host of at most 255
  characters, a port between 1 and 65535 and a flag that is 0 or 1; no two slots hold the same
  number, and \<open>pool_size\<close> is the number of slots that hold one. Whether the descriptor is still open
  is another matter: the failure paths of a request close it and leave it in its slot
  (\<open>pool_get_wrong_peer\<close>).\<close>

theorem server_types:
  assumes "server_reachable False s" and "sv_up s"
  shows "\<exists>c p. px_cache (sh_px (sv_sh s)) = Some c \<and> max_size c = 1024 \<and> px_conns (sh_px (sv_sh s)) = Some p
     \<and> ran (heap c) \<subseteq> {n. length (url n) \<le> 511 \<and> 0 < data_size n \<and> data_size n < 1048576 \<and> data_size n = int (length (data n))}
     \<and> current_size c = int (card (dom (heap c))) \<and> finite (dom (heap c)) \<and> current_size c \<le> 1024
     \<and> length (connections p) = 20
     \<and> set (connections p) \<subseteq> {conn. conn = empty_slot \<or> 0 < socket_fd conn \<and> length (conn_host conn) \<le> 255
          \<and> 1 \<le> conn_port conn \<and> conn_port conn \<le> 65535 \<and> (in_use conn = 0 \<or> in_use conn = 1)}
     \<and> distinct (filter (\<lambda>fd. 0 < fd) (map socket_fd (connections p)))
     \<and> pool_size p = int (length (filter (\<lambda>conn. 0 < socket_fd conn) (connections p)))"
proof -
  from server_reachable_inv [OF assms(1)] assms(2) obtain c p where
    c: "px_cache (sh_px (sv_sh s)) = Some c" "cache_typed c" and p: "px_conns (sh_px (sv_sh s)) = Some p" "pool_typed p"
    by (auto simp: server_inv_def proxy_typed_def)
  have m: "max_size c = 1024" using c(2) by (simp add: cache_typed_def CACHE_SIZE_def)
  from c(2) cache_inv_repr obtain chs where r: "cache_repr c (cache_addrs c) chs" by (auto simp: cache_typed_def)
  then have "current_size c = int (card (dom (heap c))) \<and> finite (dom (heap c)) \<and> current_size c \<le> 1024"
    using repr_distinct [OF r] m by (simp add: cache_repr_def distinct_card)
  moreover have "ran (heap c) \<subseteq> {n. length (url n) \<le> 511 \<and> 0 < data_size n \<and> data_size n < 1048576 \<and> data_size n = int (length (data n))}"
    using typed_node [OF c(2)] by (auto simp: ran_def)
  moreover have "set (connections p) \<subseteq> {conn. conn = empty_slot \<or> 0 < socket_fd conn \<and> length (conn_host conn) \<le> 255
          \<and> 1 \<le> conn_port conn \<and> conn_port conn \<le> 65535 \<and> (in_use conn = 0 \<or> in_use conn = 1)}"
    using p(2) by (auto simp: pool_typed_def slot_typed_def)
  moreover have "length (connections p) = 20 \<and> distinct (filter (\<lambda>fd. 0 < fd) (map socket_fd (connections p)))
      \<and> pool_size p = int (length (filter (\<lambda>conn. 0 < socket_fd conn) (connections p)))"
    using p(2) by (simp add: pool_typed_def pool_inv_def live_fds_def MAX_POOL_SIZE_def filter_map comp_def)
  ultimately show ?thesis using c(1) p(1) m by blast
qed

theorem server_types_witness:
  "\<exists>c p. px_cache (sh_px (sv_sh (server_start new_proxy))) = Some c \<and> max_size c = 1024
     \<and> px_conns (sh_px (sv_sh (server_start new_proxy))) = Some p \<and> length (connections p) = 20"
  using server_types [OF new_server_reachable] by (auto simp: server_start_def)

subsection \<open>Termination\<close>

text \<open>A request ends, and with the right act: whatever the other workers do to the shared state in
  between, no worker makes more than eleven steps for one request, after eleven it is done, and the
  last thing a request that is done has done is to close its client.\<close>

theorem request_terminates:
  assumes "own_steps env client n Q_Recv pc evs"
  shows "n \<le> 11 \<and> (n = 11 \<longrightarrow> pc = Q_Done) \<and> (pc = Q_Done \<longrightarrow> (\<exists>before. evs = before @ [Sock_Close client]))"
  using own_steps_left [OF assms] own_steps_close [OF assms] by (cases pc) auto

theorem request_terminates_witness: "\<exists>evs. own_steps silent_env 4 1 Q_Recv Q_Done evs \<and> last evs = Sock_Close 4"
proof -
  have "advance silent_env 4 (sv_sh (server_start new_proxy)) Q_Recv =
      Some (Q_Done, sv_sh (server_start new_proxy), socket_close 4)" by simp
  from own_step [OF this own_none] have r: "own_steps silent_env 4 1 Q_Recv Q_Done (socket_close 4)" by simp
  from request_terminates [OF r] obtain before where "socket_close 4 = before @ [Sock_Close 4]" by blast
  then have "last (socket_close 4) = Sock_Close 4" by simp
  with r show ?thesis by blast
qed

subsection \<open>Every client is served\<close>



lemma failed_accepts:
  "main (sv_tp s) = M_Accept \<Longrightarrow> (server_outside ^^ j) s (s\<lparr>sv_tp := (sv_tp s)\<lparr>failed := failed (sv_tp s) + j\<rparr>\<rparr>)"
proof (induction j)
  case (Suc j)
  let ?t = "(sv_tp s)\<lparr>failed := failed (sv_tp s) + j\<rparr>"
  have "main_step False ?t (?t\<lparr>failed := failed ?t + 1\<rparr>)" by (rule m_failed) (use Suc.prems in simp)
  moreover from this have "tp_outside ?t (?t\<lparr>failed := failed ?t + 1\<rparr>)" by (rule outside_main) (use Suc.prems in simp)
  ultimately have "server_outside (s\<lparr>sv_tp := ?t\<rparr>) (s\<lparr>sv_tp := ?t\<lparr>failed := failed ?t + 1\<rparr>\<rparr>)"
    using s_main [of False "s\<lparr>sv_tp := ?t\<rparr>" "?t\<lparr>failed := failed ?t + 1\<rparr>"] by (simp add: server_outside_def)
  with Suc show ?case by (auto intro: relpowp_Suc_I)
qed simp

text \<open>C15. When the program spins. Signals arrive only while \<open>accept\<close> waits. In every execution from the
  start, with \<open>k\<close> events from outside, the steps the program makes by itself are at most 9, and 22
  for each connection, signal and spurious wakeup; an event that is a failed \<open>accept\<close> adds none.
  Every step of the server is a step of its own or such an event. So no schedule of the threads
  spins; but the accept loop does when \<open>accept\<close> keeps failing, as it does when the descriptors are
  used up: it calls \<open>accept\<close> again at once, any number of times in a row, with nothing else changed.\<close>

theorem server_work_bounded:
  assumes "proxy_server_init ie no_proxy = (0, g)"
    and "mixed_run server_own server_outside n k (server_start g) s"
  shows "n + 22 * failed (sv_tp s) \<le> 9 + 22 * k
     \<and> {s'. server_step False s s'} = {s'. server_own s s'} \<union> {s'. server_outside s s'}
     \<and> (main (sv_tp s) = M_Accept \<longrightarrow>
          (\<forall>j. (server_outside ^^ j) s (s\<lparr>sv_tp := (sv_tp s)\<lparr>failed := failed (sv_tp s) + j\<rparr>\<rparr>)))"
proof -
  have i: "server_inv (server_start g)" by (rule server_reachable_inv [OF sv_start [OF assms(1)]])
  have "server_work (server_start g) = 9 \<and> failed (sv_tp (server_start g)) = 0"
    by (simp add: server_work_def server_start_def tp_work_def tp_init_def run_work_def NUM_WORKER_THREADS_def numeral_eq_Suc)
  with sf.run_bounded [OF assms(2) i] server_step_own_outside failed_accepts show ?thesis by auto
qed

theorem server_work_bounded_witness:
  "\<exists>s. mixed_run server_own server_outside 1 0 (server_start new_proxy) s \<and> (1::nat) \<le> 9"
proof -
  let ?t = "goto 0 W_Check tp_init\<lparr>mutex := Some (By_Worker 0)\<rparr>" and ?s = "server_start new_proxy"
  have w: "worker_step 0 tp_init ?t" "pc_is tp_init 0 W_Lock"
    by (rule w_lock) (simp_all add: pc_is_def tp_init_def NUM_WORKER_THREADS_def)
  then have "tp_own tp_init ?t" by (intro own_worker) (auto simp: pc_is_unique)
  with s_queue [of ?s 0 W_Lock ?t False] w have "server_own ?s (?s\<lparr>sv_tp := ?t\<rparr>)"
    by (simp add: server_own_def server_start_def)
  from run_own [where own = server_own, OF run_none this] have r: "mixed_run server_own server_outside 1 0 ?s (?s\<lparr>sv_tp := ?t\<rparr>)" by simp
  from server_work_bounded [OF new_proxy_init r] r show ?thesis by auto
qed

subsection \<open>What can go wrong\<close>

text \<open>C2. Signals arrive only while \<open>accept\<close> waits. While the four workers run in any order, a request that
  is not done can always make its next step, which is defined (a \<open>recv\<close> being one that returns), unless it is at one of these points: at \<open>strtok\<close> when the saved position
  points into a request line that another worker has freed, at the copies of tokens that do, after
  the parser with no path or with a host that overflows its buffer, or at a cached node that has
  been evicted; and this takes at least 1024 calls of other workers since the node was looked up.\<close>

theorem server_step_defined:
  assumes "server_reachable False s" and "sv_run s w = Some r" and "rq_pc r \<noteq> Q_Done"
  shows "advance (rq_env r) (rq_client r) (sv_sh s) (rq_pc r) \<noteq> None
     \<or> undefined_step (sv_sh s) (rq_pc r) \<and> {a. rq_pc r = Q_Cached a} \<subseteq> {a. 1024 \<le> sv_calls s - rq_seen r}"
proof (cases "advance (rq_env r) (rq_client r) (sv_sh s) (rq_pc r) = None")
  case True
  from server_reachable_inv [OF assms(1)] have i: "server_inv s" .
  note run = running_request [OF i assms(2)]
  from stuck_request [OF i assms(2,3) True] have u: "undefined_step (sv_sh s) (rq_pc r)" .
  have "1024 \<le> sv_calls s - rq_seen r" if a: "rq_pc r = Q_Cached a" for a
  proof (rule ccontr)
    assume n: "\<not> 1024 \<le> sv_calls s - rq_seen r"
    from run(4) obtain c where c: "px_cache (sh_px (sv_sh s)) = Some c" "cache_typed c" by (auto simp: proxy_typed_def)
    with run(7) a n obtain ys zs where "cache_addrs c = ys @ a # zs"
      by (force simp: request_inv_def node_kept_def cache_typed_def CACHE_SIZE_def)
    then have "a \<in> set (cache_addrs c)" by simp
    moreover have "cache_inv c" using c(2) by (simp add: cache_typed_def)
    ultimately have "heap c a \<noteq> None" using cache_inv_repr repr_node by blast
    with u a c(1) show False by simp
  qed
  with u show ?thesis by blast
qed simp

theorem server_step_defined_witness:
  "\<exists>s r. server_reachable False s \<and> sv_run s 0 = Some r
     \<and> (advance (rq_env r) (rq_client r) (sv_sh s) (rq_pc r) \<noteq> None \<or> undefined_step (sv_sh s) (rq_pc r))"
proof -
  from new_server_first [of 4 silent_env] obtain s where
    s: "server_reachable False s" "sv_run s 0 = Some (new_request silent_env 4)" by auto
  from server_step_defined [OF s] have "advance (rq_env (new_request silent_env 4)) (rq_client (new_request silent_env 4))
      (sv_sh s) (rq_pc (new_request silent_env 4)) \<noteq> None \<or> undefined_step (sv_sh s) (rq_pc (new_request silent_env 4))"
    by (simp add: new_request_def)
  with s show ?thesis by blast
qed

text \<open>C11. Signals arrive only while \<open>accept\<close> waits. A worker that was given a cached node reads it after \<open>cache_mutex\<close> was released. While the
  other workers have made fewer than 1024 calls of the cache since then, it still sends exactly the
  bytes that were found, whatever those calls looked up, inserted and evicted.\<close>

theorem cached_node_sent:
  assumes "server_reachable False s" and "sv_run s w = Some r" and "rq_pc r = Q_Cached a"
    and "sv_calls s - rq_seen r < 1024"
  shows "\<exists>d. rq_bytes r = Some d
     \<and> advance (rq_env r) (rq_client r) (sv_sh s) (rq_pc r) = Some (Q_Finish 0, sv_sh s, [Sock_Send (rq_client r) d])"
proof -
  note run = running_request [OF server_reachable_inv [OF assms(1)] assms(2)]
  from run(4) obtain c where c: "px_cache (sh_px (sv_sh s)) = Some c" "cache_typed c" by (auto simp: proxy_typed_def)
  have inv: "cache_inv c" using c(2) by (simp add: cache_typed_def)
  have "request_inv s r" by (rule run(7))
  with assms(3,4) c obtain ys zs where ys: "cache_addrs c = ys @ a # zs" "pointee c a = rq_bytes r"
    by (force simp: request_inv_def node_kept_def cache_typed_def CACHE_SIZE_def)
  then have "a \<in> set (cache_addrs c)" by simp
  with cache_inv_repr [OF inv] repr_node obtain n where n: "heap c a = Some n" by blast
  with ys(2) have "rq_bytes r = Some (data n)" by (simp add: pointee_def)
  with n c(1) assms(3) cached_data_size [OF inv n] show ?thesis by simp
qed

lemma cached_request_waits:
  assumes s: "at_rest s" and "0 < fd" "env_ok env" and a: "accepts env [] pr"
    and rq: "pr_host pr = Some hh" "length (host_part hh) < 256" "pr_path pr = Some path"
    and c: "px_cache (sh_px (sv_sh s)) = Some c" "cache_inv c"
    and f: "spec_find (take 511 path) (cache_abs c) = Some e" "env_t_lookup env - e_time e < 300"
  shows "\<exists>s' r x. server_reachable False s' \<and> sv_run s' 0 = Some r \<and> rq_pc r = Q_Cached x \<and> rq_seen r = sv_calls s'
     \<and> rq_bytes r = Some (e_data e) \<and> rq_client r = fd"
proof -
  from at_rest_begins [OF s _ assms(2,3), of 0] obtain s1 where s1: "server_reachable False s1"
    "sv_run s1 = [0 \<mapsto> new_request env fd]" "sv_sh s1 = sv_sh s" by auto
  from accepted_parses [OF a, of fd "sv_sh s"] obtain sh where
    sh: "req_steps env fd (sv_sh s) Q_Recv sh (Q_Forward pr)" "px_cache (sh_px sh) = Some c" using c(1) by auto
  from extract_fits [OF rq(2)] obtain pt where x: "extract_host_port 256 (Some hh) = Some (0, Some (host_part hh, pt))" by blast
  let ?q = "Q_Lookup pr (host_part hh) pt path"
  have "advance env fd sh (Q_Forward pr) = Some (?q, sh, [])" using assms(2) rq x by simp
  from req_steps_trans [OF sh(1) req_step [OF this req_refl]] have st: "req_steps env fd (sv_sh s) Q_Recv sh ?q" .
  from server_runs [OF st s1(1), of 0 "new_request env fd"] s1(2,3) obtain s2 r where s2: "server_reachable False s2"
    "sv_run s2 0 = Some r" "rq_env r = env" "rq_client r = fd" "sv_sh s2 = sh" "rq_pc r = ?q" "\<not> rq_silent r" by (auto simp: new_request_def)
  have k: "snprintf_text 512 path = take 511 path" by (simp add: snprintf_text_def)
  from cache_get_ok [OF c(2), of "env_t_lookup env" "take 511 path"] spec_get_hit [OF f] obtain y c' where
    g: "cache_get (env_t_lookup env) (Some c) (Some (take 511 path)) = Some (Some y, Some c')" "cache_inv c'"
      "entry_at c' y = touch e" by auto
  from cached_node_ok [OF c(2) g(1)] g(3) obtain n where n: "heap c' y = Some n" "data n = e_data e" by (auto simp: touch_def)
  let ?sh = "sh\<lparr>sh_px := (sh_px sh)\<lparr>px_cache := Some c'\<rparr>\<rparr>"
  have "advance (rq_env r) (rq_client r) (sv_sh s2) (rq_pc r) = Some (Q_Cached y, ?sh, [])"
    using s2(3-6) sh(2) g(1) by (simp add: k)
  from sv_next [OF s2(1) s_request [OF s2(2) not_silent [OF s2(7)] this]] have "server_reachable False (moved s2 0 r (Q_Cached y) ?sh)" .
  moreover obtain r' where r': "sv_run (moved s2 0 r (Q_Cached y) ?sh) 0 = Some r'" by (auto simp: moved_def Let_def)
  ultimately show ?thesis using moved_request [OF r'] n s2(4)
    by (intro exI [of _ "moved s2 0 r (Q_Cached y) ?sh"] exI [of _ r'] exI [of _ y]) (simp add: bytes_at_def pointee_def)
qed

theorem cached_node_sent_witness:
  "\<exists>s r. server_reachable False s \<and> sv_run s 0 = Some r \<and> rq_client r = 7
     \<and> advance (rq_env r) (rq_client r) (sv_sh s) (rq_pc r) = Some (Q_Finish 0, sv_sh s, [Sock_Send 7 page])"
proof -
  from page_state obtain g c where g: "proxy_reachable g" "px_cache g = Some c" "cache_inv c"
      "spec_find ''/x'' (cache_abs c) = Some \<lparr>e_url = ''/x'', e_data = page, e_time = 0, e_hits = 1\<rparr>" by blast
  from sequential_state_lifts [OF g(1)] obtain s where s: "at_rest s" "sh_px (sv_sh s) = g" by blast
  have a: "accepts (plain_env (plain_request ''GET'' ''/x'' ''b'') [] 9) []
      (parsed ''GET'' ''/x'' ''HTTP/1.1'' (Some ''b'') (plain_request ''GET'' ''/x'' ''b''))"
    by (rule accepts_plain) (simp_all add: http_methods_def word_text_def plain_request_def render_request_def)
  have "env_t_lookup (plain_env (plain_request ''GET'' ''/x'' ''b'') [] 9) = 9" by (simp add: plain_env_def)
  with cached_request_waits [OF s(1) _ plain_env_ok a, of 7 "''b''" "''/x''" c] s(2) g(2-4) obtain s' r x where
    w: "server_reachable False s'" "sv_run s' 0 = Some r" "rq_pc r = Q_Cached x" "rq_seen r = sv_calls s'"
      "rq_bytes r = Some page" "rq_client r = 7" by (auto simp: host_part_def)
  from cached_node_sent [OF w(1-3)] w show ?thesis by auto
qed

subsection \<open>Shutdown\<close>

text \<open>C18. Signals arrive only while \<open>accept\<close> waits. When the main thread has joined the workers and
  drained the queue, no request is running and no request line is left allocated; the rest of
  \<open>proxy_server_shutdown\<close> can run, touches no freed memory and leaves no node of the cache and no
  module behind, and the sockets it closes are exactly the descriptors that the slots of the
  connection pool hold, each once: nothing is destroyed under a worker that still uses it.\<close>

theorem shutdown_finds_no_request:
  assumes "server_reachable False s" and "main (sv_tp s) = M_Done"
  shows "sv_run s = Map.empty \<and> sh_lines (sv_sh s) = {}
     \<and> (sv_up s \<longrightarrow> (\<exists>p g evs. px_conns (sh_px (sv_sh s)) = Some p
        \<and> proxy_server_shutdown ((sh_px (sv_sh s))\<lparr>px_threads := None\<rparr>) = Some (g, Map.empty, evs)
        \<and> px_threads g = None \<and> px_cache g = None \<and> px_conns g = None
        \<and> closed_socks evs = filter (\<lambda>fd. 0 < fd) (map socket_fd (connections p)) \<and> distinct (closed_socks evs)
        \<and> server_step False s (s\<lparr>sv_up := False, sv_sh := (sv_sh s)\<lparr>sh_px := g\<rparr>\<rparr>)))"
proof -
  from server_reachable_inv [OF assms(1)] have i: "server_inv s" .
  then have none: "sv_run s w = None" for w
    using done_no_handlers [OF _ assms(2), of w] by (auto simp: server_inv_def)
  then have "sv_run s = Map.empty" by (simp add: fun_eq_iff)
  moreover have "own_line s = Map.empty" using none by (simp add: own_line_def fun_eq_iff)
  then have "sh_lines (sv_sh s) = {}" using i by (simp add: server_inv_def inv_lines_def)
  moreover have "\<exists>p g evs. px_conns (sh_px (sv_sh s)) = Some p
        \<and> proxy_server_shutdown ((sh_px (sv_sh s))\<lparr>px_threads := None\<rparr>) = Some (g, Map.empty, evs)
        \<and> px_threads g = None \<and> px_cache g = None \<and> px_conns g = None
        \<and> closed_socks evs = filter (\<lambda>fd. 0 < fd) (map socket_fd (connections p)) \<and> distinct (closed_socks evs)
        \<and> server_step False s (s\<lparr>sv_up := False, sv_sh := (sv_sh s)\<lparr>sh_px := g\<rparr>\<rparr>)" if up: "sv_up s"
  proof -
    from i up obtain p where p: "px_conns (sh_px (sv_sh s)) = Some p" "pool_typed p" by (auto simp: server_inv_def proxy_typed_def)
    let ?evs = "connection_pool_destroy (px_conns (sh_px (sv_sh s)))"
    have "closed_socks ?evs = filter (\<lambda>fd. 0 < fd) (map socket_fd (connections p))" using p(1) by (simp add: connection_pool_destroy_def)
    moreover have "distinct (filter (\<lambda>fd. 0 < fd) (map socket_fd (connections p)))"
      using p(2) by (simp add: pool_typed_def pool_inv_def live_fds_def)
    ultimately show ?thesis using p(1) destroy_defined [OF i up] s_destroy [OF assms(2) up destroy_defined [OF i up], of False]
      by (intro exI conjI) (assumption | simp)+
  qed
  ultimately show ?thesis by blast
qed

theorem shutdown_finds_no_request_witness:
  "\<exists>s g. server_reachable False s \<and> main (sv_tp s) = M_Done \<and> sv_run s = Map.empty
     \<and> proxy_server_shutdown ((sh_px (sv_sh s))\<lparr>px_threads := None\<rparr>) = Some (g, Map.empty, []) \<and> px_cache g = None"
proof -
  from pool_state_lifts [OF shut_now_done] obtain s where
    s: "server_reachable False s" "all_done s" "sv_tp s = shut_now [W_Exit, W_Exit, W_Exit, W_Exit] M_Done" by blast
  then have m: "main (sv_tp s) = M_Done" "sv_up s" by (simp_all add: shut_now_def all_done_def)
  from s(2) have p: "px_conns (sh_px (sv_sh s)) = Some new_pool" by (simp add: all_done_def server_start_def new_proxy_def)
  from shutdown_finds_no_request [OF s(1) m(1)] m(2) p obtain g evs where
    g: "sv_run s = Map.empty" "proxy_server_shutdown ((sh_px (sv_sh s))\<lparr>px_threads := None\<rparr>) = Some (g, Map.empty, evs)" "px_cache g = None"
    by auto
  have "evs = []" using destroy_defined [OF server_reachable_inv [OF s(1)] m(2)] g(2) p
    by (simp add: connection_pool_destroy_def new_pool_def empty_slot_def)
  with g s(1) m(1) show ?thesis by blast
qed

end
