(* ===== verification/Server_Strtok.thy ===== *)
theory Server_Strtok
  imports Server_Runs
begin

section \<open>Two requests at \<open>strtok\<close>\<close>

text \<open>
  \<open>strtok\<close> keeps one position for the whole process. Two runs of the server with two well-formed
  requests on two workers: in one a request line is freed under the other worker, in the other a
  request takes its path and version from the other client's line.
\<close>

text \<open>A worker has copied its request line and taken the method.\<close>

lemma first_token:
  assumes s: "server_reachable False s" "sv_run s w = Some (new_request env client)"
    and r: "receive_request env client = Some (Inr (q, bytes, line_end))"
    and t: "\<forall>sv'. strtok (Some (take line_end bytes)) CHR '' '' sv' = (meth, saved)"
  shows "\<exists>s' r. server_reachable False s' \<and> sv_run s' w = Some r \<and> rq_env r = env \<and> rq_client r = client
     \<and> rq_pc r = Q_Path (sh_next (sv_sh s)) q bytes line_end meth \<and> (\<forall>v. v \<noteq> w \<longrightarrow> sv_run s' v = sv_run s v)
     \<and> sh_saved_in (sv_sh s') = sh_next (sv_sh s) \<and> sh_next (sv_sh s) \<in> sh_lines (sv_sh s')
     \<and> px_strtok (sh_px (sv_sh s')) = saved \<and> \<not> rq_silent r"
proof -
  let ?sh = "snd (strtok_first (sv_sh s) (q, bytes, line_end))"
  have f: "fst (strtok_first (sv_sh s) (q, bytes, line_end)) = Q_Path (sh_next (sv_sh s)) q bytes line_end meth"
    "sh_saved_in ?sh = sh_next (sv_sh s)" "sh_next (sv_sh s) \<in> sh_lines ?sh" "px_strtok (sh_px ?sh) = saved"
    using t by (simp_all add: strtok_first_def)
  have "advance env client (sv_sh s) Q_Recv = Some (Q_Path (sh_next (sv_sh s)) q bytes line_end meth, ?sh, [])"
    using r f(1) by simp
  from server_runs [OF req_step [OF this req_refl] s] f(2-4) show ?thesis by (force simp: new_request_def)
qed

text \<open>C31. Two well-formed requests at the same time are enough for undefined behaviour: the saved position
  of \<open>strtok\<close> is left pointing into the request line of the one that finishes its parser last, which
  is freed, and the other one's \<open>strtok\<close> then reads freed memory.\<close>

theorem strtok_use_after_free:
  assumes "env_ok env1" "env_ok env2" and "accepts env1 [] pr1" "accepts env2 [] pr2" and "0 < client1"
  shows "\<exists>s r. server_reachable False s \<and> sv_run s 0 = Some r \<and> rq_env r = env1 \<and> rq_client r = client1 \<and> rq_pc r \<noteq> Q_Done
     \<and> sh_saved_in (sv_sh s) \<notin> sh_lines (sv_sh s)
     \<and> advance env1 client1 (sv_sh s) (rq_pc r) = None"
proof -
  from new_server_two [OF assms(1,2,5), of 7] obtain s2 where s2: "server_reachable False s2"
    "sv_run s2 0 = Some (new_request env1 client1)" "sv_run s2 1 = Some (new_request env2 7)" by auto
  from accepted_receives [OF assms(3), of client1] obtain q bytes line_end meth saved where
    a: "receive_request env1 client1 = Some (Inr (q, bytes, line_end))"
      "\<forall>sv'. strtok (Some (take line_end bytes)) CHR '' '' sv' = (meth, saved)" by blast
  from first_token [OF s2(1,2) a] s2(3) obtain s3 r where s3: "server_reachable False s3"
    "sv_run s3 0 = Some r" "rq_env r = env1" "rq_client r = client1" "rq_pc r = Q_Path (sh_next (sv_sh s2)) q bytes line_end meth"
    "sv_run s3 1 = Some (new_request env2 7)" by auto
  from accepted_parses [OF assms(4), of 7 "sv_sh s3"] obtain sh where
    "req_steps env2 7 (sv_sh s3) Q_Recv sh (Q_Forward pr2)" "sh_saved_in sh \<notin> sh_lines sh" by blast
  with server_runs [OF _ s3(1,6), of env2 7 "sv_sh s3" Q_Recv sh "Q_Forward pr2"] s3(2) obtain s4 where
    s4: "server_reachable False s4" "sv_run s4 0 = Some r" "sv_sh s4 = sh" by (auto simp: new_request_def)
  moreover have "advance env1 client1 sh (rq_pc r) = None" using \<open>sh_saved_in sh \<notin> sh_lines sh\<close> s3(5) by (simp add: strtok_next_def)
  ultimately show ?thesis using s3(3-5) \<open>sh_saved_in sh \<notin> sh_lines sh\<close> by (intro exI [of _ s4] exI [of _ r]) simp
qed

lemma plain_accepted: 
  assumes "p \<in> {''/x'', ''/y''}" and "h \<in> {''a'', ''b''}"
  shows "accepts (plain_env (plain_request ''GET'' p h) [] 0) []
      (parsed ''GET'' p ''HTTP/1.1'' (Some h) (plain_request ''GET'' p h))"
  by (rule accepts_plain) (use assms in \<open>auto simp: http_methods_def word_text_def plain_request_def render_request_def\<close>)

theorem strtok_use_after_free_witness:
  "\<exists>s r. server_reachable False s \<and> sv_run s 0 = Some r
     \<and> advance (plain_env (plain_request ''GET'' ''/x'' ''a'') [] 0) 4 (sv_sh s) (rq_pc r) = None"
proof -
  note a = plain_accepted [of "''/x''" "''a''", simplified]
  from strtok_use_after_free [OF plain_env_ok plain_env_ok a a, of 4] show ?thesis by auto
qed

text \<open>C30. Two well-formed requests at the same time can also be mixed up with nothing undefined on the way: a
  worker that has taken the method from its own line takes path and version from the line the
  other worker has started on since. It goes on to forward a request with the method and the host
  of its own client and the path of the other one.\<close>

theorem strtok_cross_request:
  assumes "env_ok env1" "env_ok env2" and "accepts env1 [] pr1" "accepts env2 [] pr2" and "0 < client1"
  shows "\<exists>s r pr. server_reachable False s \<and> sv_run s 0 = Some r \<and> rq_env r = env1 \<and> rq_client r = client1
     \<and> rq_pc r = Q_Forward pr \<and> pr_method pr = pr_method pr1 \<and> pr_host pr = pr_host pr1
     \<and> pr_path pr = pr_path pr2 \<and> pr_version pr = pr_version pr2"
proof -
  from new_server_two [OF assms(1,2,5), of 7] obtain s2 where s2: "server_reachable False s2"
    "sv_run s2 0 = Some (new_request env1 client1)" "sv_run s2 1 = Some (new_request env2 7)" by auto
  from accepted_receives [OF assms(3), of client1] obtain q1 b1 e1 m1 sv1 n1 x1 where
    a: "receive_request env1 client1 = Some (Inr (q1, b1, e1))"
      "\<forall>sv'. strtok (Some (take e1 b1)) CHR '' '' sv' = (m1, sv1)" "q1 = empty_request\<lparr>pr_buf := Some b1, pr_buflen := n1\<rparr>"
      "parse_from_method (env_parse_mem env1) q1 b1 e1 m1 sv1 = Some (0, Some pr1, x1)" by blast
  from accepted_receives [OF assms(4), of 7] obtain q2 b2 e2 m2 sv2 n2 x2 where
    b: "receive_request env2 7 = Some (Inr (q2, b2, e2))"
      "\<forall>sv'. strtok (Some (take e2 b2)) CHR '' '' sv' = (m2, sv2)" "q2 = empty_request\<lparr>pr_buf := Some b2, pr_buflen := n2\<rparr>"
      "parse_from_method (env_parse_mem env2) q2 b2 e2 m2 sv2 = Some (0, Some pr2, x2)" by blast
  from first_token [OF s2(1,2) a(1,2)] s2(3) obtain s3 r where s3: "server_reachable False s3"
    "sv_run s3 0 = Some r" "rq_env r = env1" "rq_client r = client1" "rq_pc r = Q_Path (sh_next (sv_sh s2)) q1 b1 e1 m1"
    "sv_run s3 1 = Some (new_request env2 7)" "\<not> rq_silent r" by auto
  from first_token [OF s3(1,6) b(1,2)] s3(2) obtain s4 where s4: "server_reachable False s4" "sv_run s4 0 = Some r"
    "sh_saved_in (sv_sh s4) = sh_next (sv_sh s3)" "sh_next (sv_sh s3) \<in> sh_lines (sv_sh s4)"
    "px_strtok (sh_px (sv_sh s4)) = sv2" by auto
  obtain path t1 where t1: "strtok None CHR '' '' sv2 = (path, t1)" by fastforce
  obtain version t2 where t2: "strtok None CHR '' '' t1 = (version, t2)" by fastforce
  have "env_parse_mem env1 = (\<lambda>_. True)" "env_parse_mem env2 = (\<lambda>_. True)" using assms(1,2) by (simp_all add: env_ok_def)
  moreover obtain path1 version1 where "parse_fields (\<lambda>_. True) q1 b1 e1 m1 path1 version1 = Some pr1"
    using a(4) calculation by (auto simp: parse_from_method_def split: prod.splits)
  moreover have "parse_fields (\<lambda>_. True) q2 b2 e2 m2 path version = Some pr2"
    using b(4) calculation t1 t2 by (simp add: parse_from_method_def)
  ultimately obtain pr where pr: "parse_fields (env_parse_mem env1) q1 b1 e1 m1 path version = Some pr"
      "pr_method pr = pr_method pr1" "pr_host pr = pr_host pr1" "pr_path pr = pr_path pr2" "pr_version pr = pr_version pr2"
    using a(3) b(3) by (auto simp: parse_fields_def empty_request_def bind_eq_Some_conv)
  from s4(5) t1 have "strtok None CHR '' '' (px_strtok (sh_px (sv_sh s4))) = (path, t1)" by simp
  from server_runs [OF tokens_taken [OF s4(3,4) this t2 pr(1)] s4(1,2) s3(3,4) refl s3(5,7)] pr(2-5) show ?thesis by blast
qed

theorem strtok_cross_request_witness:
  "\<exists>s r pr. server_reachable False s \<and> sv_run s 0 = Some r \<and> rq_client r = 4
     \<and> rq_pc r = Q_Forward pr \<and> pr_host pr = Some ''a'' \<and> pr_path pr = Some ''/y''"
proof -
  note a = plain_accepted [of "''/x''" "''a''", simplified] and b = plain_accepted [of "''/y''" "''b''", simplified]
  from strtok_cross_request [OF plain_env_ok plain_env_ok a b, of 4] show ?thesis
    by (force simp: parsed_def)
qed

end
