(* ===== verification/Server_Stall.thy ===== *)
theory Server_Stall
  imports Server_Runs
begin

section \<open>Clients that send nothing\<close>

text \<open>
  \<open>handle_client_request\<close> waits in \<open>recv\<close> on the client's socket, for which no timeout is set; only the
  sockets of the servers have one (\<open>recv_timeout\<close>). A client that connects and sends nothing keeps its
  request at \<open>Q_Recv\<close> for as long as it likes. Four of them hold all four workers.
\<close>

definition all_handling :: "tp_sys \<Rightarrow> bool" where
  "all_handling t \<longleftrightarrow> workers t \<noteq> [] \<and> (\<forall>pc \<in> set (workers t). \<exists>a. pc = W_Handle a) \<and> main t \<noteq> M_Drain \<and> main t \<noteq> M_Done"

subsection \<open>Four requests at once\<close>

lemma requests_start:
  assumes "\<forall>w. env_ok (env w) \<and> env_client (env w) = []" and "\<forall>w. 0 < client w" and "k \<le> 4"
  shows "\<exists>s as. server_reachable False s \<and> idle (sv_tp s) \<and> length as = k \<and> (\<forall>w \<ge> k. sv_run s w = None)
     \<and> workers (sv_tp s) = map W_Handle as @ replicate (4 - k) W_Lock
     \<and> (\<forall>w < k. sv_run s w = Some ((new_request (env w) (client w))\<lparr>rq_silent := True\<rparr>))"
  using assms(3)
proof (induction k)
  case 0
  show ?case using new_server_rest
    by (intro exI [of _ "server_start new_proxy"] exI [of _ "[]"]) (simp add: at_rest_def NUM_WORKER_THREADS_def)
next
  case (Suc k)
  then obtain s as where s: "server_reachable False s" "idle (sv_tp s)" "length as = k"
    "workers (sv_tp s) = map W_Handle as @ replicate (4 - k) W_Lock" "\<forall>w < k. sv_run s w = Some ((new_request (env w) (client w))\<lparr>rq_silent := True\<rparr>)" "\<forall>w \<ge> k. sv_run s w = None" by auto
  have pc: "pc_is (sv_tp s) k W_Lock" using s(3,4) Suc.prems by (simp add: pc_is_def nth_append)
  obtain n where n: "4 - k = Suc n" "4 - Suc k = n" using Suc.prems by (metis Suc_diff_Suc Suc_le_lessD)
  from assms(1) have "env_ok (env k)" "True \<longrightarrow> env_client (env k) = []" by simp_all
  from request_starts [OF s(1,2) pc spec [OF assms(2)] this] obtain t a where
    t: "server_reachable False (s\<lparr>sv_tp := t, sv_run := (sv_run s)(k \<mapsto> (new_request (env k) (client k))\<lparr>rq_silent := True\<rparr>)\<rparr>)" "idle t"
      "workers t = (workers (sv_tp s))[k := W_Handle a]" by blast
  have "workers t = map W_Handle (as @ [a]) @ replicate (4 - Suc k) W_Lock"
    unfolding t(3) s(4) n using s(3) by (simp add: list_update_append)
  with t(1,2) s(3,5,6) show ?case
    by (intro exI [of _ "s\<lparr>sv_tp := t, sv_run := (sv_run s)(k \<mapsto> (new_request (env k) (client k))\<lparr>rq_silent := True\<rparr>)\<rparr>"] exI [of _ "as @ [a]"])
      (auto simp: less_Suc_eq)
qed

subsection \<open>Nothing moves\<close>

lemma handling_main_step:
  assumes "main_step False t t'" and h: "all_handling t"
  shows "all_handling t' \<and> taken t' = taken t \<and> handled t' = handled t"
  using assms(1)
proof cases
  case (m_push a p pcs)
  from h have "W_Wait \<notin> set (workers t)" by (auto simp: all_handling_def)
  with m_push h show ?thesis by (simp add: all_handling_def)
next
  case m_shut
  from h have "wake_all (workers t) = workers t" by (auto simp: wake_all_def all_handling_def intro!: map_idI)
  with m_shut h show ?thesis by (simp add: all_handling_def)
next
  case m_join
  with h show ?thesis by (cases "workers t") (auto simp: all_handling_def)
qed (use h in \<open>auto simp: all_handling_def\<close>)

definition stalled :: "server \<Rightarrow> bool" where
  "stalled s \<longleftrightarrow> all_handling (sv_tp s) \<and> (\<forall>w r. sv_run s w = Some r \<longrightarrow> recv_waits r)"

lemma stalled_step:
  assumes step: "server_step False s s'" and st: "stalled s"
  shows "stalled s' \<and> taken (sv_tp s') = taken (sv_tp s) \<and> handled (sv_tp s') = handled (sv_tp s) \<and> sv_run s' = sv_run s"
proof -
  have h: "all_handling (sv_tp s)" and wait: "sv_run s w = Some r \<Longrightarrow> recv_waits r" for w r using st by (auto simp: stalled_def)
  have pc: "\<exists>a. pc = W_Handle a" if "pc_is (sv_tp s) w pc" for w pc
    using h pc_is_in [OF that] by (auto simp: all_handling_def)
  from step show ?thesis
  proof cases
    case (s_main tp)
    with handling_main_step [OF s_main(2) h] st show ?thesis by (simp add: stalled_def)
  next
    case (s_queue w p tp)
    with pc [OF s_queue(2)] show ?thesis by blast
  next
    case (s_begin w a tp env silent)
    with pc [OF s_begin(2)] show ?thesis by simp
  next
    case (s_request w r p sh evs)
    with wait show ?thesis by blast
  next
    case (s_end w r tp)
    with wait [OF s_end(2)] show ?thesis by (simp add: recv_waits_def)
  next
    case s_destroy
    with h show ?thesis by (simp add: all_handling_def)
  qed
qed

text \<open>C33. Four clients that connect and stay silent stop the server: a state is reached in which each
  worker waits in \<open>recv\<close> for one of them, and in every run of the whole server from there, whatever is
  accepted and queued meanwhile, no request ever moves, no task is taken and no client is handled,
  and even a shutdown never gets past joining the workers. A receive timeout on the clients' sockets
  would end this.\<close>

theorem silent_clients_block:
  assumes "\<forall>w. env_ok (env w) \<and> env_client (env w) = []" and "\<forall>w. 0 < client w"
  shows "\<exists>s. server_reachable False s
     \<and> (\<forall>w < 4. sv_run s w = Some ((new_request (env w) (client w))\<lparr>rq_silent := True\<rparr>))
     \<and> {(taken (sv_tp s'), handled (sv_tp s'), sv_run s') | s'. (server_step False)\<^sup>*\<^sup>* s s'}
         = {(taken (sv_tp s), handled (sv_tp s), sv_run s)}
     \<and> {main (sv_tp s') | s'. (server_step False)\<^sup>*\<^sup>* s s'} \<inter> {M_Drain, M_Done} = {}"
proof -
  from requests_start [OF assms, of 4] obtain s as where s: "server_reachable False s" "idle (sv_tp s)" "length as = 4"
    "workers (sv_tp s) = map W_Handle as" "\<forall>w < 4. sv_run s w = Some ((new_request (env w) (client w))\<lparr>rq_silent := True\<rparr>)"
    "\<forall>w \<ge> 4. sv_run s w = None" by auto
  have "recv_waits r" if r: "sv_run s w = Some r" for w r
    using r s(5,6) by (cases "w < 4") (auto simp: recv_waits_def new_request_def)
  then have st: "stalled s" using s(2-4) by (auto simp: all_handling_def idle_def stalled_def)
  have keep: "stalled s' \<and> (taken (sv_tp s'), handled (sv_tp s'), sv_run s') = (taken (sv_tp s), handled (sv_tp s), sv_run s)"
    if "(server_step False)\<^sup>*\<^sup>* s s'" for s'
    using that
  proof (induction rule: rtranclp_induct)
    case (step y z)
    with stalled_step [OF step.hyps(2)] show ?case by simp
  qed (simp add: st)
  have "{(taken (sv_tp s'), handled (sv_tp s'), sv_run s') | s'. (server_step False)\<^sup>*\<^sup>* s s'}
      = {(taken (sv_tp s), handled (sv_tp s), sv_run s)}"
    by (rule antisym) (use keep in blast, blast)
  moreover have "m \<notin> {M_Drain, M_Done}" if "m \<in> {main (sv_tp s') | s'. (server_step False)\<^sup>*\<^sup>* s s'}" for m
    using that keep by (fastforce simp: all_handling_def stalled_def)
  then have "{main (sv_tp s') | s'. (server_step False)\<^sup>*\<^sup>* s s'} \<inter> {M_Drain, M_Done} = {}" by blast
  ultimately show ?thesis using s(1,5) by blast
qed

theorem silent_clients_block_witness:
  "\<exists>s. server_reachable False s \<and> sv_run s 3 = Some ((new_request (silent_env\<lparr>env_client := []\<rparr>) 7)\<lparr>rq_silent := True\<rparr>)
     \<and> {main (sv_tp s') | s'. (server_step False)\<^sup>*\<^sup>* s s'} \<inter> {M_Drain, M_Done} = {}"
proof -
  let ?e = "silent_env\<lparr>env_client := []\<rparr>"
  have "\<forall>w :: nat. env_ok ?e \<and> env_client ?e = []" by (simp add: silent_env_def plain_env_def env_ok_def)
  from silent_clients_block [OF this, of "\<lambda>w. int w + 4"] obtain s where
    "server_reachable False s" "\<forall>w < 4. sv_run s w = Some ((new_request ?e (int w + 4))\<lparr>rq_silent := True\<rparr>)"
    "{main (sv_tp s') | s'. (server_step False)\<^sup>*\<^sup>* s s'} \<inter> {M_Drain, M_Done} = {}" by auto
  then show ?thesis by (intro exI [of _ s]) simp
qed

end
