(* ===== verification/Thread_Create.thy ===== *)
theory Thread_Create
  imports Thread_Invariant
begin

section \<open>Creating the thread pool\<close>

text \<open>
  \<open>thread_pool_create\<close> of \<^verbatim>\<open>src/components/thread_pool.c\<close> from its loop on, interleaved with the workers
  it has already created: those run \<open>worker_thread\<close> on a queue that is still empty. When
  \<open>pthread_create\<close> fails (\<open>create i\<close> is false), the loop sets \<open>shutdown\<close> and broadcasts without
  holding the mutex, joins the workers and frees the pool. Because of the missing mutex a worker's
  step from the test of the loop condition to \<open>pthread_cond_wait\<close> is not one step here: \<open>K_Check\<close>
  stands before the test and \<open>K_Decided\<close> before the call. \<open>spurious\<close> says whether a waiting
  thread may wake without a signal.
\<close>

datatype new_worker_pc = K_Lock | K_Check | K_Decided | K_Wait | K_Woken | K_Exit

datatype creator_pc = C_Create nat | C_Flag nat | C_Broadcast nat | C_Join nat nat | C_Failed | C_Returned

record create_sys =
  creator :: creator_pc
  cr_mutex :: "nat option"
  cr_shutdown :: int
  cr_workers :: "new_worker_pc list"

definition create_init :: create_sys where
  "create_init = \<lparr>creator = C_Create 0, cr_mutex = None, cr_shutdown = 0, cr_workers = []\<rparr>"

definition at_pc :: "create_sys \<Rightarrow> nat \<Rightarrow> new_worker_pc \<Rightarrow> bool" where
  "at_pc s w pc \<longleftrightarrow> w < length (cr_workers s) \<and> cr_workers s ! w = pc"

definition to_pc :: "nat \<Rightarrow> new_worker_pc \<Rightarrow> create_sys \<Rightarrow> create_sys" where
  "to_pc w pc s = s\<lparr>cr_workers := (cr_workers s)[w := pc]\<rparr>"

inductive create_step :: "(nat \<Rightarrow> bool) \<Rightarrow> bool \<Rightarrow> create_sys \<Rightarrow> create_sys \<Rightarrow> bool" for create spurious where
  k_create: "creator s = C_Create i \<Longrightarrow> i < NUM_WORKER_THREADS \<Longrightarrow> create i \<Longrightarrow>
    create_step create spurious s (s\<lparr>creator := C_Create (i + 1), cr_workers := cr_workers s @ [K_Lock]\<rparr>)"
| k_return: "creator s = C_Create i \<Longrightarrow> \<not> i < NUM_WORKER_THREADS \<Longrightarrow> create_step create spurious s (s\<lparr>creator := C_Returned\<rparr>)"
| k_fail: "creator s = C_Create i \<Longrightarrow> i < NUM_WORKER_THREADS \<Longrightarrow> \<not> create i \<Longrightarrow>
    create_step create spurious s (s\<lparr>creator := C_Flag i\<rparr>)"
| k_flag: "creator s = C_Flag i \<Longrightarrow> create_step create spurious s (s\<lparr>creator := C_Broadcast i, cr_shutdown := 1\<rparr>)"
| k_broadcast: "creator s = C_Broadcast i \<Longrightarrow>
    create_step create spurious s (s\<lparr>creator := C_Join i 0,
      cr_workers := map (\<lambda>pc. if pc = K_Wait then K_Woken else pc) (cr_workers s)\<rparr>)"
| k_join: "creator s = C_Join i j \<Longrightarrow> j < i \<Longrightarrow> at_pc s j K_Exit \<Longrightarrow> create_step create spurious s (s\<lparr>creator := C_Join i (j + 1)\<rparr>)"
| k_free: "creator s = C_Join i j \<Longrightarrow> \<not> j < i \<Longrightarrow> create_step create spurious s (s\<lparr>creator := C_Failed\<rparr>)"
| k_lock: "at_pc s w K_Lock \<or> at_pc s w K_Woken \<Longrightarrow> cr_mutex s = None \<Longrightarrow>
    create_step create spurious s (to_pc w K_Check s\<lparr>cr_mutex := Some w\<rparr>)"
| k_empty: "at_pc s w K_Check \<Longrightarrow> cr_shutdown s = 0 \<Longrightarrow> create_step create spurious s (to_pc w K_Decided s)"
| k_wait: "at_pc s w K_Decided \<Longrightarrow> create_step create spurious s (to_pc w K_Wait s\<lparr>cr_mutex := None\<rparr>)"
| k_spurious: "spurious \<Longrightarrow> at_pc s w K_Wait \<Longrightarrow> create_step create spurious s (to_pc w K_Woken s)"
| k_exit: "at_pc s w K_Check \<Longrightarrow> cr_shutdown s \<noteq> 0 \<Longrightarrow> create_step create spurious s (to_pc w K_Exit s\<lparr>cr_mutex := None\<rparr>)"

inductive create_reachable :: "(nat \<Rightarrow> bool) \<Rightarrow> bool \<Rightarrow> create_sys \<Rightarrow> bool" for create spurious where
  cr_start: "create_reachable create spurious create_init"
| cr_next: "create_reachable create spurious s \<Longrightarrow> create_step create spurious s s' \<Longrightarrow> create_reachable create spurious s'"

subsection \<open>The invariant\<close>

lemma to_pc_simps [simp]:
  "creator (to_pc w pc s) = creator s" "cr_mutex (to_pc w pc s) = cr_mutex s" "cr_shutdown (to_pc w pc s) = cr_shutdown s"
  "cr_workers (to_pc w pc s) = (cr_workers s)[w := pc]"
  by (simp_all add: to_pc_def)

text \<open>How many workers there are, and why.\<close>

fun created :: "(nat \<Rightarrow> bool) \<Rightarrow> creator_pc \<Rightarrow> nat \<Rightarrow> bool" where
  "created create (C_Create i) n \<longleftrightarrow> n = i \<and> i \<le> NUM_WORKER_THREADS \<and> (\<forall>j < i. create j)"
| "created create (C_Join i j) n \<longleftrightarrow> n = i \<and> i < NUM_WORKER_THREADS \<and> \<not> create i \<and> j \<le> i"
| "created create (C_Flag i) n \<longleftrightarrow> n = i \<and> i < NUM_WORKER_THREADS \<and> \<not> create i"
| "created create (C_Broadcast i) n \<longleftrightarrow> n = i \<and> i < NUM_WORKER_THREADS \<and> \<not> create i"
| "created create C_Failed n \<longleftrightarrow> n < NUM_WORKER_THREADS \<and> \<not> create n"
| "created create C_Returned n \<longleftrightarrow> n = NUM_WORKER_THREADS \<and> (\<forall>j < NUM_WORKER_THREADS. create j)"

fun joined :: "creator_pc \<Rightarrow> nat \<Rightarrow> nat" where
  "joined (C_Join i j) n = j"
| "joined C_Failed n = n"
| "joined _ n = 0"

fun flag_set :: "creator_pc \<Rightarrow> bool" where
  "flag_set (C_Create i) = False"
| "flag_set (C_Flag i) = False"
| "flag_set C_Returned = False"
| "flag_set _ = True"

definition create_inv :: "(nat \<Rightarrow> bool) \<Rightarrow> create_sys \<Rightarrow> bool" where
  "create_inv create s \<longleftrightarrow> created create (creator s) (length (cr_workers s))
     \<and> (cr_shutdown s \<noteq> 0 \<longleftrightarrow> flag_set (creator s))
     \<and> (\<forall>w < joined (creator s) (length (cr_workers s)). at_pc s w K_Exit)
     \<and> (cr_shutdown s = 0 \<longrightarrow> K_Exit \<notin> set (cr_workers s))
     \<and> (\<forall>w. cr_mutex s = Some w \<longleftrightarrow> at_pc s w K_Check \<or> at_pc s w K_Decided)"

lemma at_pc_to: "at_pc s w pc0 \<Longrightarrow> cr_workers s' = (cr_workers s)[w := pc] \<Longrightarrow> at_pc s' v p \<longleftrightarrow> (if v = w then p = pc else at_pc s v p)"
  by (auto simp: at_pc_def nth_list_update)

definition holds :: "new_worker_pc \<Rightarrow> bool" where
  "holds pc \<longleftrightarrow> pc = K_Check \<or> pc = K_Decided"

lemma holds_simps [simp]:
  "holds K_Check" "holds K_Decided" "\<not> holds K_Lock" "\<not> holds K_Wait" "\<not> holds K_Woken" "\<not> holds K_Exit"
  by (simp_all add: holds_def)

lemma holder: "create_inv create s \<Longrightarrow> at_pc s w pc \<Longrightarrow> holds pc \<longleftrightarrow> cr_mutex s = Some w"
  by (auto simp: create_inv_def at_pc_def holds_def)

text \<open>A worker moves; it has not been joined, because it has not exited.\<close>

lemma worker_moves:
  assumes i: "create_inv create s" and w: "at_pc s w pc0" "pc0 \<noteq> K_Exit"
    and x: "pc = K_Exit \<Longrightarrow> cr_shutdown s \<noteq> 0" and free: "holds pc \<Longrightarrow> holds pc0 \<or> cr_mutex s = None"
    and m: "m = (if holds pc then Some w else if holds pc0 then None else cr_mutex s)"
  shows "create_inv create (to_pc w pc s\<lparr>cr_mutex := m\<rparr>)"
proof -
  let ?s = "to_pc w pc s\<lparr>cr_mutex := m\<rparr>"
  have at: "at_pc ?s v p \<longleftrightarrow> (if v = w then p = pc else at_pc s v p)" for v p
    by (rule at_pc_to [OF w(1)]) simp
  have "\<not> w < joined (creator s) (length (cr_workers s))" using i w by (auto simp: create_inv_def at_pc_def)
  then have "\<forall>v < joined (creator s) (length (cr_workers s)). at_pc ?s v K_Exit"
    using i unfolding at by (auto simp: create_inv_def)
  moreover have "cr_shutdown s = 0 \<longrightarrow> K_Exit \<notin> set (cr_workers ?s)"
    using i x set_update_subset_insert [of "cr_workers s" w pc] by (auto simp: create_inv_def)
  moreover have "m = Some v \<longleftrightarrow> at_pc ?s v K_Check \<or> at_pc ?s v K_Decided" for v
  proof (cases "v = w")
    case True
    with m holder [OF i w(1)] show ?thesis unfolding at by (auto simp: holds_def)
  next
    case False
    have "cr_mutex s = Some v \<longleftrightarrow> at_pc s v K_Check \<or> at_pc s v K_Decided" using i by (simp add: create_inv_def)
    with False m free holder [OF i w(1)] show ?thesis unfolding at by (auto split: if_splits)
  qed
  ultimately show ?thesis using i by (simp add: create_inv_def)
qed

lemma create_step_inv: "create_step create spurious s s' \<Longrightarrow> create_inv create s \<Longrightarrow> create_inv create s'"
proof (induction rule: create_step.induct)
  case (k_create s i)
  then show ?case by (auto simp: create_inv_def at_pc_def nth_append less_Suc_eq)
next
  case (k_broadcast s i)
  let ?s = "s\<lparr>creator := C_Join i 0, cr_workers := map (\<lambda>pc. if pc = K_Wait then K_Woken else pc) (cr_workers s)\<rparr>"
  have "at_pc ?s w pc \<longleftrightarrow> at_pc s w pc" if "pc = K_Check \<or> pc = K_Decided" for w pc
    using that by (auto simp: at_pc_def split: if_splits)
  with k_broadcast show ?case by (auto simp: create_inv_def)
next
  case (k_lock s w)
  then show ?case using worker_moves [of create s w _ K_Check "Some w"] by auto
next
  case (k_empty s w)
  have "to_pc w K_Decided s\<lparr>cr_mutex := Some w\<rparr> = to_pc w K_Decided s"
    using holder [OF k_empty.prems k_empty.hyps(1)] by (simp add: to_pc_def)
  then show ?case using worker_moves [OF k_empty.prems k_empty.hyps(1), of K_Decided "Some w"] by simp
next
  case (k_wait s w)
  from worker_moves [OF k_wait.prems k_wait.hyps(1), of K_Wait None] show ?case by simp
next
  case (k_spurious s w)
  have same: "to_pc w K_Woken s\<lparr>cr_mutex := cr_mutex s\<rparr> = to_pc w K_Woken s" by (simp add: to_pc_def)
  have "create_inv create (to_pc w K_Woken s\<lparr>cr_mutex := cr_mutex s\<rparr>)"
    by (rule worker_moves [OF k_spurious.prems k_spurious.hyps(2)]) simp_all
  then show ?case unfolding same .
next
  case (k_exit s w)
  from worker_moves [OF k_exit.prems k_exit.hyps(1), of K_Exit None] k_exit.hyps(2) show ?case by simp
qed (auto simp: create_inv_def at_pc_def less_Suc_eq)

lemma create_reachable_inv: "create_reachable create spurious s \<Longrightarrow> create_inv create s"
proof (induction rule: create_reachable.induct)
  case cr_start
  show ?case by (simp add: create_inv_def create_init_def at_pc_def)
qed (rule create_step_inv)

subsection \<open>A pool that was created\<close>

text \<open>As long as no creation fails, the workers run as those of \<open>Thread_Pool\<close> do; the ones that are
  not created yet have not made a step.\<close>

fun as_worker :: "new_worker_pc \<Rightarrow> worker_pc" where
  "as_worker K_Lock = W_Lock"
| "as_worker K_Check = W_Check"
| "as_worker K_Decided = W_Check"
| "as_worker K_Wait = W_Wait"
| "as_worker K_Woken = W_Woken"
| "as_worker K_Exit = W_Exit"

definition as_pool :: "create_sys \<Rightarrow> tp_sys" where
  "as_pool s = tp_init\<lparr>mutex := map_option By_Worker (cr_mutex s),
     workers := map as_worker (cr_workers s) @ replicate (NUM_WORKER_THREADS - length (cr_workers s)) W_Lock\<rparr>"

lemma as_pool_simps [simp]:
  "task_queue_head (pool (as_pool s)) = None" "shutdown (pool (as_pool s)) = 0" "mutex (as_pool s) = map_option By_Worker (cr_mutex s)"
  by (simp_all add: as_pool_def tp_init_def)

lemma as_pool_at: "at_pc s w pc \<Longrightarrow> pc_is (as_pool s) w (as_worker pc)"
  by (auto simp: at_pc_def pc_is_def as_pool_def nth_append)

lemma as_pool_to: "at_pc s w pc0 \<Longrightarrow> as_pool (to_pc w pc s) = goto w (as_worker pc) (as_pool s)"
  by (simp add: as_pool_def goto_def at_pc_def list_update_append map_update)

lemma as_pool_mutex [simp]: "as_pool (s\<lparr>cr_mutex := m\<rparr>) = (as_pool s)\<lparr>mutex := map_option By_Worker m\<rparr>"
  by (simp add: as_pool_def)

lemma goto_same: "pc_is t w pc \<Longrightarrow> goto w pc t = t"
  by (auto simp: goto_def pc_is_def)

lemma create_step_pool:
  assumes step: "create_step create spurious s s'" and i: "create_inv create s" and sh: "cr_shutdown s' = 0"
  shows "as_pool s' = as_pool s \<or> (\<exists>w. worker_step w (as_pool s) (as_pool s'))"
  using step
proof (cases rule: create_step.cases)
  case (k_create i)
  have "length (cr_workers s) = i" "i < NUM_WORKER_THREADS" using k_create i by (auto simp: create_inv_def)
  then have "replicate (NUM_WORKER_THREADS - length (cr_workers s)) W_Lock = W_Lock # replicate (NUM_WORKER_THREADS - Suc i) W_Lock"
    by (metis Suc_diff_Suc replicate_Suc)
  then show ?thesis using k_create(1) \<open>length (cr_workers s) = i\<close> by (simp add: as_pool_def)
next
  case (k_lock w)
  then obtain pc where pc: "at_pc s w pc" "as_worker pc = W_Lock \<or> as_worker pc = W_Woken" by force
  have "worker_step w (as_pool s) (goto w W_Check (as_pool s)\<lparr>mutex := Some (By_Worker w)\<rparr>)"
    by (rule w_lock) (use as_pool_at [OF pc(1)] pc(2) k_lock(3) in auto)
  then show ?thesis using k_lock(1) as_pool_to [OF pc(1), of K_Check] by auto
next
  case (k_empty w)
  then show ?thesis using as_pool_to [OF k_empty(2), of K_Decided] as_pool_at [OF k_empty(2)] by (simp add: goto_same)
next
  case (k_wait w)
  have "worker_step w (as_pool s) (goto w W_Wait (as_pool s)\<lparr>mutex := None\<rparr>)"
    by (rule w_wait) (use as_pool_at [OF k_wait(2)] in auto)
  then show ?thesis using k_wait(1) as_pool_to [OF k_wait(2), of K_Wait] by auto
next
  case (k_spurious w)
  have "worker_step w (as_pool s) (goto w W_Woken (as_pool s))"
    by (rule w_spurious) (use as_pool_at [OF k_spurious(3)] in auto)
  then show ?thesis using k_spurious(1) as_pool_to [OF k_spurious(3), of K_Woken] by auto
next
  case (k_exit w)
  with sh show ?thesis by simp
qed (use sh i in \<open>auto simp: as_pool_def create_inv_def\<close>)

lemma create_shutdown_back: "create_step create spurious s s' \<Longrightarrow> cr_shutdown s' = 0 \<Longrightarrow> cr_shutdown s = 0"
  by (erule create_step.cases) auto

lemma create_reachable_pool: "create_reachable create spurious s \<Longrightarrow> cr_shutdown s = 0 \<Longrightarrow> tp_reachable False (as_pool s)"
proof (induction rule: create_reachable.induct)
  case cr_start
  have "as_pool create_init = tp_init" by (simp add: as_pool_def create_init_def tp_init_def)
  then show ?case using tp_start by simp
next
  case (cr_next s s')
  from create_shutdown_back [OF cr_next.hyps(2) cr_next.prems] have r: "tp_reachable False (as_pool s)" by (rule cr_next.IH)
  from create_step_pool [OF cr_next.hyps(2) create_reachable_inv [OF cr_next.hyps(1)] cr_next.prems] show ?case
    using r tp_next [OF r by_worker] by auto
qed

subsection \<open>Properties\<close>

text \<open>C19. Interleaved with the workers it has created, \<open>thread_pool_create\<close> returns a pool exactly when
  all four threads could be created, and then the pool is in a state that \<open>Thread_Pool\<close> reaches:
  its initial state is no idealisation. When it returns NULL after a failed creation, every worker
  created before has exited and released the mutex, so nobody uses the pool that was freed.\<close>

theorem thread_pool_create_outcome:
  assumes "create_reachable create spurious s"
  shows "(creator s = C_Returned \<longrightarrow> thread_pool_create True True True create \<noteq> None \<and> length (cr_workers s) = 4
        \<and> tp_reachable False (as_pool s))
     \<and> (creator s = C_Failed \<longrightarrow> thread_pool_create True True True create = None \<and> set (cr_workers s) \<subseteq> {K_Exit}
        \<and> cr_mutex s = None)"
proof -
  from create_reachable_inv [OF assms] have i: "create_inv create s" .
  have "thread_pool_create True True True create \<noteq> None \<and> length (cr_workers s) = 4 \<and> tp_reachable False (as_pool s)"
    if c: "creator s = C_Returned"
    using i c create_reachable_pool [OF assms]
    by (auto simp: create_inv_def thread_pool_create_def list_all_iff NUM_WORKER_THREADS_def)
  moreover have "thread_pool_create True True True create = None \<and> set (cr_workers s) \<subseteq> {K_Exit} \<and> cr_mutex s = None"
    if c: "creator s = C_Failed"
  proof -
    have all: "\<forall>w < length (cr_workers s). at_pc s w K_Exit" using i c by (simp add: create_inv_def)
    then have "set (cr_workers s) \<subseteq> {K_Exit}" by (auto simp: at_pc_def in_set_conv_nth)
    moreover from all have "\<not> at_pc s w K_Check \<and> \<not> at_pc s w K_Decided" for w by (auto simp: at_pc_def)
    then have "cr_mutex s = None" using i by (cases "cr_mutex s") (auto simp: create_inv_def)
    ultimately show ?thesis using i c by (auto simp: create_inv_def thread_pool_create_def list_all_iff)
  qed
  ultimately show ?thesis by blast
qed

lemma all_created:
  assumes "\<forall>j < NUM_WORKER_THREADS. create j"
  shows "create_reachable create spurious (create_init\<lparr>creator := C_Returned, cr_workers := replicate NUM_WORKER_THREADS K_Lock\<rparr>)"
proof -
  have r: "i \<le> NUM_WORKER_THREADS \<Longrightarrow>
      create_reachable create spurious (create_init\<lparr>creator := C_Create i, cr_workers := replicate i K_Lock\<rparr>)" for i
  proof (induction i)
    case 0
    have "create_init\<lparr>creator := C_Create 0, cr_workers := replicate 0 K_Lock\<rparr> = create_init" by (simp add: create_init_def)
    then show ?case using cr_start by simp
  next
    case (Suc i)
    then have r: "create_reachable create spurious (create_init\<lparr>creator := C_Create i, cr_workers := replicate i K_Lock\<rparr>)" by simp
    have "create_step create spurious (create_init\<lparr>creator := C_Create i, cr_workers := replicate i K_Lock\<rparr>)
        (create_init\<lparr>creator := C_Create (Suc i), cr_workers := replicate (Suc i) K_Lock\<rparr>)"
      using k_create [of "create_init\<lparr>creator := C_Create i, cr_workers := replicate i K_Lock\<rparr>" i create spurious] Suc.prems assms
      by (simp add: replicate_append_same [symmetric])
    with r show ?case by (rule cr_next)
  qed
  let ?s = "create_init\<lparr>creator := C_Create NUM_WORKER_THREADS, cr_workers := replicate NUM_WORKER_THREADS K_Lock\<rparr>"
  have e: "?s\<lparr>creator := C_Returned\<rparr> = create_init\<lparr>creator := C_Returned, cr_workers := replicate NUM_WORKER_THREADS K_Lock\<rparr>" by simp
  have "create_step create spurious ?s (?s\<lparr>creator := C_Returned\<rparr>)" by (rule k_return [of _ NUM_WORKER_THREADS]) simp_all
  from cr_next [OF r [OF order_refl] this] show ?thesis unfolding e .
qed

theorem thread_pool_create_outcome_witness:
  "thread_pool_create True True True (\<lambda>_. True) \<noteq> None
     \<and> tp_reachable False (as_pool (create_init\<lparr>creator := C_Returned, cr_workers := replicate NUM_WORKER_THREADS K_Lock\<rparr>))"
  using thread_pool_create_outcome [OF all_created [of "\<lambda>_. True" False]] by simp

text \<open>C32. Setting \<open>shutdown\<close> and broadcasting without the mutex loses a wakeup: when the second
  \<open>pthread_create\<close> fails while the first worker is between its test of \<open>shutdown\<close> and
  \<open>pthread_cond_wait\<close>, the broadcast wakes nobody, the worker waits for ever, and the creation never
  returns from its join. No step is left but a spurious wakeup, which nothing guarantees.\<close>

theorem create_failure_hangs:
  assumes "create 0" and "\<not> create 1"
  shows "\<exists>s. create_reachable create False s \<and> creator s = C_Join 1 0 \<and> cr_workers s = [K_Wait]
     \<and> {s'. create_step create False s s'} = {}"
proof -
  let ?s = "\<lambda>c m sh pc. \<lparr>creator = c, cr_mutex = m, cr_shutdown = sh, cr_workers = [pc]\<rparr>"
  note step = cr_next [of create False]
  have "create_step create False create_init (?s (C_Create 1) None 0 K_Lock)"
    using k_create [of create_init 0 create False] assms(1) by (simp add: create_init_def NUM_WORKER_THREADS_def)
  from step [OF cr_start this] have r1: "create_reachable create False (?s (C_Create 1) None 0 K_Lock)" .
  have "create_step create False (?s (C_Create 1) None 0 K_Lock) (?s (C_Create 1) (Some 0) 0 K_Check)"
    using k_lock [of "?s (C_Create 1) None 0 K_Lock" 0 create False] by (simp add: to_pc_def at_pc_def)
  from step [OF r1 this] have r2: "create_reachable create False (?s (C_Create 1) (Some 0) 0 K_Check)" .
  have "create_step create False (?s (C_Create 1) (Some 0) 0 K_Check) (?s (C_Create 1) (Some 0) 0 K_Decided)"
    using k_empty [of "?s (C_Create 1) (Some 0) 0 K_Check" 0 create False] by (simp add: to_pc_def at_pc_def)
  from step [OF r2 this] have r3: "create_reachable create False (?s (C_Create 1) (Some 0) 0 K_Decided)" .
  have "create_step create False (?s (C_Create 1) (Some 0) 0 K_Decided) (?s (C_Flag 1) (Some 0) 0 K_Decided)"
    using k_fail [of "?s (C_Create 1) (Some 0) 0 K_Decided" 1 create False] assms(2) by (simp add: NUM_WORKER_THREADS_def)
  from step [OF r3 this] have r4: "create_reachable create False (?s (C_Flag 1) (Some 0) 0 K_Decided)" .
  have "create_step create False (?s (C_Flag 1) (Some 0) 0 K_Decided) (?s (C_Broadcast 1) (Some 0) 1 K_Decided)"
    using k_flag [of "?s (C_Flag 1) (Some 0) 0 K_Decided" 1 create False] by simp
  from step [OF r4 this] have r5: "create_reachable create False (?s (C_Broadcast 1) (Some 0) 1 K_Decided)" .
  have "create_step create False (?s (C_Broadcast 1) (Some 0) 1 K_Decided) (?s (C_Join 1 0) (Some 0) 1 K_Decided)"
    using k_broadcast [of "?s (C_Broadcast 1) (Some 0) 1 K_Decided" 1 create False] by simp
  from step [OF r5 this] have r6: "create_reachable create False (?s (C_Join 1 0) (Some 0) 1 K_Decided)" .
  have "create_step create False (?s (C_Join 1 0) (Some 0) 1 K_Decided) (?s (C_Join 1 0) None 1 K_Wait)"
    using k_wait [of "?s (C_Join 1 0) (Some 0) 1 K_Decided" 0 create False] by (simp add: to_pc_def at_pc_def)
  from step [OF r6 this] have r7: "create_reachable create False (?s (C_Join 1 0) None 1 K_Wait)" .
  have "\<not> create_step create False (?s (C_Join 1 0) None 1 K_Wait) s'" for s'
    by (auto simp: at_pc_def elim!: create_step.cases)
  with r7 show ?thesis by (intro exI [of _ "?s (C_Join 1 0) None 1 K_Wait"]) simp
qed

theorem create_failure_hangs_witness:
  "\<exists>s. create_reachable (\<lambda>i. i = 0) False s \<and> {s'. create_step (\<lambda>i. i = 0) False s s'} = {}"
  using create_failure_hangs [of "\<lambda>i. i = 0"] by auto

end
