(* ===== verification/Accept_Loop.thy ===== *)
theory Accept_Loop
  imports Proxy_States Thread_Pool "HOL-Library.Sublist"
begin

section \<open>The listening socket and the accept loop\<close>

text \<open>
  \<open>proxy_server_start\<close> on the list of the results that \<open>accept\<close> has given so far: a failed
  \<open>accept\<close> is skipped, a client becomes a task, and a client whose task could not be made is
  closed. The loop has no end, so the result is where the main thread stands after these clients
  when the workers have not run; how it interleaves with them is \<open>Thread_Pool\<close>, of which the
  loop is a run (\<open>accept_clients_steps\<close>). Each client comes with the allocator its task is asked from.
\<close>

record main_env =
  me_init :: init_env
  me_socket :: int
  me_setsockopt :: int
  me_bind :: int
  me_listen :: int
  me_clients :: "(int \<times> task allocator) list"

fun accept_clients :: "(int \<times> task allocator) list \<Rightarrow> thread_pool option \<Rightarrow> (thread_pool option \<times> sys_event list) option" where
  "accept_clients [] pl = Some (pl, [])"
| "accept_clients ((fd, al) # cs) pl =
     do {
       (pl, evs) \<leftarrow> accept_client al pl fd;
       (pl, evs') \<leftarrow> accept_clients cs pl;
       Some (pl, evs @ evs')
     }"

text \<open>The listening socket, negative when the function has returned, and the state of the program.\<close>

definition proxy_server_start :: "main_env \<Rightarrow> proxy \<Rightarrow> (int \<times> proxy \<times> sys_event list) option" where
  "proxy_server_start me g =
     (case create_server_socket (me_socket me) (me_setsockopt me) (me_bind me) (me_listen me) of (server_socket, evs) \<Rightarrow>
        if server_socket < 0 then Some (server_socket, g, evs)
        else do {
          (pl, evs') \<leftarrow> accept_clients (me_clients me) (px_threads g);
          Some (server_socket, g\<lparr>px_threads := pl\<rparr>, evs @ evs')
        })"

subsection \<open>One client\<close>

definition queued_socks :: "thread_pool \<Rightarrow> addr list \<Rightarrow> int list" where
  "queued_socks pl as = map (\<lambda>a. client_socket (the (tasks pl a))) as"

definition memory_left :: "task allocator \<Rightarrow> bool" where
  "memory_left al \<longleftrightarrow> (\<forall>h. finite (dom h) \<longrightarrow> al h \<noteq> None)"

definition pool_ready :: "thread_pool \<Rightarrow> addr list \<Rightarrow> bool" where
  "pool_ready pl as \<longleftrightarrow> queue_repr pl as \<and> finite (dom (tasks pl))"

lemma queued_socks_cong:
  assumes "\<And>a. a \<in> set as \<Longrightarrow> map_option client_socket (tasks pl' a) = map_option client_socket (tasks pl a)"
    and "set as \<subseteq> dom (tasks pl)"
  shows "queued_socks pl' as = queued_socks pl as"
proof -
  have "client_socket (the (tasks pl' a)) = client_socket (the (tasks pl a))" if "a \<in> set as" for a
    using assms(1) [OF that] assms(2) that by (cases "tasks pl' a"; cases "tasks pl a") auto
  then show ?thesis by (simp add: queued_socks_def)
qed

lemma queue_allocated: "queue_repr pl as \<Longrightarrow> set as \<subseteq> dom (tasks pl)"
  by (auto simp: queue_repr_def dest: lseg_allocated)

text \<open>A client is put at the end of the queue, or closed if it is valid and cannot be.\<close>

lemma accept_client_ok:
  assumes q: "pool_ready pl as" and al: "alloc_fresh al"
  shows "\<exists>pl' bs evs. accept_client al (Some pl) fd = Some (Some pl', evs) \<and> pool_ready pl' (as @ bs)
     \<and> queued_socks pl' (as @ bs) = queued_socks pl as @ (if 0 < fd \<and> al (tasks pl) \<noteq> None then [fd] else [])
     \<and> closed_socks evs = (if 0 \<le> fd \<and> (fd = 0 \<or> al (tasks pl) = None) then [fd] else [])"
proof (cases "0 < fd \<and> al (tasks pl) \<noteq> None")
  case False
  then have "accept_client al (Some pl) fd = Some (Some pl, if fd < 0 then [] else socket_close fd)"
    by (auto simp: accept_client_def thread_pool_add_task_def new_task_def split: option.splits)
  with False q show ?thesis
    by (intro exI [of _ pl] exI [of _ "[]"] exI [of _ "if fd < 0 then [] else socket_close fd"]) auto
next
  case True
  then obtain a where a: "al (tasks pl) = Some a" by auto
  from alloc_freshD [OF al a] have new: "tasks pl a = None" .
  have qr: "queue_repr pl as" and fin: "finite (dom (tasks pl))" using q by (simp_all add: pool_ready_def)
  from queue_allocated [OF qr] new have na: "a \<notin> set as" by auto
  let ?p = "pl\<lparr>tasks := (tasks pl)(a \<mapsto> \<lparr>client_socket = fd, t_next = None\<rparr>)\<rparr>"
  have r: "queue_repr ?p as" using qr na by (simp add: queue_repr_def)
  from queue_push_ok [OF r _ na] obtain p where p: "queue_push a ?p = Some p" "queue_repr p (as @ [a])"
    "dom (tasks p) = dom (tasks ?p)" "\<And>b. map_option client_socket (tasks p b) = map_option client_socket (tasks ?p b)"
    by (auto simp: spare_task_def)
  have "queued_socks p (as @ [a]) = queued_socks ?p (as @ [a])"
    by (rule queued_socks_cong [OF p(4)]) (use queue_allocated [OF qr] in auto)
  also have "\<dots> = queued_socks pl as @ [fd]" using na by (auto simp: queued_socks_def)
  finally have "queued_socks p (as @ [a]) = queued_socks pl as @ [fd]" .
  moreover have "accept_client al (Some pl) fd = Some (Some p, [])"
    using True a p(1) by (simp add: accept_client_def thread_pool_add_task_def new_task_def)
  ultimately show ?thesis using True p(2,3) fin by (intro exI [of _ p] exI [of _ "[a]"] exI [of _ "[]"]) (auto simp: pool_ready_def)
qed

subsection \<open>The loop\<close>

text \<open>Which of the clients \<open>cs\<close> are queued, and which are closed.\<close>

definition sorted_out :: "(int \<times> task allocator) list \<Rightarrow> int list \<Rightarrow> int list \<Rightarrow> bool" where
  "sorted_out cs xs closed \<longleftrightarrow> subseq xs (filter (\<lambda>fd. 0 < fd) (map fst cs))
     \<and> mset xs + mset closed = mset (filter (\<lambda>fd. 0 \<le> fd) (map fst cs))
     \<and> ((\<forall>(fd, al) \<in> set cs. memory_left al) \<longrightarrow> xs = filter (\<lambda>fd. 0 < fd) (map fst cs))"

lemma sorted_out_Cons:
  assumes "sorted_out cs xs closed" and "memory_left al \<longrightarrow> has_memory"
  shows "sorted_out ((fd, al) # cs) ((if 0 < fd \<and> has_memory then [fd] else []) @ xs)
     ((if 0 \<le> fd \<and> (fd = 0 \<or> \<not> has_memory) then [fd] else []) @ closed)"
  using assms by (auto simp: sorted_out_def)

lemma accept_clients_ok:
  "pool_ready pl as \<Longrightarrow> \<forall>(fd, al) \<in> set cs. alloc_fresh al \<Longrightarrow>
    \<exists>pl' bs xs evs. accept_clients cs (Some pl) = Some (Some pl', evs) \<and> pool_ready pl' (as @ bs)
     \<and> queued_socks pl' (as @ bs) = queued_socks pl as @ xs \<and> sorted_out cs xs (closed_socks evs)"
proof (induction cs arbitrary: pl as)
  case Nil
  then show ?case by (intro exI [of _ pl] exI [of _ "[]"]) (simp add: sorted_out_def)
next
  case (Cons c cs)
  obtain fd al where c: "c = (fd, al)" by fastforce
  from Cons.prems(2) c have al: "alloc_fresh al" "\<forall>(fd, al) \<in> set cs. alloc_fresh al" by auto
  from accept_client_ok [OF Cons.prems(1) al(1), of fd] obtain p1 bs1 evs1 where
    o: "accept_client al (Some pl) fd = Some (Some p1, evs1)" "pool_ready p1 (as @ bs1)"
      "queued_socks p1 (as @ bs1) = queued_socks pl as @ (if 0 < fd \<and> al (tasks pl) \<noteq> None then [fd] else [])"
      "closed_socks evs1 = (if 0 \<le> fd \<and> (fd = 0 \<or> \<not> al (tasks pl) \<noteq> None) then [fd] else [])" by auto
  from Cons.IH [OF o(2) al(2)] obtain p2 bs2 xs2 evs2 where
    r: "accept_clients cs (Some p1) = Some (Some p2, evs2)" "pool_ready p2 ((as @ bs1) @ bs2)"
      "queued_socks p2 ((as @ bs1) @ bs2) = queued_socks p1 (as @ bs1) @ xs2" "sorted_out cs xs2 (closed_socks evs2)" by blast
  have "memory_left al \<longrightarrow> al (tasks pl) \<noteq> None" using Cons.prems(1) by (simp add: memory_left_def pool_ready_def)
  from sorted_out_Cons [OF r(4) this, of fd] o(1,3,4) r(1-3) c show ?case
    by (intro exI [of _ p2] exI [of _ "bs1 @ bs2"] exI [of _ "(if 0 < fd \<and> al (tasks pl) \<noteq> None then [fd] else []) @ xs2"]
        exI [of _ "evs1 @ evs2"]) simp
qed

text \<open>C16. The accept loop, for any results of \<open>accept\<close> and any failures of \<open>malloc\<close>: it never leaves defined
  behaviour, the clients it queues are in the order in which they came, behind those already
  waiting, every descriptor that was accepted is either queued or closed and none both, failed
  calls of \<open>accept\<close> leave no trace, and while there is memory the only descriptor it closes is 0,
  which the task queue takes for an error.\<close>

theorem accept_loop_correct:
  assumes "queue_repr pl as" and "finite (dom (tasks pl))" and "\<forall>(fd, al) \<in> set cs. alloc_fresh al"
  shows "\<exists>pl' bs xs evs. accept_clients cs (Some pl) = Some (Some pl', evs) \<and> queue_repr pl' (as @ bs)
     \<and> queued_socks pl' (as @ bs) = queued_socks pl as @ xs
     \<and> subseq xs (filter (\<lambda>fd. 0 < fd) (map fst cs))
     \<and> mset xs + mset (closed_socks evs) = mset (filter (\<lambda>fd. 0 \<le> fd) (map fst cs))
     \<and> ((\<forall>(fd, al) \<in> set cs. memory_left al) \<longrightarrow> xs = filter (\<lambda>fd. 0 < fd) (map fst cs))"
proof -
  have "pool_ready pl as" using assms(1,2) by (simp add: pool_ready_def)
  from accept_clients_ok [OF this assms(3)] show ?thesis unfolding pool_ready_def sorted_out_def by blast
qed

theorem accept_loop_correct_witness:
  "\<exists>pl' bs evs. accept_clients [(5, first_fit 3), (- 1, first_fit 3), (0, first_fit 3), (6, \<lambda>_. None), (7, first_fit 3)]
       (Some (pool tp_init)) = Some (Some pl', evs)
     \<and> queue_repr pl' bs \<and> mset (queued_socks pl' bs) + mset (closed_socks evs) = {#5, 0, 6, 7#}"
proof -
  let ?cs = "[(5, first_fit 3), (- 1, first_fit 3), (0, first_fit 3), (6, \<lambda>_. None), (7, first_fit 3)] :: (int \<times> task allocator) list"
  have q: "queue_repr (pool tp_init) []" "finite (dom (tasks (pool tp_init)))" by (simp_all add: tp_init_def queue_repr_def)
  have f: "\<forall>(fd, al) \<in> set ?cs. alloc_fresh al" by (simp add: alloc_fresh_def [of "\<lambda>_. None"])
  have "queued_socks (pool tp_init) [] = []" by (simp add: queued_socks_def)
  with accept_loop_correct [OF q f] obtain pl' bs xs evs where
    "accept_clients ?cs (Some (pool tp_init)) = Some (Some pl', evs)" "queue_repr pl' bs" "queued_socks pl' bs = xs"
    "mset xs + mset (closed_socks evs) = mset (filter (\<lambda>fd. 0 \<le> fd) (map fst ?cs))" by auto
  then show ?thesis by (intro exI [of _ pl'] exI [of _ bs] exI [of _ evs]) simp
qed

text \<open>The loop is a run of the main thread of \<open>Thread_Pool\<close>, failed calls of \<open>accept\<close> included.\<close>

lemma accept_clients_steps:
  "main s = M_Accept \<Longrightarrow> mutex s = None \<Longrightarrow> \<forall>(fd, al) \<in> set cs. alloc_fresh al \<Longrightarrow>
    accept_clients cs (Some (pool s)) = Some (Some p, evs) \<Longrightarrow>
    \<exists>s'. (main_step sig)\<^sup>*\<^sup>* s s' \<and> pool s' = p \<and> main s' = M_Accept \<and> mutex s' = None
     \<and> refused s' = refused s @ closed_socks evs \<and> accepted s' = accepted s @ filter (\<lambda>fd. 0 \<le> fd) (map fst cs)
     \<and> failed s' = failed s + length (filter (\<lambda>fd. fd < 0) (map fst cs))"
proof (induction cs arbitrary: s evs)
  case Nil
  then show ?case by (intro exI [of _ s]) simp
next
  case (Cons c cs)
  obtain fd al where c: "c = (fd, al)" by fastforce
  with Cons.prems(4) obtain q evs1 evs2 where o: "accept_client al (Some (pool s)) fd = Some (q, evs1)"
    "accept_clients cs q = Some (Some p, evs2)" "evs = evs1 @ evs2" by (auto simp: bind_eq_Some_conv)
  have al: "alloc_fresh al" "\<forall>(fd, al) \<in> set cs. alloc_fresh al" using Cons.prems(3) c by auto
  show ?case
  proof (cases "fd < 0")
    case True
    with o(1) have q: "q = Some (pool s)" "evs1 = []" by (simp_all add: accept_client_def)
    let ?s = "s\<lparr>failed := failed s + 1\<rparr>"
    from Cons.IH [of ?s evs2] Cons.prems(1,2) al(2) q o(2) obtain s' where
      s': "(main_step sig)\<^sup>*\<^sup>* ?s s'" "pool s' = p" "main s' = M_Accept" "mutex s' = None"
        "refused s' = refused s @ closed_socks evs2" "accepted s' = accepted s @ filter (\<lambda>fd. 0 \<le> fd) (map fst cs)"
        "failed s' = failed s + 1 + length (filter (\<lambda>fd. fd < 0) (map fst cs))"
      by auto
    from converse_rtranclp_into_rtranclp [of "main_step sig", OF m_failed [OF Cons.prems(1)] s'(1)] s' o(3) q c True
    show ?thesis by (intro exI [of _ s']) simp
  next
    case False
    then have "0 \<le> fd" by simp
    obtain p1 where q: "q = Some p1"
      using o(1) False by (auto simp: accept_client_def thread_pool_add_task_def bind_eq_Some_conv split: if_splits prod.splits option.splits)
    from accept_client_steps [OF Cons.prems(1,2) al(1) \<open>0 \<le> fd\<close> o(1) [unfolded q], of sig] obtain s1 where
      s1: "(main_step sig)\<^sup>*\<^sup>* s s1" "pool s1 = p1" "main s1 = M_Accept" "mutex s1 = None"
        "refused s1 = refused s @ closed_socks evs1" "accepted s1 = accepted s @ [fd]" "failed s1 = failed s" by blast
    from Cons.IH [OF s1(3,4) al(2), of evs2] o(2) q s1(2) obtain s2 where
      "(main_step sig)\<^sup>*\<^sup>* s1 s2" "pool s2 = p" "main s2 = M_Accept" "mutex s2 = None"
        "refused s2 = refused s1 @ closed_socks evs2" "accepted s2 = accepted s1 @ filter (\<lambda>fd. 0 \<le> fd) (map fst cs)"
        "failed s2 = failed s1 + length (filter (\<lambda>fd. fd < 0) (map fst cs))" by auto
    with s1 o(3) c False show ?thesis by (intro exI [of _ s2]) (auto intro: rtranclp_trans)
  qed
qed

end
