(* ===== verification/Proxy_Main.thy ===== *)
theory Proxy_Main
  imports Accept_Loop
begin

section \<open>The program from its command line to its exit\<close>

text \<open>
  \<open>main\<close> and \<open>signal_handler\<close> of \<^verbatim>\<open>src/proxy_server.c\<close>: the port, the initialisation, and
  \<open>proxy_server_start\<close>, which either is in the accept loop (\<open>Serves\<close>, with what it has done so far), to be
  ended only by a signal, or has returned, and the program ends. \<open>None\<close> is undefined behaviour.
\<close>

datatype main_outcome = Exits int "sys_event list" proxy | Serves int int proxy "sys_event list"

definition exit_after_shutdown :: "sys_event list \<Rightarrow> proxy \<Rightarrow> main_outcome option" where
  "exit_after_shutdown evs g = map_option (\<lambda>(g', nodes, evs'). Exits 0 (evs @ evs') g') (proxy_server_shutdown g)"

text \<open>\<open>exit\<close> in the handler has the status of a normal end.\<close>

definition signal_handler :: "proxy \<Rightarrow> main_outcome option" where
  "signal_handler g = exit_after_shutdown [] g"







end
