(* ===== verification/Spec2Isabelle.thy ===== *)
theory Spec2Isabelle
  imports Cache_Properties Pool_Properties Http_Properties Thread_Properties Proxy_States
    Thread_Signals Server_Properties Server_Strtok Server_Stall Thread_Create Proxy_Main
begin

text \<open>
  A verification library for the HTTP proxy server in C under \<^verbatim>\<open>src/\<close>: one thread accepts
  connections and queues them, four workers take them, and each request is validated, parsed,
  answered from a cache or forwarded to its server over a pool of connections. This theory holds
  the properties of whole requests; the properties of each part are in its own theory.

  \<^bold>\<open>The parts and their theories.\<close>

  \<^item> \<open>Proxy_Prelude\<close>, \<open>Linked_Lists\<close>, \<open>C_Strings\<close>, \<open>Platform\<close>: heaps with checked dereference
    (\<open>deref\<close>, \<open>poke\<close>, \<open>release\<close>) and allocators, list segments, the C string functions
    (\<open>strstr\<close>, \<open>strchr\<close>, \<open>strtok\<close>, \<open>atoi\<close>, \<open>snprintf\<close>), and the log of socket events
    with \<open>socket_close\<close>, \<open>bzero\<close>, \<open>bcopy\<close> and the Winsock state of \<^verbatim>\<open>src/components/platform.c\<close>.
  \<^item> \<open>Cache\<close>: \<^verbatim>\<open>src/components/cache.c\<close> on an explicit heap of nodes, with the hash chains and
    the recency list as pointers. \<open>Cache_Lists\<close>, \<open>Cache_Refinement\<close> and \<open>Cache_Expiry\<close> relate it
    to the abstract recency list of \<open>Cache_Spec\<close>, \<open>Cache_Contract\<close> gives the contract as a locale
    with its interpretation \<open>rc\<close>, \<open>Cache_Hash\<close> treats the hash function, and
    \<open>Cache_Properties\<close> has the properties.
  \<^item> \<open>Connection_Pool\<close>: \<^verbatim>\<open>src/components/connection_pool.c\<close>, a list of 20 entries.
    \<open>Pool_Contract\<close> has the locale of a pool of sockets and its interpretation \<open>cp\<close>,
    \<open>Pool_Properties\<close> the pool with its clients as a state machine.
  \<^item> \<open>Http_Parser\<close>: \<^verbatim>\<open>src/components/http_parser.c\<close> and \<open>parse_request_url\<close>; facts about printed
    requests in \<open>Http_Facts\<close>, round trips and validation in \<open>Http_Properties\<close>.
  \<^item> \<open>Task_Queue\<close>: the linked queue of \<^verbatim>\<open>src/components/thread_pool.c\<close>, with the locale of a queue
    of cells and its interpretation \<open>tq\<close>. \<open>Thread_Pool\<close>: the main thread (\<open>proxy_server_start\<close>,
    \<open>thread_pool_add_task\<close>, \<open>thread_pool_destroy\<close>) and the workers (\<open>worker_thread\<close>)
    interleaved at their synchronisation calls. \<open>Thread_Invariant\<close> proves the invariant of
    every reachable state, \<open>Thread_Properties\<close> what follows, both for signals that come while
    \<open>accept\<close> waits. \<open>Thread_Signals\<close>: signals at any point of the accept loop, by a locale of
    simulations with its interpretations \<open>fs\<close> and \<open>bs\<close> between the runs with and without a lost
    descriptor. \<open>Thread_Create\<close>: \<open>thread_pool_create\<close> interleaved with the workers it has already made, with a \<open>pthread_create\<close> that may fail.
  \<^item> \<open>Proxy_Core\<close>: \<^verbatim>\<open>src/components/proxy_server.c\<close> and the arguments of \<^verbatim>\<open>src/proxy_server.c\<close>.
    The global pointers are the fields of \<open>proxy\<close>. \<open>Proxy_Facts\<close> and \<open>Proxy_Requests\<close> follow a
    request through its branches, \<open>Proxy_States\<close> has the states the server reaches, and the
    receive loop against its reference \<open>until_header\<close>. \<open>Accept_Loop\<close>: \<open>proxy_server_start\<close> on the
    results of \<open>accept\<close> so far, shown to be a run of the main thread of \<open>Thread_Pool\<close>. \<open>Proxy_Main\<close>:
    \<open>main\<close> and \<open>signal_handler\<close> of \<^verbatim>\<open>src/proxy_server.c\<close>, with the exit codes.
  \<^item> \<open>Request_Steps\<close>: one request cut into steps (\<open>advance\<close>) at every access to what the workers
    share: \<open>strtok\<close>'s position, the cache, the pool; \<open>Request_Invariant\<close>: what each step keeps, and
    which steps can be undefined. \<open>Server\<close>: the workers of \<open>Thread_Pool\<close>, each running such a request
    between \<open>sem_wait\<close> and \<open>sem_post\<close>, and \<open>proxy_server_shutdown\<close> at the end; its invariant.
    \<open>Server_Runs\<close> constructs runs of it, \<open>Server_Properties\<close> has the properties, \<open>Server_Strtok\<close>
    those of two requests that meet at \<open>strtok\<close>, \<open>Server_Stall\<close> that of four clients that send nothing.
  \<^item> \<open>Bounded_Work\<close>: the locales of a system whose own steps use up work that only events from outside
    add. \<open>Pool_Work\<close> and \<open>Server_Work\<close> give the measures of the thread pool and of the server and
    interpret them (\<open>pw\<close>, \<open>sw\<close>, and \<open>sf\<close> with the failed calls of \<open>accept\<close> counted apart).

  \<^bold>\<open>Conventions.\<close> A result \<open>None\<close> of an operation is undefined behaviour of C: a NULL or dangling
  dereference, a double free, an access outside an array, a buffer overflow. A \<open>\<dots> option\<close> pointer is
  NULL when \<open>None\<close>. Every \<open>malloc\<close>, clock value and system call result is an argument; the
  theorems hold for all of them, unless a hypothesis names what is needed
  (\<open>alloc_fresh\<close>: memory handed out is not in use; \<open>memory_for\<close>: there is enough of it;
  \<open>os_fresh\<close>: new descriptors are not open; \<open>env_ok\<close>: the allocations of the parser, which does
  not check them, succeed). Log lines are left out. \<open>int\<close> stands for the C integers that cannot
  overflow here; the hash and the access counter are 32-bit words, \<open>atoi\<close> and the
  length of an error page wrap at 32 bits.

  \<^bold>\<open>Loops.\<close> Loops over pointers are partial functions whose value \<open>None\<close> includes not returning, and
  the refinement lemmas prove that they return; loops over arrays and bytes are structural or have
  a termination proof. There is no fuel. That the threads together come to rest is a measure on the
  states of the server (\<open>server_work\<close>), not an assumption of fairness.

  \<^bold>\<open>What is shown.\<close> The cache refines its contract in every reachable state, its size and heap are
  exact, lookups and insertions do what they should on every branch; the pool never exceeds 20
  sockets and, as long as its clients keep to it, never lends one twice; the parser is total,
  inverts printing and stays inside its buffers; every request that is not one of two defective
  kinds runs to its end and closes its client exactly once.

  For signals that come only while \<open>accept\<close> waits: no interleaving of the threads loses or
  duplicates a client, blocks, or sleeps through work, and the shutdown ends with everything
  released. With the requests interleaved as well, the stored data keep their types and the
  counters are exact in every state, a request makes at most eleven steps, each of them possible
  and defined outside a list of named causes, every schedule serves every accepted client within a
  bounded number of steps unless requests meet one of these causes or wait for silent clients, a
  cached node stays readable for the next 1023 calls of the cache, and no module is destroyed while
  a request runs. For signals at any point of the accept loop: the threads still make progress and
  the shutdown still ends, with at most one client lost, unless the signal comes inside the
  critical section of \<open>thread_pool_add_task\<close>, which it then never leaves. The pool that
  \<open>thread_pool_create\<close> returns is one the thread model starts from.

  Where the code does something else than its comments say, or goes wrong, that is a theorem too:
  dangling cache pointers, connections of another host after a closed descriptor is used again,
  responses shared across hosts, truncated responses, a wrong Content-Length, the shared position
  of \<open>strtok\<close>, which gives one client the path of another and outlives the memory it points into,
  silent clients that hold every worker, an accept loop that spins while \<open>accept\<close> fails, a signal
  handler that waits for itself or loses a client, a failed creation that waits for ever, an exit
  status that hides a failed start.

  \<^bold>\<open>Not modelled.\<close>

  \<^item> The bundled \<^verbatim>\<open>include/pthread.h\<close>: third-party, declarations and macros without a function body.
    Mutexes, condition variables and semaphores follow their documented behaviour. Of
    \<^verbatim>\<open>platform.c\<close>, what only prints or reads \<open>errno\<close>.
  \<^item> Memory models weaker than sequential consistency: a \<open>strtok\<close> call, a \<open>recv\<close> loop on a worker's own
    buffers and each critical section is one step. The read of a cached node's bytes after the mutex
    is released is a step of its own.
  \<^item> Durations: a \<open>recv\<close> that times out is one that returns nothing. A \<open>recv\<close> on a client that stays
    silent does not return (\<open>rq_silent\<close>, \<open>recv_waits\<close>); \<open>connect\<close>, \<open>send\<close> and \<open>gethostbyname\<close> always do.
  \<^item> The heap blocks of a parsed request: its fields are values, each copy is checked against the size
    of its allocation, and \<open>ParsedRequest_destroy\<close> is the list of the strings it frees; that a copy
    ends in a NUL is built into the C string functions. The access counter of a cache node wraps
    where the \<open>int\<close> of the code would overflow.
  \<^item> Signals that arrive on a worker thread, a second signal during the handler, and a signal inside
    \<open>malloc\<close> or \<open>printf\<close>, whose locks the handler would need. The whole server, with its requests, is
    treated for signals that come while \<open>accept\<close> waits.
\<close>

section \<open>Properties of whole requests\<close>

subsection \<open>Every request\<close>

text \<open>C1. In every state the server reaches, a request from any client bytes, over any network, is
  handled to the end unless it is accepted with a Host header and either a host of 256 characters
  or more, which overflows \<open>host\<close>, or no path, which is a NULL dereference. Otherwise it returns,
  the next state is as good as the last, and the client's socket is closed as the very last act
  and, being none of the proxy's own sockets, not before.\<close>

theorem request_runs_to_completion:
  assumes "proxy_reachable g" and "env_ok env" and "0 < client"
  shows "(handle_client_request env g client = None \<longleftrightarrow>
       (\<exists>pr hh. accepts env [] pr \<and> pr_host pr = Some hh \<and> (256 \<le> length (host_part hh) \<or> pr_path pr = None)))
     \<and> (\<forall>g' evs. handle_client_request env g client = Some (g', evs) \<longrightarrow> proxy_reachable g' \<and> proxy_inv g'
         \<and> (\<exists>before. evs = before @ [Sock_Close client]
             \<and> (\<forall>p. px_conns g = Some p \<and> client \<notin> proxy_socks env p \<longrightarrow> client \<notin> set (closed_socks before))))"
proof -
  have "proxy_inv g" using proxy_reachable_inv [OF assms(1)] by blast
  note o = request_outcome [OF this assms(2,3)]
  have d: "(\<exists>pr. accepts env (px_strtok g) pr \<and> defect pr) \<longleftrightarrow>
    (\<exists>pr hh. accepts env [] pr \<and> pr_host pr = Some hh \<and> (256 \<le> length (host_part hh) \<or> pr_path pr = None))"
    unfolding defect_def using accepts_any_saved by blast
  from o have "handle_client_request env g client = None \<longleftrightarrow> (\<exists>pr. accepts env (px_strtok g) pr \<and> defect pr)"
    by (auto simp: request_done_def split: if_splits)
  moreover have "proxy_reachable g' \<and> proxy_inv g' \<and> (\<exists>before. evs = before @ [Sock_Close client]
      \<and> (\<forall>p. px_conns g = Some p \<and> client \<notin> proxy_socks env p \<longrightarrow> client \<notin> set (closed_socks before)))"
    if "handle_client_request env g client = Some (g', evs)" for g' evs
  proof -
    from o that have "request_done env g client" by (auto split: if_splits)
    with that obtain before where "evs = before @ [Sock_Close client]" "proxy_inv g'"
        "\<forall>p. px_conns g = Some p \<longrightarrow> set (closed_socks before) \<subseteq> proxy_socks env p"
      by (auto simp: request_done_def)
    with px_request [OF assms that] show ?thesis by blast
  qed
  ultimately show ?thesis unfolding d by blast
qed

theorem request_runs_to_completion_witness:
  "\<exists>g' before. handle_client_request (plain_env (plain_request ''GET'' ''/x'' ''a'') [] 0) new_proxy 4 =
     Some (g', before @ [Sock_Close 4]) \<and> proxy_reachable g'"
proof -
  let ?env = "plain_env (plain_request ''GET'' ''/x'' ''a'') [] 0"
  note run = request_runs_to_completion [OF new_proxy_reachable plain_env_ok, of 4 "plain_request ''GET'' ''/x'' ''a''" "[]" 0]
  have a: "accepts ?env [] (parsed ''GET'' ''/x'' ''HTTP/1.1'' (Some ''a'') (plain_request ''GET'' ''/x'' ''a''))"
    by (rule accepts_plain) (simp_all add: http_methods_def word_text_def plain_request_def render_request_def)
  have "\<not> (\<exists>pr hh. accepts ?env [] pr \<and> pr_host pr = Some hh \<and> (256 \<le> length (host_part hh) \<or> pr_path pr = None))"
    using accepts_unique [OF a] by (fastforce simp: host_part_def)
  with run obtain g' evs where "handle_client_request ?env new_proxy 4 = Some (g', evs)" by auto
  with run show ?thesis by fastforce
qed

text \<open>C26. A request that fails validation gets exactly one response, the 400 page below, and changes
  nothing. The page's Content-Length is 70, but its body has 50 bytes: the client waits for 20
  bytes that never come.\<close>

theorem invalid_request_refused:
  assumes "received env \<noteq> []"
    and "validate_http_request (Some (cstr (received env))) (int (length (received env))) = 0"
  shows "\<exists>body. handle_client_request env g client = Some (g,
      [Sock_Send client (''HTTP/1.1 400 Bad Request'' @ CRLF @ ''Content-Type: text/html'' @ CRLF
          @ ''Content-Length: 70'' @ CRLF @ ''Connection: close'' @ CRLF @ CRLF @ body), Sock_Close client])
     \<and> body = ''<html><body><h1>400 Bad Request</h1></body></html>'' \<and> length body = 50"
proof -
  have "to_int32 70 = 70" by (rule to_int32_small) simp_all
  then show ?thesis using handle_invalid [OF assms, of g client]
    by (simp add: error_head_def error_body_def dec_consts)
qed

theorem invalid_request_refused_witness:
  "\<exists>body. handle_client_request (plain_env ''OPTIONS * HTTP/1.1'' [] 0) new_proxy 4 = Some (new_proxy,
      [Sock_Send 4 (''HTTP/1.1 400 Bad Request'' @ CRLF @ ''Content-Type: text/html'' @ CRLF
          @ ''Content-Length: 70'' @ CRLF @ ''Connection: close'' @ CRLF @ CRLF @ body), Sock_Close 4]) \<and> length body = 50"
proof -
  have r: "received (plain_env ''OPTIONS * HTTP/1.1'' [] 0) = ''OPTIONS * HTTP/1.1''" by (simp add: received_plain)
  have "validate_http_request (Some (cstr (received (plain_env ''OPTIONS * HTTP/1.1'' [] 0))))
      (int (length (received (plain_env ''OPTIONS * HTTP/1.1'' [] 0)))) = 0"
    unfolding r by (simp add: validate_http_request_def strncmp_eq_def cstr_def)
  from invalid_request_refused [OF _ this, of new_proxy 4] show ?thesis by (auto simp: r)
qed

subsection \<open>Cached responses\<close>

text \<open>A request whose path, cut to 511 characters, is cached for less than 300 seconds gets the
  cached bytes, all of them, and nothing else happens: no socket but the client's is touched and
  the connection pool is as before. Neither its method nor its host is compared.\<close>

theorem cache_hit_response:
  assumes "px_cache g = Some c" "cache_inv c" and "0 < client" and "accepts env [] pr"
    and "pr_host pr = Some h" "length (host_part h) < 256" "pr_path pr = Some path"
    and "spec_find (take 511 path) (cache_abs c) = Some e" and "env_t_lookup env - e_time e < 300"
  shows "\<exists>g'. handle_client_request env g client = Some (g', [Sock_Send client (e_data e), Sock_Close client])
     \<and> px_conns g' = px_conns g \<and> px_threads g' = px_threads g"
  using handle_hit [OF assms(1-4) assms(5-9)] by blast

theorem cache_hit_response_witness:
  "\<exists>g'. handle_client_request (plain_env (plain_request ''POST'' ''/x'' ''b'') [] 9)
      (new_proxy\<lparr>px_cache := Some (one_entry 4 0 ''/x'' ''page'' 1)\<rparr>) 4 = Some (g', [Sock_Send 4 ''page'', Sock_Close 4])"
proof -
  have "accepts (plain_env (plain_request ''POST'' ''/x'' ''b'') [] 9) []
      (parsed ''POST'' ''/x'' ''HTTP/1.1'' (Some ''b'') (plain_request ''POST'' ''/x'' ''b''))"
    by (rule accepts_plain) (simp_all add: http_methods_def word_text_def plain_request_def render_request_def)
  note hit = cache_hit_response [OF _ _ _ this, of "new_proxy\<lparr>px_cache := Some (one_entry 4 0 ''/x'' ''page'' 1)\<rparr>"
      "one_entry 4 0 ''/x'' ''page'' 1" 4 "''b''" "''/x''" "\<lparr>e_url = ''/x'', e_data = ''page'', e_time = 0, e_hits = 1\<rparr>"]
  have "\<exists>g'. handle_client_request (plain_env (plain_request ''POST'' ''/x'' ''b'') [] 9)
      (new_proxy\<lparr>px_cache := Some (one_entry 4 0 ''/x'' ''page'' 1)\<rparr>) 4 = Some (g', [Sock_Send 4 ''page'', Sock_Close 4])
     \<and> px_conns g' = px_conns (new_proxy\<lparr>px_cache := Some (one_entry 4 0 ''/x'' ''page'' 1)\<rparr>)
     \<and> px_threads g' = px_threads (new_proxy\<lparr>px_cache := Some (one_entry 4 0 ''/x'' ''page'' 1)\<rparr>)"
    using hit by (simp add: spec_find_def host_part_def) (simp add: plain_env_def)
  then show ?thesis by blast
qed

text \<open>C9. The cache key is the path alone, although the code calls it the full URL: after a request
  for a path on one host was answered, a request for the same path on any other host, with any
  method, gets the first host's response within 300 seconds, and no server is asked.\<close>

theorem response_shared_across_hosts:
  assumes g: "px_cache g = Some c" "cache_inv c" "px_conns g = Some p" "pool_inv p" and "env_ok env1"
    and "memory_for (nat (max_size c)) (env_cache_mem env1)" and "0 < client1" "0 < client2"
    and r1: "accepts env1 [] pr1" "pr_host pr1 = Some h1" "length (host_part h1) < 256" "pr_path pr1 = Some path1"
      "spec_find (take 511 path1) (cache_abs c) = None"
    and srv: "extract_host_port 256 (Some h1) = Some (0, Some (host_part h1, port))"
      "0 \<le> fst (open_server env1 (Some p) (host_part h1) port)" "env_send_ok env1"
      "recv_loop [] False (env_server env1) = response" "response \<noteq> []"
    and r2: "accepts env2 [] pr2" "pr_host pr2 = Some h2" "length (host_part h2) < 256" "pr_path pr2 = Some path2"
      "take 511 path2 = take 511 path1" "env_t_lookup env2 - env_t_store env1 < 300"
  shows "\<exists>g1 evs1 g2. handle_client_request env1 g client1 = Some (g1, evs1) \<and> Sock_Send client1 response \<in> set evs1
     \<and> handle_client_request env2 g1 client2 = Some (g2, [Sock_Send client2 response, Sock_Close client2])"
proof -
  from handle_miss [OF g assms(5,6,7) r1 srv] obtain g1 evs c1 where
    f: "handle_client_request env1 g client1 = Some (g1, evs)"
      "Sock_Send client1 response \<in> set evs" "px_cache g1 = Some c1" "cache_inv c1"
      "spec_find (take 511 path1) (cache_abs c1) =
         Some \<lparr>e_url = take 511 path1, e_data = response, e_time = env_t_store env1, e_hits = 1\<rparr>" by blast
  from handle_hit [OF f(3,4) assms(8) r2(1-4) f(5) [folded r2(5)]] r2(6) obtain g2 where
    "handle_client_request env2 g1 client2 = Some (g2, [Sock_Send client2 response, Sock_Close client2])" by auto
  with f(1,2) show ?thesis by blast
qed

theorem response_shared_across_hosts_witness:
  "\<exists>g1 evs1 g2. handle_client_request (plain_env (plain_request ''GET'' ''/x'' ''a'') [''HTTP/1.1 200 OK'' @ CRLF @ CRLF] 0)
        new_proxy 4 = Some (g1, evs1)
     \<and> handle_client_request (plain_env (plain_request ''POST'' ''/x'' ''b'') [] 100) g1 7 =
         Some (g2, [Sock_Send 7 (''HTTP/1.1 200 OK'' @ CRLF @ CRLF), Sock_Close 7])"
proof -
  let ?resp = "''HTTP/1.1 200 OK'' @ CRLF @ CRLF"
  let ?env1 = "plain_env (plain_request ''GET'' ''/x'' ''a'') [?resp] 0"
  let ?env2 = "plain_env (plain_request ''POST'' ''/x'' ''b'') [] 100"
  have a1: "accepts ?env1 [] (parsed ''GET'' ''/x'' ''HTTP/1.1'' (Some ''a'') (plain_request ''GET'' ''/x'' ''a''))"
    and a2: "accepts ?env2 [] (parsed ''POST'' ''/x'' ''HTTP/1.1'' (Some ''b'') (plain_request ''POST'' ''/x'' ''b''))"
    by (rule accepts_plain; simp add: http_methods_def word_text_def plain_request_def render_request_def)+
  have resp: "recv_loop [] False (env_server ?env1) = ?resp"
    unfolding plain_env_def request_env.simps by (rule recv_loop_short) (simp_all add: cstr_def)
  have x: "extract_host_port 256 (Some ''a'') = Some (0, Some (host_part ''a'', 80))"
    by (simp add: extract_host_port_def host_part_def)
  have o: "0 \<le> fst (open_server ?env1 (Some new_pool) (host_part ''a'') 80)"
    by (simp add: open_server_def plain_env_def connection_pool_get_def new_pool_get plain_connection)
  have hosts: "length (host_part ''a'') < 256" "length (host_part ''b'') < 256" by (simp_all add: host_part_def)
  have mem: "memory_for (nat (max_size (empty_cache CACHE_SIZE))) (env_cache_mem ?env1)"
    by (simp add: CACHE_SIZE_def plain_env_def)
  have "\<exists>g1 evs1 g2. handle_client_request ?env1 new_proxy 4 = Some (g1, evs1) \<and> Sock_Send 4 ?resp \<in> set evs1
     \<and> handle_client_request ?env2 g1 7 = Some (g2, [Sock_Send 7 ?resp, Sock_Close 7])"
    by (rule response_shared_across_hosts [OF _ _ _ new_pool_inv plain_env_ok mem _ _ a1 _ _ _ _ x o _ resp _ a2])
      (simp add: new_proxy_def CACHE_SIZE_def hosts spec_find_def plain_env_def)+
  then show ?thesis by blast
qed

subsection \<open>The exchange with the server\<close>

text \<open>C12. The request sent to the server fits its buffer, and any server that parses requests the way
  this program does reads back the client's method, the path on the server and the host, whatever
  the client's path was: \<open>http://\<close> and the authority are cut off, the rest is cut to 255
  characters. No other header and no body of the client is in it.\<close>

theorem upstream_request_round_trip:
  assumes "m \<in> set http_methods" and "word_text path" and "line_text h" "h = [] \<or> hd h \<noteq> CHR '' ''" "length h < 256"
  shows "\<exists>text pr. formatted MAX_REQUEST_SIZE (request_text m (actual_path path) h) = Some text \<and> length text < 4096
     \<and> ParsedRequest_parse (\<lambda>_. True) (Some empty_request) (Some text) (int (length text)) sv = Some (0, Some pr, [])
     \<and> pr_method pr = Some m \<and> pr_path pr = Some (actual_path path) \<and> pr_host pr = Some h
     \<and> take 1 (actual_path path) = ''/'' \<and> length (actual_path path) \<le> 255"
proof -
  let ?text = "request_text m (actual_path path) h"
  let ?headers = "''Host: '' @ h @ CRLF @ ''User-Agent: ProxyServer/1.0'' @ CRLF @ ''Connection: close'' @ CRLF @ CRLF"
  have e: "?text = render_request m (actual_path path) ''HTTP/1.1'' ?headers"
    by (simp add: request_text_def render_request_def)
  have hl: "header_loop (\<lambda>_. True) pos ?headers = Some (Some h)" for pos
    using header_loop_host [of "[]" "''Host''" h pos 1 "''User-Agent: ProxyServer/1.0'' @ CRLF @ ''Connection: close'' @ CRLF @ CRLF"]
      assms(3,4) by (simp add: strcasecmp_eq_def)
  have pr: "ParsedRequest_parse (\<lambda>_. True) (Some empty_request) (Some ?text) (int (length ?text)) sv =
      Some (0, Some (parsed m (actual_path path) ''HTTP/1.1'' (Some h) ?text), [])"
    unfolding e by (rule parse_render [OF methods_words [OF assms(1)] actual_path_word [OF assms(2)] _ hl]) (simp add: word_text_def)
  have "formatted MAX_REQUEST_SIZE ?text = Some ?text"
    using request_text_fits [OF method_bound [OF assms(1)] assms(5)] .
  moreover have "length ?text < 4096"
    using method_bound [OF assms(1)] actual_path_bound [of path] assms(5) by (simp add: request_text_def)
  ultimately show ?thesis using pr actual_path_slash actual_path_bound by (intro exI conjI) (assumption | simp)+
qed

theorem upstream_request_round_trip_witness:
  "\<exists>text pr. formatted MAX_REQUEST_SIZE (request_text ''GET'' (actual_path ''http://a.b/x?y'') ''a.b'') = Some text
     \<and> ParsedRequest_parse (\<lambda>_. True) (Some empty_request) (Some text) (int (length text)) [] = Some (0, Some pr, [])
     \<and> pr_path pr = Some ''/x?y''"
proof -
  have "actual_path ''http://a.b/x?y'' = ''/x?y''" by (simp add: actual_path_def)
  with upstream_request_round_trip [of "''GET''" "''http://a.b/x?y''" "''a.b''" "[]"] show ?thesis
    by (auto simp: http_methods_def word_text_def)
qed

text \<open>C7. What is received from the server is a prefix of its stream that fits the buffer. When the
  stream is smaller than the buffer, the receive loop is \<open>until_header\<close>: it stops with the first
  piece that completes the header, however little of the body came with it, and everything after
  is lost. The limits of 2048 and 1024 bytes in the loop change nothing.\<close>

theorem response_ends_with_header:
  "(\<exists>rest. concat stream = recv_loop [] False stream @ rest) \<and> length (recv_loop [] False stream) < 1048576
   \<and> (length (concat stream) < 1048576 \<longrightarrow> recv_loop [] False stream = until_header [] stream)"
proof -
  have "\<not> header_complete []" using header_complete_length by fastforce
  with recv_loop_until_header [of "[]" stream] recv_loop_prefix [of "[]" False stream] show ?thesis
    by (auto simp: MAX_RESPONSE_SIZE_def)
qed

theorem response_ends_with_header_witness:
  "recv_loop [] False [''HTTP/1.1 200 OK'' @ CRLF @ ''Content-Length: 4'' @ CRLF @ CRLF, ''body''] =
     ''HTTP/1.1 200 OK'' @ CRLF @ ''Content-Length: 4'' @ CRLF @ CRLF"
proof -
  have "until_header [] [''HTTP/1.1 200 OK'' @ CRLF @ ''Content-Length: 4'' @ CRLF @ CRLF, ''body''] =
      ''HTTP/1.1 200 OK'' @ CRLF @ ''Content-Length: 4'' @ CRLF @ CRLF" by code_simp
  with response_ends_with_header [of "[''HTTP/1.1 200 OK'' @ CRLF @ ''Content-Length: 4'' @ CRLF @ CRLF, ''body'']"]
  show ?thesis by simp
qed

subsection \<open>The end of the server\<close>

text \<open>In every state the server reaches, with any well-formed queue of waiting clients, the
  shutdown returns, closes every waiting client in the order of arrival and every socket in the
  connection pool exactly once, frees every cache node, and leaves the three globals NULL.\<close>

theorem shutdown_releases_everything:
  assumes "proxy_reachable g" and "queue_repr tp as" and "px_conns g = Some p"
  shows "\<exists>g' evs. proxy_server_shutdown (g\<lparr>px_threads := Some tp\<rparr>) = Some (g', Map.empty, evs)
     \<and> closed_socks evs = map (client_socket \<circ> the \<circ> tasks tp) as @ live_fds (connections p)
     \<and> distinct (live_fds (connections p))
     \<and> px_threads g' = None \<and> px_cache g' = None \<and> px_conns g' = None"
proof -
  from proxy_reachable_inv [OF assms(1)] assms(3) obtain c where c: "px_cache g = Some c" "cache_inv c" "pool_inv p"
    by (auto simp: proxy_inv_def)
  from cache_inv_repr [OF c(2)] cache_destroy_ok have "cache_destroy (Some c) = Some Map.empty" by blast
  moreover have "drain_tasks (tasks tp) (task_queue_head tp) =
      Some (map (client_socket \<circ> the \<circ> tasks tp) as, tasks tp |` (- set as))"
    using assms(2) by (intro drain_tasks_ok) (simp add: queue_repr_def)
  moreover have "closed_socks (connection_pool_destroy (Some p)) = live_fds (connections p)"
    by (simp add: connection_pool_destroy_def live_fds_def)
  ultimately show ?thesis using c assms(3) by (simp add: proxy_server_shutdown_def pool_inv_def del: map_map)
qed

theorem shutdown_releases_everything_witness:
  "\<exists>g' evs. proxy_server_shutdown (new_proxy\<lparr>px_threads := Some (pool tp_init)\<rparr>) = Some (g', Map.empty, evs) \<and> closed_socks evs = []"
proof -
  have "queue_repr (pool tp_init) []" by (simp add: queue_repr_def tp_init_def)
  from shutdown_releases_everything [OF new_proxy_reachable this, of new_pool] show ?thesis
    by (auto simp: new_proxy_def live_fds_def new_pool_def empty_slot_def)
qed

end
